(* ===== verification/Prelude.thy ===== *)
theory Prelude
  imports Main "HOL-Library.Word" "HOL-Library.Sublist" "HOL-Library.AList" "HOL-Library.Code_Target_Numeral"
begin

text \<open>
  Shared vocabulary of the development: the byte, string and machine-integer types every
  component uses, names for the octets that occur in the IMAP grammar, the checked machine
  arithmetic of Rust, and generic lemmas on lists and sums.

  A Rust \<^verbatim>\<open>u8\<close> is an Isabelle character (a value of eight bits), so that a byte string and a
  literal \<^verbatim>\<open>b"OK"\<close> of the source are both written as string literals.  A Rust \<^verbatim>\<open>&str\<close> is the list of its
  UTF-8 bytes, exactly its representation; the theory on UTF-8 says which lists are such
  strings.  Buffer positions (\<^verbatim>\<open>usize\<close>) are natural numbers; where the source uses checked
  arithmetic on them the bound \<open>2 ^ 64\<close> is written out.
\<close>

type_synonym byte = char
type_synonym bytes = "byte list"
type_synonym str = "byte list"
type_synonym u32 = "32 word"
type_synonym u64 = "64 word"
type_synonym usize = nat

named_theorems parse_simps \<open>unfolding equations for the parsing combinators\<close>
named_theorems adv_rules \<open>a parser only moves its cursor forward, inside its input\<close>
named_theorems ext_rules \<open>how a parser reacts to more input\<close>

abbreviation SP :: byte where "SP \<equiv> CHR 0x20"
abbreviation CR :: byte where "CR \<equiv> CHR 0x0D"
abbreviation LF :: byte where "LF \<equiv> CHR 0x0A"
abbreviation NUL :: byte where "NUL \<equiv> CHR 0x00"
abbreviation DQUOTE :: byte where "DQUOTE \<equiv> CHR 0x22"
abbreviation BACKSLASH :: byte where "BACKSLASH \<equiv> CHR 0x5C"
abbreviation LPAREN :: byte where "LPAREN \<equiv> CHR 0x28"
abbreviation RPAREN :: byte where "RPAREN \<equiv> CHR 0x29"
abbreviation LBRACK :: byte where "LBRACK \<equiv> CHR 0x5B"
abbreviation RBRACK :: byte where "RBRACK \<equiv> CHR 0x5D"
abbreviation LBRACE :: byte where "LBRACE \<equiv> CHR 0x7B"
abbreviation RBRACE :: byte where "RBRACE \<equiv> CHR 0x7D"
abbreviation CRLF :: bytes where "CRLF \<equiv> [CR, LF]"

abbreviation byte_val :: "byte \<Rightarrow> nat" where "byte_val \<equiv> of_char"

text \<open>Rust's \<^verbatim>\<open>checked_add\<close> and \<^verbatim>\<open>checked_sub\<close> on \<^verbatim>\<open>usize\<close>, \<^verbatim>\<open>checked_add\<close> on \<^verbatim>\<open>u32\<close>.\<close>

definition usize_checked_add :: "usize \<Rightarrow> usize \<Rightarrow> usize option" where
  "usize_checked_add a b = (if a + b < 2 ^ 64 then Some (a + b) else None)"

definition usize_checked_sub :: "usize \<Rightarrow> usize \<Rightarrow> usize option" where
  "usize_checked_sub a b = (if b \<le> a then Some (a - b) else None)"

definition u32_checked_add :: "u32 \<Rightarrow> u32 \<Rightarrow> u32 option" where
  "u32_checked_add a b = (if unat a + unat b < 2 ^ 32 then Some (a + b) else None)"

lemma usize_checked_add_Some [simp]:
  "usize_checked_add a b = Some c \<longleftrightarrow> c = a + b \<and> a + b < 2 ^ 64"
  by (auto simp: usize_checked_add_def)

lemma usize_checked_add_None [simp]: "usize_checked_add a b = None \<longleftrightarrow> 2 ^ 64 \<le> a + b"
  by (auto simp: usize_checked_add_def)

lemma usize_checked_sub_Some [simp]:
  "usize_checked_sub a b = Some c \<longleftrightarrow> b \<le> a \<and> c = a - b"
  by (auto simp: usize_checked_sub_def)

lemma usize_checked_sub_None [simp]: "usize_checked_sub a b = None \<longleftrightarrow> a < b"
  by (auto simp: usize_checked_sub_def)

lemma u32_checked_add_unat:
  "u32_checked_add a b = Some c \<Longrightarrow> unat c = unat a + unat b"
  by (auto simp: u32_checked_add_def unat_word_ariths split: if_splits)

text \<open>A slice \<^verbatim>\<open>&xs[i..j]\<close>; every use in the source has \<open>i \<le> j\<close> and \<open>j\<close> within bounds.\<close>

definition slice :: "nat \<Rightarrow> nat \<Rightarrow> 'a list \<Rightarrow> 'a list" where
  "slice i j xs = take (j - i) (drop i xs)"

lemma slice_same [simp]: "slice i i xs = []"
  by (simp add: slice_def)

lemma length_slice [simp]: "j \<le> length xs \<Longrightarrow> length (slice i j xs) = j - i"
  by (simp add: slice_def)

lemma length_slice_le: "length (slice i j xs) \<le> j - i"
  by (simp add: slice_def)

lemma slice_append [simp]: "j \<le> length xs \<Longrightarrow> slice i j (xs @ ys) = slice i j xs"
  by (cases "i \<le> length xs") (auto simp: slice_def)

lemma sublist_slice: "sublist (slice i j xs) xs"
  unfolding slice_def
  by (metis append_take_drop_id sublist_append_rightI sublist_appendI sublist_order.order_trans
      sublist_append_leftI)

lemma set_slice_subset: "set (slice i j xs) \<subseteq> set xs"
  unfolding slice_def by (meson order_trans set_drop_subset set_take_subset)

lemma slice_Suc:
  "i < j \<Longrightarrow> j \<le> length xs \<Longrightarrow> slice i j xs = xs ! i # slice (Suc i) j xs"
  by (simp add: slice_def Cons_nth_drop_Suc[symmetric] take_Cons')

lemma slice_snoc:
  "i \<le> j \<Longrightarrow> j < length xs \<Longrightarrow> slice i (Suc j) xs = slice i j xs @ [xs ! j]"
  by (simp add: slice_def Suc_diff_le take_Suc_conv_app_nth)

lemma slice_split:
  "i \<le> j \<Longrightarrow> j \<le> k \<Longrightarrow> slice i k xs = slice i j xs @ slice j k xs"
proof -
  assume "i \<le> j" and "j \<le> k"
  then have "k - i = (j - i) + (k - j)" by simp
  then have "take (k - i) (drop i xs)
      = take (j - i) (drop i xs) @ take (k - j) (drop (j - i) (drop i xs))"
    by (simp only: take_add)
  with \<open>i \<le> j\<close> show ?thesis by (simp add: slice_def)
qed

lemma drop_slice: "i \<le> j \<Longrightarrow> drop i xs = slice i j xs @ drop j xs"
  unfolding slice_def by (metis append_take_drop_id drop_drop le_add_diff_inverse2)

end
