(* ===== verification/Rust_Std.thy ===== *)
theory Rust_Std
  imports Prelude
begin

text \<open>
  The parts of Rust's standard library the crates rely on: ASCII case handling, decimal
  parsing and formatting of machine integers, string splitting and joining.  Each definition
  follows the documented behaviour of the library function it is named after.
\<close>

subsection \<open>ASCII\<close>

definition is_ascii_digit :: "byte \<Rightarrow> bool" where
  "is_ascii_digit c \<longleftrightarrow> 0x30 \<le> byte_val c \<and> byte_val c \<le> 0x39"

definition is_ascii_uppercase :: "byte \<Rightarrow> bool" where
  "is_ascii_uppercase c \<longleftrightarrow> 0x41 \<le> byte_val c \<and> byte_val c \<le> 0x5A"

definition is_ascii_lowercase :: "byte \<Rightarrow> bool" where
  "is_ascii_lowercase c \<longleftrightarrow> 0x61 \<le> byte_val c \<and> byte_val c \<le> 0x7A"

text \<open>The case bit of an ASCII letter is bit 5.\<close>

definition to_ascii_lowercase :: "byte \<Rightarrow> byte" where
  "to_ascii_lowercase c =
     (if is_ascii_uppercase c
      then Char (digit0 c) (digit1 c) (digit2 c) (digit3 c) (digit4 c) True (digit6 c) (digit7 c)
      else c)"

definition to_ascii_uppercase :: "byte \<Rightarrow> byte" where
  "to_ascii_uppercase c =
     (if is_ascii_lowercase c
      then Char (digit0 c) (digit1 c) (digit2 c) (digit3 c) (digit4 c) False (digit6 c) (digit7 c)
      else c)"

definition byte_eq_ci :: "byte \<Rightarrow> byte \<Rightarrow> bool" where
  "byte_eq_ci a b \<longleftrightarrow> to_ascii_lowercase a = to_ascii_lowercase b"

definition eq_ignore_ascii_case :: "str \<Rightarrow> str \<Rightarrow> bool" where
  "eq_ignore_ascii_case a b \<longleftrightarrow> length a = length b \<and> list_all2 byte_eq_ci a b"

definition str_to_ascii_uppercase :: "str \<Rightarrow> str" where
  "str_to_ascii_uppercase = map to_ascii_uppercase"

definition is_ascii_whitespace :: "byte \<Rightarrow> bool" where
  "is_ascii_whitespace c \<longleftrightarrow> c = SP \<or> c = CHR 0x09 \<or> c = LF \<or> c = CHR 0x0C \<or> c = CR"

lemma byte_val_inject [simp]: "byte_val a = byte_val b \<longleftrightarrow> a = b"
  by simp

lemma byte_val_less_256 [simp]: "byte_val c < 256"
  by (metis of_char_mod_256 mod_less_divisor zero_less_numeral)

lemma byte_eq_ci_refl [simp]: "byte_eq_ci a a"
  by (simp add: byte_eq_ci_def)

lemma byte_eq_ci_sym: "byte_eq_ci a b \<longleftrightarrow> byte_eq_ci b a"
  by (auto simp: byte_eq_ci_def)

lemma byte_eq_ci_trans: "byte_eq_ci a b \<Longrightarrow> byte_eq_ci b c \<Longrightarrow> byte_eq_ci a c"
  by (simp add: byte_eq_ci_def)

lemma eq_ignore_ascii_case_refl [simp]: "eq_ignore_ascii_case a a"
  by (simp add: eq_ignore_ascii_case_def list_all2_refl)

lemma eq_ignore_ascii_case_map:
  "eq_ignore_ascii_case a b \<longleftrightarrow> map to_ascii_lowercase a = map to_ascii_lowercase b"
  unfolding eq_ignore_ascii_case_def
  by (auto simp: list_all2_conv_all_nth list_eq_iff_nth_eq byte_eq_ci_def)

lemma eq_ignore_ascii_case_sym: "eq_ignore_ascii_case a b \<longleftrightarrow> eq_ignore_ascii_case b a"
  by (auto simp: eq_ignore_ascii_case_map)

lemma eq_ignore_ascii_case_trans:
  "eq_ignore_ascii_case a b \<Longrightarrow> eq_ignore_ascii_case b c \<Longrightarrow> eq_ignore_ascii_case a c"
  by (simp add: eq_ignore_ascii_case_map)

text \<open>Comparing upper-cased strings is the same as comparing them without case.\<close>

lemma lower_upper [simp]: "to_ascii_lowercase (to_ascii_uppercase a) = to_ascii_lowercase a"
  by (cases a)
    (auto simp: to_ascii_uppercase_def to_ascii_lowercase_def is_ascii_uppercase_def
      is_ascii_lowercase_def)

lemma upper_lower [simp]: "to_ascii_uppercase (to_ascii_lowercase a) = to_ascii_uppercase a"
  by (cases a)
    (auto simp: to_ascii_uppercase_def to_ascii_lowercase_def is_ascii_uppercase_def
      is_ascii_lowercase_def)

lemma upper_lower_char:
  "to_ascii_uppercase a = to_ascii_uppercase b \<longleftrightarrow> to_ascii_lowercase a = to_ascii_lowercase b"
  by (metis lower_upper upper_lower)

lemma str_to_ascii_uppercase_eq:
  "str_to_ascii_uppercase a = str_to_ascii_uppercase b \<longleftrightarrow> eq_ignore_ascii_case a b"
  by (auto simp: str_to_ascii_uppercase_def eq_ignore_ascii_case_map list_eq_iff_nth_eq
      upper_lower_char)

lemma is_ascii_digit_cases:
  "is_ascii_digit c \<longleftrightarrow> c \<in> set ''0123456789''"
proof -
  have range: "48 \<le> n \<and> n \<le> 57 \<longleftrightarrow> n = 48 \<or> n = 49 \<or> n = 50 \<or> n = 51 \<or> n = 52 \<or> n = 53
      \<or> n = 54 \<or> n = 55 \<or> n = 56 \<or> n = (57 :: nat)" for n
    by presburger
  have "is_ascii_digit c \<longleftrightarrow> byte_val c \<in> byte_val ` set ''0123456789''"
    by (simp add: is_ascii_digit_def range)
  also have "\<dots> \<longleftrightarrow> c \<in> set ''0123456789''"
    unfolding image_iff by (simp only: byte_val_inject) blast
  finally show ?thesis .
qed

subsection \<open>Decimal numbers\<close>

definition digit_val :: "byte \<Rightarrow> nat" where
  "digit_val c = byte_val c - 0x30"

text \<open>
  The digit loop of \<^verbatim>\<open>u32::from_str_radix\<close>: each digit multiplies the accumulator by ten and adds
  the digit, both checked.
\<close>

fun u32_digits :: "bytes \<Rightarrow> nat \<Rightarrow> nat option" where
  "u32_digits [] acc = Some acc"
| "u32_digits (c # cs) acc =
     (if \<not> is_ascii_digit c then None
      else if 10 * acc \<ge> 2 ^ 32 then None
      else if 10 * acc + digit_val c \<ge> 2 ^ 32 then None
      else u32_digits cs (10 * acc + digit_val c))"

text \<open>\<^verbatim>\<open>str::parse::<u32>\<close>: no empty input, one optional leading plus sign.\<close>

definition parse_u32 :: "str \<Rightarrow> u32 option" where
  "parse_u32 s =
     (case s of
        [] \<Rightarrow> None
      | c # cs \<Rightarrow>
          if cs = [] \<and> (c = CHR ''+'' \<or> c = CHR ''-'') then None
          else map_option of_nat (u32_digits (if c = CHR ''+'' then cs else s) 0))"

text \<open>The value a digit string denotes.\<close>

definition dec_value :: "bytes \<Rightarrow> nat" where
  "dec_value = foldl (\<lambda>a c. 10 * a + digit_val c) 0"

text \<open>Decimal formatting, as \<^verbatim>\<open>format!("{}", n)\<close> and \<^verbatim>\<open>format!("{:04}", n)\<close> do it.\<close>

definition dec_digit :: "nat \<Rightarrow> byte" where
  "dec_digit n = ''0123456789'' ! n"

fun dec :: "nat \<Rightarrow> str" where
  "dec n = (if n < 10 then [dec_digit n] else dec (n div 10) @ [dec_digit (n mod 10)])"

declare dec.simps [simp del]

definition dec_pad :: "nat \<Rightarrow> nat \<Rightarrow> str" where
  "dec_pad w n = replicate (w - length (dec n)) CHR ''0'' @ dec n"

lemma less_10_cases: "n < 10 \<Longrightarrow> n \<in> {0, 1, 2, 3, 4, 5, 6, 7, 8, 9 :: nat}"
  by auto

lemma dec_digit_simps:
  assumes "n < 10"
  shows "is_ascii_digit (dec_digit n)" and "digit_val (dec_digit n) = n"
  using less_10_cases [OF assms]
  by (auto simp: dec_digit_def is_ascii_digit_def digit_val_def)

lemma dec_nonempty [simp]: "dec n \<noteq> []"
  by (subst dec.simps) simp

lemma dec_digits: "list_all is_ascii_digit (dec n)"
proof (induction n rule: dec.induct)
  case (1 n)
  then show ?case
    by (cases "n < 10") (simp_all add: dec.simps [of n] dec_digit_simps)
qed

lemma dec_value_snoc: "dec_value (ds @ [c]) = 10 * dec_value ds + digit_val c"
  by (simp add: dec_value_def)

lemma dec_value_dec [simp]: "dec_value (dec n) = n"
proof (induction n rule: dec.induct)
  case (1 n)
  show ?case
  proof (cases "n < 10")
    case True
    then show ?thesis
      by (simp add: dec.simps [of n] dec_value_def dec_digit_simps)
  next
    case False
    with 1 show ?thesis
      by (simp add: dec.simps [of n] dec_value_snoc dec_digit_simps)
  qed
qed

lemma dec_value_replicate_0 [simp]: "dec_value (replicate k CHR ''0'' @ ds) = dec_value ds"
proof -
  have "foldl (\<lambda>a c. 10 * a + digit_val c) 0 (replicate k CHR ''0'') = 0"
    by (induction k) (simp_all add: digit_val_def)
  then show ?thesis by (simp add: dec_value_def)
qed

lemma dec_pad_value [simp]: "dec_value (dec_pad w n) = n"
  by (simp add: dec_pad_def)

lemma dec_pad_inj: "dec_pad w m = dec_pad w n \<Longrightarrow> m = n"
  by (metis dec_pad_value)

lemma dec_pad_digits: "list_all is_ascii_digit (dec_pad w n)"
  by (simp add: dec_pad_def dec_digits list_all_iff is_ascii_digit_def)
    (use dec_digits [of n] in \<open>auto simp: list_all_iff is_ascii_digit_def\<close>)

lemma foldl_dec_mono:
  "a \<le> foldl (\<lambda>a c. 10 * a + digit_val c) a ds"
proof (induction ds arbitrary: a)
  case (Cons d ds)
  have "a \<le> 10 * a + digit_val d" by simp
  also have "\<dots> \<le> foldl (\<lambda>a c. 10 * a + digit_val c) (10 * a + digit_val d) ds"
    by (rule Cons.IH)
  finally show ?case by simp
qed simp

text \<open>The checked digit loop computes the value and fails exactly when it does not fit.\<close>

lemma u32_digits_value:
  "list_all is_ascii_digit ds \<Longrightarrow> acc < 2 ^ 32 \<Longrightarrow>
   u32_digits ds acc =
     (let v = foldl (\<lambda>a c. 10 * a + digit_val c) acc ds in if v < 2 ^ 32 then Some v else None)"
proof (induction ds arbitrary: acc)
  case (Cons d ds)
  let ?acc = "10 * acc + digit_val d"
  have mono: "?acc \<le> foldl (\<lambda>a c. 10 * a + digit_val c) ?acc ds"
    by (rule foldl_dec_mono)
  show ?case
  proof (cases "?acc < 2 ^ 32")
    case True
    with Cons show ?thesis by simp
  next
    case False
    with mono have "\<not> foldl (\<lambda>a c. 10 * a + digit_val c) ?acc ds < 2 ^ 32" by simp
    with False Cons.prems show ?thesis by simp
  qed
qed simp

lemma parse_u32_digits:
  assumes "ds \<noteq> []" and "list_all is_ascii_digit ds"
  shows "parse_u32 ds = (if dec_value ds < 2 ^ 32 then Some (of_nat (dec_value ds)) else None)"
proof -
  from assms obtain c cs where ds: "ds = c # cs" and c: "is_ascii_digit c"
    by (cases ds) auto
  from c have "c \<noteq> CHR ''+''" "c \<noteq> CHR ''-''"
    by (auto simp: is_ascii_digit_def)
  with assms ds show ?thesis
    using u32_digits_value [of ds 0]
    by (auto simp: parse_u32_def dec_value_def Let_def)
qed

lemma parse_u32_dec: "n < 2 ^ 32 \<Longrightarrow> parse_u32 (dec n) = Some (of_nat n)"
  by (simp add: parse_u32_digits dec_digits)

subsection \<open>Splitting and joining\<close>

fun split_on :: "byte \<Rightarrow> str \<Rightarrow> str list" where
  "split_on c [] = [ [] ]"
| "split_on c (x # xs) =
     (if x = c then [] # split_on c xs
      else case split_on c xs of [] \<Rightarrow> [ [x] ] | y # ys \<Rightarrow> (x # y) # ys)"

fun join :: "str \<Rightarrow> str list \<Rightarrow> str" where
  "join sep [] = []"
| "join sep [x] = x"
| "join sep (x # y # zs) = x @ sep @ join sep (y # zs)"

text \<open>\<^verbatim>\<open>str::split_ascii_whitespace\<close>: the maximal runs of non-blank bytes.\<close>

fun split_ws_from :: "str \<Rightarrow> str \<Rightarrow> str list" where
  "split_ws_from cur [] = (if cur = [] then [] else [cur])"
| "split_ws_from cur (x # xs) =
     (if is_ascii_whitespace x
      then (if cur = [] then split_ws_from [] xs else cur # split_ws_from [] xs)
      else split_ws_from (cur @ [x]) xs)"

definition split_ascii_whitespace :: "str \<Rightarrow> str list" where
  "split_ascii_whitespace s = split_ws_from [] s"

lemma split_on_nonempty [simp]: "split_on c xs \<noteq> []"
  by (induction xs) (auto split: list.splits)

lemma join_split_on: "join [c] (split_on c xs) = xs"
proof (induction xs)
  case (Cons x xs)
  obtain y ys where ys: "split_on c xs = y # ys"
    by (cases "split_on c xs") auto
  with Cons show ?case
    by (cases ys) auto
qed simp

lemma split_on_no_sep: "y \<in> set (split_on c xs) \<Longrightarrow> c \<notin> set y"
  by (induction xs arbitrary: y) (auto split: list.splits if_splits)

lemma set_join: "set (join sep xs) \<subseteq> set sep \<union> (\<Union>x\<in>set xs. set x)"
  by (induction sep xs rule: join.induct) auto

end
