(* ===== verification/Utf8.thy ===== *)
theory Utf8
  imports Rust_Std
begin

text \<open>
  UTF-8, as \<^verbatim>\<open>core::str::from_utf8\<close> and \<^verbatim>\<open>str::chars\<close> of the Rust standard library define it.  A Rust
  \<^verbatim>\<open>char\<close> is a Unicode scalar value, modelled as a natural number.  The decoder accepts the
  well-formed byte sequences of the Unicode standard only (no overlong forms, no surrogates,
  nothing above U+10FFFF); the theorems show that decoding and encoding are inverse to each
  other and that well-formedness is preserved by concatenation.
\<close>

definition is_cont :: "byte \<Rightarrow> bool" where
  "is_cont b \<longleftrightarrow> 0x80 \<le> byte_val b \<and> byte_val b \<le> 0xBF"

text \<open>One scalar value from the front of a byte string: its code point and the rest.\<close>

definition utf8_two :: "byte \<Rightarrow> byte \<Rightarrow> nat option" where
  "utf8_two a b =
     (if 0xC2 \<le> byte_val a \<and> byte_val a \<le> 0xDF \<and> is_cont b
      then Some ((byte_val a - 0xC0) * 64 + (byte_val b - 0x80)) else None)"

definition utf8_three :: "byte \<Rightarrow> byte \<Rightarrow> byte \<Rightarrow> nat option" where
  "utf8_three a b c =
     (if (byte_val a = 0xE0 \<and> 0xA0 \<le> byte_val b \<and> byte_val b \<le> 0xBF
          \<or> 0xE1 \<le> byte_val a \<and> byte_val a \<le> 0xEC \<and> is_cont b
          \<or> byte_val a = 0xED \<and> 0x80 \<le> byte_val b \<and> byte_val b \<le> 0x9F
          \<or> 0xEE \<le> byte_val a \<and> byte_val a \<le> 0xEF \<and> is_cont b) \<and> is_cont c
      then Some ((byte_val a - 0xE0) * 4096 + (byte_val b - 0x80) * 64 + (byte_val c - 0x80))
      else None)"

definition utf8_four :: "byte \<Rightarrow> byte \<Rightarrow> byte \<Rightarrow> byte \<Rightarrow> nat option" where
  "utf8_four a b c d =
     (if (byte_val a = 0xF0 \<and> 0x90 \<le> byte_val b \<and> byte_val b \<le> 0xBF
          \<or> 0xF1 \<le> byte_val a \<and> byte_val a \<le> 0xF3 \<and> is_cont b
          \<or> byte_val a = 0xF4 \<and> 0x80 \<le> byte_val b \<and> byte_val b \<le> 0x8F)
         \<and> is_cont c \<and> is_cont d
      then Some ((byte_val a - 0xF0) * 262144 + (byte_val b - 0x80) * 4096
                 + (byte_val c - 0x80) * 64 + (byte_val d - 0x80))
      else None)"

fun utf8_step :: "bytes \<Rightarrow> (nat \<times> bytes) option" where
  "utf8_step [] = None"
| "utf8_step (a # bs) =
     (if byte_val a < 0x80 then Some (byte_val a, bs)
      else if byte_val a < 0xE0 then
        (case bs of b # r \<Rightarrow> map_option (\<lambda>n. (n, r)) (utf8_two a b) | _ \<Rightarrow> None)
      else if byte_val a < 0xF0 then
        (case bs of b # c # r \<Rightarrow> map_option (\<lambda>n. (n, r)) (utf8_three a b c) | _ \<Rightarrow> None)
      else
        (case bs of b # c # d # r \<Rightarrow> map_option (\<lambda>n. (n, r)) (utf8_four a b c d) | _ \<Rightarrow> None))"

lemma utf8_step_shorter: "utf8_step bs = Some (n, r) \<Longrightarrow> length r < length bs"
  by (cases bs) (auto split: if_splits list.splits)

function from_utf8 :: "bytes \<Rightarrow> nat list option" where
  "from_utf8 bs =
     (if bs = [] then Some []
      else case utf8_step bs of
             None \<Rightarrow> None
           | Some (n, r) \<Rightarrow> map_option (Cons n) (from_utf8 r))"
  by pat_completeness auto
termination
  by (relation "measure length") (auto dest: utf8_step_shorter)

declare from_utf8.simps [simp del]

definition utf8_valid :: "bytes \<Rightarrow> bool" where
  "utf8_valid bs \<longleftrightarrow> from_utf8 bs \<noteq> None"

text \<open>\<^verbatim>\<open>str::chars\<close>, on a string that is well formed.\<close>

definition chars :: "str \<Rightarrow> nat list" where
  "chars s = (case from_utf8 s of None \<Rightarrow> [] | Some cs \<Rightarrow> cs)"

definition is_scalar :: "nat \<Rightarrow> bool" where
  "is_scalar n \<longleftrightarrow> n < 0xD800 \<or> 0xE000 \<le> n \<and> n \<le> 0x10FFFF"

text \<open>\<^verbatim>\<open>char::encode_utf8\<close>.\<close>

definition encode_char :: "nat \<Rightarrow> bytes" where
  "encode_char n =
     (if n < 0x80 then [char_of n]
      else if n < 0x800 then [char_of (0xC0 + n div 64), char_of (0x80 + n mod 64)]
      else if n < 0x10000 then
        [char_of (0xE0 + n div 4096), char_of (0x80 + n div 64 mod 64), char_of (0x80 + n mod 64)]
      else
        [char_of (0xF0 + n div 262144), char_of (0x80 + n div 4096 mod 64),
         char_of (0x80 + n div 64 mod 64), char_of (0x80 + n mod 64)])"

definition encode_utf8 :: "nat list \<Rightarrow> str" where
  "encode_utf8 cs = concat (map encode_char cs)"

subsection \<open>Decoding and encoding are inverse\<close>

lemma from_utf8_Nil [simp]: "from_utf8 [] = Some []"
  by (simp add: from_utf8.simps)

lemma from_utf8_step:
  "utf8_step bs = Some (n, r) \<Longrightarrow> from_utf8 bs = map_option (Cons n) (from_utf8 r)"
  by (subst from_utf8.simps) (cases bs; simp)

lemma from_utf8_step_None: "bs \<noteq> [] \<Longrightarrow> utf8_step bs = None \<Longrightarrow> from_utf8 bs = None"
  by (subst from_utf8.simps) simp

text \<open>Positional arithmetic in base 64: the continuation bytes of a sequence are such digits.\<close>

lemma base64_digits:
  fixes z :: nat
  assumes "n = q * 64 + z" and "z < 64"
  shows "n div 64 = q" and "n mod 64 = z"
  using assms by simp_all

lemma div_4096: "n div 4096 = n div 64 div (64 :: nat)"
  by (simp flip: div_mult2_eq)

lemma div_262144: "n div 262144 = n div 64 div 64 div (64 :: nat)"
  by (simp flip: div_mult2_eq)

lemma encode_char_1: "n < 0x80 \<Longrightarrow> encode_char n = [char_of n]"
  by (simp add: encode_char_def)

lemma encode_char_2:
  assumes n: "n = x * 64 + y" and "y < 64" "2 \<le> x" "x < 32"
  shows "encode_char n = [char_of (0xC0 + x), char_of (0x80 + y)]"
proof -
  from assms have "0x80 \<le> n" "n < 0x800" by auto
  then show ?thesis
    using base64_digits [OF n] assms by (simp add: encode_char_def)
qed

lemma encode_char_3:
  assumes n: "n = (x * 64 + y) * 64 + z" and "y < 64" "z < 64" "32 \<le> x * 64 + y" "x < 16"
  shows "encode_char n = [char_of (0xE0 + x), char_of (0x80 + y), char_of (0x80 + z)]"
proof -
  from assms have "0x800 \<le> n" "n < 0x10000" by auto
  then show ?thesis
    using base64_digits [OF n] base64_digits [OF refl, of y x] assms(2,3)
    by (simp add: encode_char_def div_4096)
qed

lemma encode_char_4:
  assumes n: "n = ((w * 64 + x) * 64 + y) * 64 + z" and "x < 64" "y < 64" "z < 64"
    and "16 \<le> w * 64 + x"
  shows "encode_char n
    = [char_of (0xF0 + w), char_of (0x80 + x), char_of (0x80 + y), char_of (0x80 + z)]"
proof -
  from assms have "0x10000 \<le> n" by auto
  then show ?thesis
    using base64_digits [OF n] base64_digits [OF refl, of y "w * 64 + x"]
      base64_digits [OF refl, of x w] assms(2-4)
    by (simp add: encode_char_def div_4096 div_262144)
qed

lemma byte_offset: "k \<le> byte_val b \<Longrightarrow> \<exists>x. byte_val b = k + x"
  by (metis le_iff_add)

lemma char_of_sum: "byte_val b = k + x \<Longrightarrow> char_of (k + x) = b"
  by (metis char_of_char)

lemma is_cont_digit: "is_cont b \<longleftrightarrow> (\<exists>x < 64. byte_val b = 0x80 + x)"
  by (auto simp: is_cont_def intro!: exI [of _ "byte_val b - 0x80"])

lemma encode_two:
  assumes "utf8_two a b = Some n"
  shows "encode_char n = [a, b] \<and> is_scalar n \<and> 0x80 \<le> n"
proof -
  from assms obtain x y where "byte_val a = 0xC0 + x" "byte_val b = 0x80 + y"
    and "2 \<le> x" "x < 32" "y < 64" "n = x * 64 + y"
    using byte_offset [of 192 a] by (auto simp: utf8_two_def is_cont_digit split: if_splits)
  then show ?thesis
    by (simp add: encode_char_2 char_of_sum is_scalar_def)
qed

lemma encode_three:
  assumes "utf8_three a b c = Some n"
  shows "encode_char n = [a, b, c] \<and> is_scalar n \<and> 0x80 \<le> n"
proof -
  from assms have "0xE0 \<le> byte_val a" "byte_val a \<le> 0xEF" "is_cont b" "is_cont c"
    by (auto simp: utf8_three_def is_cont_def split: if_splits)
  then obtain x y z where xyz: "byte_val a = 0xE0 + x" "byte_val b = 0x80 + y" "byte_val c = 0x80 + z"
    "x < 16" "y < 64" "z < 64"
    using byte_offset [of 224 a] by (auto simp: is_cont_digit)
  with assms have "n = (x * 64 + y) * 64 + z" "32 \<le> x * 64 + y" "x = 13 \<longrightarrow> y < 32"
    by (auto simp: utf8_three_def is_cont_digit split: if_splits)
  moreover from this xyz have "is_scalar n"
    by (cases "x < 13"; cases "x = 13") (auto simp: is_scalar_def)
  ultimately show ?thesis
    using xyz by (simp add: encode_char_3 char_of_sum)
qed

lemma encode_four:
  assumes "utf8_four a b c d = Some n"
  shows "encode_char n = [a, b, c, d] \<and> is_scalar n \<and> 0x80 \<le> n"
proof -
  from assms have "0xF0 \<le> byte_val a" "is_cont b" "is_cont c" "is_cont d"
    by (auto simp: utf8_four_def is_cont_def split: if_splits)
  then obtain w x y z where wxyz: "byte_val a = 0xF0 + w" "byte_val b = 0x80 + x"
    "byte_val c = 0x80 + y" "byte_val d = 0x80 + z" "x < 64" "y < 64" "z < 64"
    using byte_offset [of 240 a] by (auto simp: is_cont_digit)
  with assms have n: "n = ((w * 64 + x) * 64 + y) * 64 + z" "16 \<le> w * 64 + x" "w * 64 + x < 272"
    by (auto simp: utf8_four_def is_cont_digit split: if_splits)
  moreover from this wxyz have "is_scalar n"
    by (auto simp: is_scalar_def)
  ultimately show ?thesis
    using wxyz by (simp add: encode_char_4 char_of_sum)
qed

lemma utf8_step_encode:
  assumes "utf8_step bs = Some (n, r)"
  shows "bs = encode_char n @ r" and "is_scalar n"
proof -
  from assms obtain a t where bs: "bs = a # t" by (cases bs) auto
  consider "byte_val a < 0x80" "n = byte_val a" "t = r"
    | b where "t = b # r" "utf8_two a b = Some n"
    | b c where "t = b # c # r" "utf8_three a b c = Some n"
    | b c d where "t = b # c # d # r" "utf8_four a b c d = Some n"
    using assms bs by (auto split: if_splits list.splits)
  then have "bs = encode_char n @ r \<and> is_scalar n"
    by cases
      (use bs encode_two encode_three encode_four in
        \<open>force simp: encode_char_1 is_scalar_def\<close>)+
  then show "bs = encode_char n @ r" and "is_scalar n" by auto
qed

text \<open>Decoding loses nothing: the decoded scalars encode back to the same bytes.\<close>

lemma encode_from_utf8:
  "from_utf8 bs = Some cs \<Longrightarrow> encode_utf8 cs = bs \<and> list_all is_scalar cs"
proof (induction bs arbitrary: cs rule: from_utf8.induct)
  case (1 bs)
  show ?case
  proof (cases "bs = []")
    case True
    with "1.prems" show ?thesis by (simp add: encode_utf8_def)
  next
    case False
    with "1.prems" obtain n r cs' where st: "utf8_step bs = Some (n, r)"
      and r: "from_utf8 r = Some cs'" and cs: "cs = n # cs'"
      by (subst (asm) from_utf8.simps) (auto split: option.splits)
    from "1.IH" [OF False st refl r] have "encode_utf8 cs' = r \<and> list_all is_scalar cs'" .
    with cs utf8_step_encode [OF st] show ?thesis by (simp add: encode_utf8_def)
  qed
qed

text \<open>Every scalar value is decoded from its encoding.\<close>

lemma byte_val_char_of: "n < 256 \<Longrightarrow> byte_val (char_of n) = n"
  by simp

lemma utf8_step_of_encode:
  assumes "is_scalar n"
  shows "utf8_step (encode_char n @ r) = Some (n, r)"
proof -
  consider "n < 0x80" | "0x80 \<le> n" "n < 0x800" | "0x800 \<le> n" "n < 0x10000" | "0x10000 \<le> n"
    by linarith
  then show ?thesis
  proof cases
    case 1
    then show ?thesis by (simp add: encode_char_1)
  next
    case 2
    define x y where "x = n div 64" and "y = n mod 64"
    have n: "n = x * 64 + y" by (simp add: x_def y_def)
    have "y < 64" "2 \<le> x" "x < 32" using 2 by (auto simp: x_def y_def)
    then show ?thesis
      by (simp add: encode_char_2 [OF n] utf8_two_def is_cont_digit) (simp add: n)
  next
    case 3
    define x y z where "x = n div 64 div 64" and "y = n div 64 mod 64" and "z = n mod 64"
    have n: "n = (x * 64 + y) * 64 + z" by (simp add: x_def y_def z_def)
    have b: "y < 64" "z < 64" by (simp_all add: y_def z_def)
    with 3 n have r: "32 \<le> x * 64 + y" "x < 16" by auto
    from assms 3 n b have "x = 13 \<longrightarrow> y < 32" by (auto simp: is_scalar_def)
    moreover have "x = 0 \<or> 1 \<le> x \<and> x \<le> 12 \<or> x = 13 \<or> 14 \<le> x" by auto
    ultimately show ?thesis
      using b r by (auto simp: encode_char_3 [OF n b r] utf8_three_def is_cont_digit) (simp_all add: n)
  next
    case 4
    define w x y z where "w = n div 64 div 64 div 64" and "x = n div 64 div 64 mod 64"
      and "y = n div 64 mod 64" and "z = n mod 64"
    have n: "n = ((w * 64 + x) * 64 + y) * 64 + z" by (simp add: w_def x_def y_def z_def)
    have b: "x < 64" "y < 64" "z < 64" by (simp_all add: x_def y_def z_def)
    with 4 n have r: "16 \<le> w * 64 + x" by auto
    have "n \<le> 0x10FFFF" using assms 4 by (auto simp: is_scalar_def)
    with n b have "w * 64 + x < 272" by auto
    moreover from this have "w = 0 \<or> 1 \<le> w \<and> w \<le> 3 \<or> w = 4" by auto
    ultimately show ?thesis
      using b r by (auto simp: encode_char_4 [OF n b r] utf8_four_def is_cont_digit) (simp_all add: n)
  qed
qed

lemma encode_char_nonempty [simp]: "encode_char n \<noteq> []"
  by (simp add: encode_char_def)

lemma from_utf8_encode: "list_all is_scalar cs \<Longrightarrow> from_utf8 (encode_utf8 cs) = Some cs"
  by (induction cs)
    (simp_all add: encode_utf8_def from_utf8_step [OF utf8_step_of_encode])

lemma encode_utf8_append [simp]: "encode_utf8 (xs @ ys) = encode_utf8 xs @ encode_utf8 ys"
  by (simp add: encode_utf8_def)

lemma from_utf8_append:
  assumes "from_utf8 a = Some xs" and "from_utf8 b = Some ys"
  shows "from_utf8 (a @ b) = Some (xs @ ys)"
proof -
  from assms have "a = encode_utf8 xs" "b = encode_utf8 ys" "list_all is_scalar (xs @ ys)"
    using encode_from_utf8 by auto
  then show ?thesis
    using from_utf8_encode [of "xs @ ys"] by simp
qed

lemma utf8_valid_Nil [simp]: "utf8_valid []"
  by (simp add: utf8_valid_def)

lemma utf8_valid_append: "utf8_valid a \<Longrightarrow> utf8_valid b \<Longrightarrow> utf8_valid (a @ b)"
  by (auto simp: utf8_valid_def dest: from_utf8_append)

lemma chars_append: "utf8_valid a \<Longrightarrow> utf8_valid b \<Longrightarrow> chars (a @ b) = chars a @ chars b"
  by (auto simp: utf8_valid_def chars_def from_utf8_append)

lemma encode_chars: "utf8_valid s \<Longrightarrow> encode_utf8 (chars s) = s"
  by (auto simp: utf8_valid_def chars_def encode_from_utf8)

lemma chars_scalar: "list_all is_scalar (chars s)"
  by (simp add: chars_def encode_from_utf8 split: option.split)

lemma chars_encode_utf8: "list_all is_scalar cs \<Longrightarrow> chars (encode_utf8 cs) = cs"
  by (simp add: chars_def from_utf8_encode)

lemma utf8_valid_encode_utf8: "list_all is_scalar cs \<Longrightarrow> utf8_valid (encode_utf8 cs)"
  by (simp add: utf8_valid_def from_utf8_encode)

text \<open>ASCII strings are well formed, and their characters are their bytes.\<close>

definition is_ascii :: "bytes \<Rightarrow> bool" where
  "is_ascii s \<longleftrightarrow> list_all (\<lambda>c. byte_val c < 0x80) s"

lemma from_utf8_ascii_Cons:
  "byte_val c < 0x80 \<Longrightarrow> from_utf8 (c # s) = map_option (Cons (byte_val c)) (from_utf8 s)"
  by (rule from_utf8_step) simp

lemma from_utf8_ascii: "is_ascii s \<Longrightarrow> from_utf8 s = Some (map byte_val s)"
  by (induction s) (simp_all add: is_ascii_def from_utf8_ascii_Cons)

lemma utf8_valid_ascii [simp]: "is_ascii s \<Longrightarrow> utf8_valid s"
  by (simp add: utf8_valid_def from_utf8_ascii)

lemma chars_ascii: "is_ascii s \<Longrightarrow> chars s = map byte_val s"
  by (simp add: chars_def from_utf8_ascii)

lemma is_ascii_simps [simp]:
  "is_ascii []" "is_ascii (c # s) \<longleftrightarrow> byte_val c < 0x80 \<and> is_ascii s"
  "is_ascii (a @ b) \<longleftrightarrow> is_ascii a \<and> is_ascii b"
  by (auto simp: is_ascii_def)

text \<open>An ASCII byte is never part of a longer sequence.\<close>

lemma encode_char_ascii: "b \<in> set (encode_char n) \<Longrightarrow> byte_val b < 0x80 \<Longrightarrow> is_scalar n \<Longrightarrow>
    encode_char n = [b] \<and> n = byte_val b"
  by (auto simp: encode_char_def is_scalar_def split: if_splits)

end
