(* ===== verification/Ast.thy ===== *)
theory Ast
  imports Utf8
begin

text \<open>
  The response model of \<^verbatim>\<open>imap-core/src/ast.rs\<close> and the parser errors of
  \<^verbatim>\<open>imap-core/src/error.rs\<close>.  Each enum of the source is a datatype; the constructors of
  different enums share names in Rust, so here they carry the suffix \<open>Code\<close>, \<open>Data\<close>, \<open>Item\<close> or
  \<open>Att\<close> of the enum they belong to.  A borrowed \<^verbatim>\<open>&'a str\<close> or \<^verbatim>\<open>&'a [u8]\<close> is the list of bytes it
  points at.
\<close>

datatype parse_error =
    Incomplete
  | InvalidChar usize
  | ExpectedLiteral str usize
  | UnexpectedEof
  | InvalidNumber
  | LiteralTooLarge (lit_got: usize) (lit_max: usize)
  | TooManyItems usize
  | Malformed string
  | OtherError string

datatype status = Ok | No | Bad | PreAuth | Bye

datatype response_code =
    AlertCode
  | BadCharsetCode "str list"
  | CapabilityCode "str list"
  | ParseCode
  | PermanentFlagsCode "str list"
  | ReadOnlyCode
  | ReadWriteCode
  | TryCreateCode
  | UidNextCode u32
  | UidValidityCode u32
  | UnseenCode u32
  | OtherCode str "str option"

record status_response =
  sr_tag :: "str option"
  sr_status :: status
  sr_code :: "response_code option"
  sr_text :: str

datatype status_item =
    MessagesItem u32
  | RecentItem u32
  | UidNextItem u32
  | UidValidityItem u32
  | UnseenItem u32
  | OtherItem u32

datatype fetch_attribute =
    FlagsAtt "str list"
  | InternalDateAtt str
  | Rfc822SizeAtt u32
  | Rfc822Att bytes
  | Rfc822HeaderAtt bytes
  | Rfc822TextAtt bytes
  | EnvelopeAtt bytes
  | BodyAtt bytes
  | BodyStructureAtt bytes
  | BodySectionAtt (bs_section: "str option") (bs_origin: "u32 option") (bs_data: "bytes option")
  | UidAtt u32

datatype data_response =
    CapabilityData "str list"
  | ListData "str list" "str option" str
  | LsubData "str list" "str option" str
  | StatusData str "status_item list"
  | SearchData "u32 list"
  | FlagsData "str list"
  | ExistsData u32
  | RecentData u32
  | ExpungeData u32
  | FetchData u32 "fetch_attribute list"
  | OtherData bytes

record continue_req =
  cr_code :: "response_code option"
  cr_text :: str

datatype response =
    StatusResp status_response
  | DataResp data_response
  | ContinueResp continue_req

text \<open>
  A parse error other than \<open>Incomplete\<close> is final: the bytes seen so far cannot be the beginning
  of a response.
\<close>

definition hard :: "parse_error \<Rightarrow> bool" where
  "hard e \<longleftrightarrow> e \<noteq> Incomplete"

subsection \<open>What a response holds\<close>

text \<open>
  The list elements of a response that the parser charges against its budget: flags,
  capabilities, character sets, status items and fetch attributes, across all lists.
  Search results are not charged.
\<close>

fun code_items :: "response_code \<Rightarrow> nat" where
  "code_items (BadCharsetCode xs) = length xs"
| "code_items (CapabilityCode xs) = length xs"
| "code_items (PermanentFlagsCode xs) = length xs"
| "code_items _ = 0"

fun att_items :: "fetch_attribute \<Rightarrow> nat" where
  "att_items (FlagsAtt xs) = length xs"
| "att_items _ = 0"

fun data_items :: "data_response \<Rightarrow> nat" where
  "data_items (CapabilityData xs) = length xs"
| "data_items (ListData xs d n) = length xs"
| "data_items (LsubData xs d n) = length xs"
| "data_items (StatusData m xs) = length xs"
| "data_items (FlagsData xs) = length xs"
| "data_items (FetchData n as) = length as + sum_list (map att_items as)"
| "data_items _ = 0"

definition opt_items :: "response_code option \<Rightarrow> nat" where
  "opt_items c = (case c of None \<Rightarrow> 0 | Some c \<Rightarrow> code_items c)"

fun response_items :: "response \<Rightarrow> nat" where
  "response_items (StatusResp r) = opt_items (sr_code r)"
| "response_items (DataResp d) = data_items d"
| "response_items (ContinueResp c) = opt_items (cr_code c)"

end
