(* ===== verification/Ast_Debug.thy ===== *)
theory Ast_Debug
  imports Ast Rust_Std
begin

text \<open>
  The hand-written \<^verbatim>\<open>Debug\<close> of \<^verbatim>\<open>FetchAttribute\<close> in \<^verbatim>\<open>imap-core/src/ast.rs\<close>: what a log line says about a
  FETCH response.  The builders of \<^verbatim>\<open>core::fmt\<close> are modelled in their one-line form.  How \<^verbatim>\<open>core::fmt\<close> escapes a string
  depends on Unicode tables, so the rendering of a string is a parameter.
\<close>

subsection \<open>The builders of \<^verbatim>\<open>core::fmt\<close>\<close>

definition debug_tuple :: "str \<Rightarrow> str list \<Rightarrow> str" where
  "debug_tuple name vals = (if vals = [] then name else name @ [LPAREN] @ join '', '' vals @ [RPAREN])"

definition debug_struct :: "str \<Rightarrow> (str \<times> str) list \<Rightarrow> str" where
  "debug_struct name vals =
     (if vals = [] then name
      else name @ '' { '' @ join '', '' (map (\<lambda>(f, v). f @ '': '' @ v) vals) @ '' }'')"

definition debug_list :: "str list \<Rightarrow> str" where
  "debug_list xs = ''['' @ join '', '' xs @ '']''"

fun debug_option :: "('a \<Rightarrow> str) \<Rightarrow> 'a option \<Rightarrow> str" where
  "debug_option f None = ''None''"
| "debug_option f (Some x) = debug_tuple ''Some'' [f x]"

definition debug_u32 :: "u32 \<Rightarrow> str" where
  "debug_u32 n = dec (unat n)"

subsection \<open>Message content as its length\<close>

definition byte_count :: "usize \<Rightarrow> str" where
  "byte_count n = ''<'' @ dec n @ '' bytes>''"

definition debug_content :: "str \<Rightarrow> bytes \<Rightarrow> str" where
  "debug_content name bs = debug_tuple name [byte_count (length bs)]"

fun fetch_attribute_debug :: "(str \<Rightarrow> str) \<Rightarrow> fetch_attribute \<Rightarrow> str" where
  "fetch_attribute_debug str_debug (FlagsAtt fs) = debug_tuple ''Flags'' [debug_list (map str_debug fs)]"
| "fetch_attribute_debug str_debug (InternalDateAtt date) = debug_tuple ''InternalDate'' [str_debug date]"
| "fetch_attribute_debug str_debug (Rfc822SizeAtt n) = debug_tuple ''Rfc822Size'' [debug_u32 n]"
| "fetch_attribute_debug str_debug (Rfc822Att b) = debug_content ''Rfc822'' b"
| "fetch_attribute_debug str_debug (Rfc822HeaderAtt b) = debug_content ''Rfc822Header'' b"
| "fetch_attribute_debug str_debug (Rfc822TextAtt b) = debug_content ''Rfc822Text'' b"
| "fetch_attribute_debug str_debug (EnvelopeAtt b) = debug_content ''Envelope'' b"
| "fetch_attribute_debug str_debug (BodyAtt b) = debug_content ''Body'' b"
| "fetch_attribute_debug str_debug (BodyStructureAtt b) = debug_content ''BodyStructure'' b"
| "fetch_attribute_debug str_debug (BodySectionAtt section origin data) =
     debug_struct ''BodySection''
       [(''section'', debug_option str_debug section),
        (''origin'', debug_option debug_u32 origin),
        (''data'', debug_option id (map_option (\<lambda>d. byte_count (length d)) data))]"
| "fetch_attribute_debug str_debug (UidAtt uid) = debug_tuple ''Uid'' [debug_u32 uid]"

text \<open>The message content of an attribute replaced by other bytes, position by position.\<close>

fun replace_content :: "(byte \<Rightarrow> byte) \<Rightarrow> fetch_attribute \<Rightarrow> fetch_attribute" where
  "replace_content f (Rfc822Att b) = Rfc822Att (map f b)"
| "replace_content f (Rfc822HeaderAtt b) = Rfc822HeaderAtt (map f b)"
| "replace_content f (Rfc822TextAtt b) = Rfc822TextAtt (map f b)"
| "replace_content f (EnvelopeAtt b) = EnvelopeAtt (map f b)"
| "replace_content f (BodyAtt b) = BodyAtt (map f b)"
| "replace_content f (BodyStructureAtt b) = BodyStructureAtt (map f b)"
| "replace_content f (BodySectionAtt section origin data) = BodySectionAtt section origin (map_option (map f) data)"
| "replace_content f a = a"

text \<open>Whatever the content is, the log line is the same: it tells nothing but lengths.\<close>

lemma debug_hides_content:
  "fetch_attribute_debug str_debug (replace_content f a) = fetch_attribute_debug str_debug a"
  by (cases a) (simp_all add: debug_content_def option.map_comp comp_def)

text \<open>It does tell the length: content of different lengths can be told apart in a log.\<close>

lemma dec_inj: "dec m = dec n \<Longrightarrow> m = n"
  by (metis dec_value_dec)

lemma debug_shows_length:
  "fetch_attribute_debug str_debug (Rfc822Att a) = fetch_attribute_debug str_debug (Rfc822Att b) \<longleftrightarrow> length a = length b"
  by (auto simp: debug_content_def debug_tuple_def byte_count_def dest: dec_inj)

end
