(* ===== verification/Parse_Monad.thy ===== *)
theory Parse_Monad
  imports Ast
begin

text \<open>
  The cursor of \<^verbatim>\<open>imap-core/src/parser.rs\<close> and the way its methods compose.  \<^verbatim>\<open>Parser<'a>\<close> is the record
  \<open>parser\<close>; a method \<^verbatim>\<open>fn f(&mut self) -> Result<T, ParseError>\<close> is a function from the parser before
  the call to an error or the result and the parser after it, and the \<^verbatim>\<open>?\<close> operator is \<open>andthen\<close>.
  No caller of a failing method that changed the cursor goes on using the parser, so an error
  carries no state.

  The second half holds the two contracts every parsing method is shown to meet: it only moves
  the cursor forward inside an unchanged input (\<open>adv_at\<close>), and it reacts to more input in a
  predictable way (\<open>ext_at\<close>).
\<close>

record parser =
  input :: bytes
  pos :: usize
  items_left :: usize

type_synonym 'a parse = "parser \<Rightarrow> parse_error + 'a \<times> parser"

definition ret :: "'a \<Rightarrow> 'a parse" where
  "ret x s = Inr (x, s)"

definition fail :: "parse_error \<Rightarrow> 'a parse" where
  "fail e s = Inl e"

definition andthen :: "'a parse \<Rightarrow> ('a \<Rightarrow> 'b parse) \<Rightarrow> 'b parse" where
  "andthen m f s = (case m s of Inl e \<Rightarrow> Inl e | Inr (x, s') \<Rightarrow> f x s')"

definition here :: "parser parse" where
  "here s = Inr (s, s)"

text \<open>\<^verbatim>\<open>self.pos += n\<close>\<close>

definition skip :: "usize \<Rightarrow> unit parse" where
  "skip n s = Inr ((), s\<lparr>pos := pos s + n\<rparr>)"

text \<open>
  The body of a loop run on a parser.  It only orders the arguments: the equation of a loop is
  then a rewrite rule that unfolds a loop applied to a parser, never one inside a lambda abstraction.
\<close>

definition run :: "parser \<Rightarrow> 'a parse \<Rightarrow> parse_error + 'a \<times> parser" where
  "run s p = p s"

lemma run_cong [fundef_cong]: "s = s' \<Longrightarrow> p s' = p' s' \<Longrightarrow> run s p = run s' p'"
  by (simp add: run_def)

lemma andthen_cong [fundef_cong]:
  assumes "m s = m' s'" and "\<And>x t. m' s' = Inr (x, t) \<Longrightarrow> f x t = f' x t" and "s = s'"
  shows "andthen m f s = andthen m' f' s'"
  using assms by (auto simp: andthen_def split: sum.splits)

text \<open>A branch is taken by the parser in the state it is run in.\<close>

lemma if_app_cong [fundef_cong]:
  assumes "b = b'" and "b' \<Longrightarrow> p s = p' s'" and "\<not> b' \<Longrightarrow> q s = q' s'"
  shows "(if b then p else q) s = (if b' then p' else q') s'"
  using assms by auto

lemma option_app_cong [fundef_cong]:
  assumes "v = v'" and "v' = None \<Longrightarrow> p s = p' s'" and "\<And>x. v' = Some x \<Longrightarrow> q x s = q' x s'"
  shows "(case v of None \<Rightarrow> p | Some x \<Rightarrow> q x) s = (case v' of None \<Rightarrow> p' | Some x \<Rightarrow> q' x) s'"
  using assms by (auto split: option.splits)

lemmas monad_defs [parse_simps] = run_def andthen_def ret_def fail_def here_def skip_def

lemma andthen_Inr:
  "andthen m f s = Inr (y, s'') \<longleftrightarrow> (\<exists>x s'. m s = Inr (x, s') \<and> f x s' = Inr (y, s''))"
  by (auto simp: andthen_def split: sum.splits)

lemma andthen_Inl:
  "andthen m f s = Inl e \<longleftrightarrow> m s = Inl e \<or> (\<exists>x s'. m s = Inr (x, s') \<and> f x s' = Inl e)"
  by (auto simp: andthen_def split: sum.splits)

lemma ret_results [simp]:
  "ret x s = Inr (y, s') \<longleftrightarrow> y = x \<and> s' = s" "ret x s \<noteq> Inl e"
  by (auto simp: ret_def)

lemma fail_results [simp]: "fail e s \<noteq> Inr r" "fail e s = Inl e' \<longleftrightarrow> e' = e"
  by (auto simp: fail_def)

lemma here_results [simp]: "here s = Inr (y, s') \<longleftrightarrow> y = s \<and> s' = s" "here s \<noteq> Inl e"
  by (auto simp: here_def)

lemma skip_no_error [simp]: "skip n s \<noteq> Inl e"
  by (simp add: skip_def)

lemma skip_Inr [simp]: "skip n s = Inr (u, s') \<longleftrightarrow> s' = s\<lparr>pos := pos s + n\<rparr>"
  by (auto simp: skip_def)

lemma andthen_ret [simp]: "andthen (ret x) f = f x"
  by (simp add: fun_eq_iff andthen_def ret_def)

lemma andthen_fail [simp]: "andthen (fail e) f = fail e"
  by (simp add: fun_eq_iff andthen_def fail_def)

lemma andthen_assoc: "andthen (andthen m f) g = andthen m (\<lambda>x. andthen (f x) g)"
  by (auto simp: fun_eq_iff andthen_def split: sum.splits)

subsection \<open>First contract: the cursor moves forward inside an unchanged input\<close>

definition in_bounds :: "parser \<Rightarrow> bool" where
  "in_bounds s \<longleftrightarrow> pos s \<le> length (input s)"

definition adv_res :: "parser \<Rightarrow> parse_error + 'a \<times> parser \<Rightarrow> bool" where
  "adv_res s r \<longleftrightarrow>
     (\<forall>x s'. r = Inr (x, s') \<longrightarrow>
        input s' = input s \<and> pos s \<le> pos s' \<and> items_left s' \<le> items_left s
        \<and> (in_bounds s \<longrightarrow> in_bounds s'))"

abbreviation adv_at :: "'a parse \<Rightarrow> parser \<Rightarrow> bool" where
  "adv_at p s \<equiv> adv_res s (p s)"

lemma adv_res_simps [simp]:
  "adv_res s (Inl e)"
  "adv_res s (Inr (x, s')) \<longleftrightarrow>
     input s' = input s \<and> pos s \<le> pos s' \<and> items_left s' \<le> items_left s
     \<and> (in_bounds s \<longrightarrow> in_bounds s')"
  by (auto simp: adv_res_def)

lemma adv_resD:
  "adv_res s r \<Longrightarrow> r = Inr (x, s') \<Longrightarrow>
     input s' = input s \<and> pos s \<le> pos s' \<and> items_left s' \<le> items_left s
     \<and> (in_bounds s \<longrightarrow> in_bounds s')"
  by simp

lemma adv_resI:
  "(\<And>x s'. r = Inr (x, s') \<Longrightarrow>
     input s' = input s \<and> pos s \<le> pos s' \<and> items_left s' \<le> items_left s
     \<and> (in_bounds s \<longrightarrow> in_bounds s')) \<Longrightarrow> adv_res s r"
  unfolding adv_res_def by blast

text \<open>Skipping a byte that is there, then going on.\<close>

lemma adv_step:
  "pos s < length (input s) \<Longrightarrow> adv_res (s\<lparr>pos := pos s + 1\<rparr>) r \<Longrightarrow> adv_res s r"
  by (cases r) (auto simp: in_bounds_def)

lemma adv_ret [adv_rules]: "adv_at (ret x) s"
  and adv_fail [adv_rules]: "adv_at (fail e) s"
  and adv_here [adv_rules]: "adv_at here s"
  by (auto simp: adv_res_def)

lemma adv_skip [adv_rules]: "pos s + n \<le> length (input s) \<Longrightarrow> adv_at (skip n) s"
  by (auto simp: adv_res_def in_bounds_def)

lemma adv_andthen [adv_rules]:
  assumes "adv_at p s" and "\<And>x s'. p s = Inr (x, s') \<Longrightarrow> adv_at (q x) s'"
  shows "adv_at (andthen p q) s"
  using assms unfolding adv_res_def andthen_Inr by (metis le_trans)

lemma adv_run [adv_rules]: "adv_at p s \<Longrightarrow> adv_res s (run s p)"
  by (simp add: run_def)

lemma adv_if [adv_rules]:
  "(b \<Longrightarrow> adv_at p s) \<Longrightarrow> (\<not> b \<Longrightarrow> adv_at q s) \<Longrightarrow> adv_at (if b then p else q) s"
  by simp

lemma adv_option [adv_rules]:
  "(v = None \<Longrightarrow> adv_at p s) \<Longrightarrow> (\<And>x. v = Some x \<Longrightarrow> adv_at (q x) s) \<Longrightarrow>
   adv_at (case v of None \<Rightarrow> p | Some x \<Rightarrow> q x) s"
  by (cases v) auto

lemma adv_let [adv_rules]: "adv_at (p v) s \<Longrightarrow> adv_at (let x = v in p x) s"
  by simp

end
