(* ===== verification/Parser.thy ===== *)
theory Parser
  imports Parse_Monad
begin

text \<open>
  The recursive-descent parser of \<^verbatim>\<open>imap-core/src/parser.rs\<close>, one definition per method, in the
  order of the source.  A loop of the source is a recursive function whose termination is
  proved from the distance between the cursor and the end of the input, so every parsing
  method is total.  The lemmas between the definitions (named \<open>adv_...\<close>) are the ones the
  termination proofs rest on.
\<close>

definition MAX_LITERAL_SIZE :: usize where
  "MAX_LITERAL_SIZE = 64 * 1024 * 1024"

definition MAX_ITEMS_PER_RESPONSE :: usize where
  "MAX_ITEMS_PER_RESPONSE = 64 * 1024"

definition parser_new :: "bytes \<Rightarrow> parser" where
  "parser_new inp = \<lparr>input = inp, pos = 0, items_left = MAX_ITEMS_PER_RESPONSE\<rparr>"

definition push_item :: "'a list \<Rightarrow> 'a \<Rightarrow> 'a list parse" where
  "push_item list item s =
     (case usize_checked_sub (items_left s) 1 of
        None \<Rightarrow> Inl (TooManyItems MAX_ITEMS_PER_RESPONSE)
      | Some n \<Rightarrow> Inr (list @ [item], s\<lparr>items_left := n\<rparr>))"

definition remaining :: "parser \<Rightarrow> bytes" where
  "remaining s = drop (pos s) (input s)"

definition is_eof :: "parser \<Rightarrow> bool" where
  "is_eof s \<longleftrightarrow> pos s \<ge> length (input s)"

text \<open>\<^verbatim>\<open>core::str::from_utf8(bytes).map_err(|_| ParseError::Other("Invalid UTF-8"))\<close>\<close>

definition utf8_str :: "bytes \<Rightarrow> str parse" where
  "utf8_str bs = (if utf8_valid bs then ret bs else fail (OtherError ''Invalid UTF-8''))"

definition scanned_text :: "usize \<Rightarrow> str parse" where
  "scanned_text start =
     andthen here (\<lambda>s.
     if is_eof s then fail Incomplete
     else utf8_str (slice start (pos s) (input s)))"

definition peek :: "byte parse" where
  "peek s = (if pos s < length (input s) then Inr (input s ! pos s, s) else Inl Incomplete)"

definition peek_at :: "usize \<Rightarrow> byte parse" where
  "peek_at offset s =
     (case usize_checked_add (pos s) offset of
        None \<Rightarrow> Inl Incomplete
      | Some idx \<Rightarrow> if idx < length (input s) then Inr (input s ! idx, s) else Inl Incomplete)"

definition consume_byte :: "byte \<Rightarrow> unit parse" where
  "consume_byte b =
     andthen peek (\<lambda>c.
     if c = b then skip 1
     else andthen here (\<lambda>s. fail (InvalidChar (pos s))))"

definition try_consume_byte :: "byte \<Rightarrow> bool parse" where
  "try_consume_byte b s =
     (case peek s of
        Inr (c, s') \<Rightarrow> if c = b then Inr (True, s'\<lparr>pos := pos s' + 1\<rparr>) else Inr (False, s)
      | Inl _ \<Rightarrow> Inr (False, s))"

definition zip_all_ci :: "bytes \<Rightarrow> bytes \<Rightarrow> bool" where
  "zip_all_ci as bs \<longleftrightarrow> list_all (\<lambda>(a, b). byte_eq_ci a b) (zip as bs)"

definition matches_ci :: "bytes \<Rightarrow> parser \<Rightarrow> bool" where
  "matches_ci expected s =
     (case usize_checked_add (pos s) (length expected) of
        None \<Rightarrow> False
      | Some e \<Rightarrow>
          if e \<le> length (input s) then zip_all_ci (slice (pos s) e (input s)) expected else False)"

definition is_keyword_boundary :: "byte \<Rightarrow> bool" where
  "is_keyword_boundary b \<longleftrightarrow> b = SP \<or> b = CR \<or> b = LF \<or> b = RBRACK \<or> b = RPAREN"

definition try_consume_keyword_ci :: "bytes \<Rightarrow> bool parse" where
  "try_consume_keyword_ci expected s =
     (if \<not> matches_ci expected s then Inr (False, s)
      else
        let i = pos s + length expected;
            is_boundary = (if i < length (input s) then is_keyword_boundary (input s ! i) else True)
        in if \<not> is_boundary then Inr (False, s) else Inr (True, s\<lparr>pos := i\<rparr>))"

definition consume_crlf :: "unit parse" where
  "consume_crlf =
     andthen peek (\<lambda>c.
     if c \<noteq> CR then fail (Malformed ''expected CR'')
     else (\<lambda>s. case peek_at 1 s of
                 Inr (d, _) \<Rightarrow> if d = LF then skip 2 s else Inl (Malformed ''expected LF after CR'')
               | Inl _ \<Rightarrow> Inl Incomplete))"

definition consume_sp :: "unit parse" where
  "consume_sp = consume_byte SP"

definition expect_nil :: "unit parse" where
  "expect_nil =
     andthen (try_consume_keyword_ci ''NIL'') (\<lambda>found.
     if found then ret ()
     else andthen here (\<lambda>s.
       let rest = remaining s;
           is_truncated_nil = (length rest < length ''NIL'' \<and> zip_all_ci rest ''NIL'')
       in if is_truncated_nil then fail Incomplete else fail (Malformed ''expected nstring'')))"

subsection \<open>Scanning loops\<close>

text \<open>
  \<^verbatim>\<open>while let Ok(c) = self.peek() { if keep(c) { self.pos += 1 } else { break } }\<close>, the loop shared by
  \<^verbatim>\<open>parse_number\<close>, \<^verbatim>\<open>parse_atom\<close>, \<^verbatim>\<open>parse_tag\<close>, \<^verbatim>\<open>parse_flag_or_atom\<close>, \<^verbatim>\<open>parse_text\<close>,
  \<^verbatim>\<open>parse_fetch_att_name\<close> and the two scans to CR.
\<close>

function scan_while :: "(byte \<Rightarrow> bool) \<Rightarrow> unit parse" where
  "scan_while keep s =
     (case peek s of
        Inr (c, _) \<Rightarrow> if keep c then scan_while keep (s\<lparr>pos := pos s + 1\<rparr>) else Inr ((), s)
      | Inl _ \<Rightarrow> Inr ((), s))"
  by pat_completeness auto
termination
  by (relation "measure (\<lambda>(k, s). length (input s) - pos s)") (auto simp: peek_def split: if_splits)

declare scan_while.simps [simp del]

text \<open>
  The same loop with a line break inside it reported as an error, as in \<^verbatim>\<open>parse_resp_text_code\<close> and
  \<^verbatim>\<open>read_until_byte\<close>.
\<close>

function scan_in_line :: "(byte \<Rightarrow> bool) \<Rightarrow> string \<Rightarrow> unit parse" where
  "scan_in_line stop msg s =
     (case peek s of
        Inr (c, _) \<Rightarrow>
          if stop c then Inr ((), s)
          else if c = CR \<or> c = LF then Inl (Malformed msg)
          else scan_in_line stop msg (s\<lparr>pos := pos s + 1\<rparr>)
      | Inl _ \<Rightarrow> Inr ((), s))"
  by pat_completeness auto
termination
  by (relation "measure (\<lambda>(k, m, s). length (input s) - pos s)")
    (auto simp: peek_def split: if_splits)

declare scan_in_line.simps [simp del]

definition is_atom_char :: "byte \<Rightarrow> bool" where
  "is_atom_char c \<longleftrightarrow>
     \<not> (byte_val c \<le> 0x1F \<or> byte_val c = 0x7F \<or> c = LPAREN \<or> c = RPAREN \<or> c = LBRACE \<or> c = SP
        \<or> c = CHR ''%'' \<or> c = CHR ''*'' \<or> c = DQUOTE \<or> c = BACKSLASH \<or> c = RBRACK)"

subsection \<open>Tokens\<close>

definition parse_number :: "u32 parse" where
  "parse_number =
     andthen here (\<lambda>s0.
     andthen (scan_while is_ascii_digit) (\<lambda>_.
     andthen here (\<lambda>s1.
     if pos s0 = pos s1 then (if is_eof s1 then fail Incomplete else fail InvalidNumber)
     else
       let bs = slice (pos s0) (pos s1) (input s1) in
       if \<not> utf8_valid bs then fail InvalidNumber
       else case parse_u32 bs of None \<Rightarrow> fail InvalidNumber | Some n \<Rightarrow> ret n)))"

definition parse_atom :: "str parse" where
  "parse_atom =
     andthen here (\<lambda>s0.
     andthen (scan_while is_atom_char) (\<lambda>_.
     andthen here (\<lambda>s1.
     if pos s0 = pos s1 then
       (if is_eof s1 then fail Incomplete else fail (Malformed ''expected atom''))
     else scanned_text (pos s0))))"

definition parse_tag :: "str parse" where
  "parse_tag =
     andthen here (\<lambda>s0.
     andthen (scan_while (\<lambda>c. \<not> (c = SP \<or> c = CR \<or> c = LF))) (\<lambda>_.
     andthen here (\<lambda>s1.
     if pos s0 = pos s1 then
       (if is_eof s1 then fail Incomplete else fail (Malformed ''expected tag''))
     else scanned_text (pos s0))))"

function quoted_loop :: "usize \<Rightarrow> str parse" where
  "quoted_loop start s = run s (
     andthen peek (\<lambda>c.
     if c = DQUOTE then
       andthen here (\<lambda>s1.
       andthen (utf8_str (slice start (pos s1) (input s1))) (\<lambda>t.
       andthen (skip 1) (\<lambda>_. ret t)))
     else if c = BACKSLASH then
       andthen (skip 1) (\<lambda>_.
       andthen peek (\<lambda>d.
       if \<not> (d = DQUOTE \<or> d = BACKSLASH)
       then fail (Malformed ''invalid escape in quoted string'')
       else andthen (skip 1) (\<lambda>_. quoted_loop start)))
     else if c = CR \<or> c = LF then fail (Malformed ''CR/LF inside quoted string'')
     else if c = NUL then fail (Malformed ''NUL inside quoted string'')
     else andthen (skip 1) (\<lambda>_. quoted_loop start)))"
  by pat_completeness auto
termination
  by (relation "measure (\<lambda>(start, s). length (input s) - pos s)")
    (auto simp: peek_def split: if_splits)

declare quoted_loop.simps [simp del]

definition parse_quoted :: "str parse" where
  "parse_quoted =
     andthen (consume_byte DQUOTE) (\<lambda>_.
     andthen here (\<lambda>s. quoted_loop (pos s)))"

definition parse_literal :: "bytes parse" where
  "parse_literal =
     andthen (consume_byte LBRACE) (\<lambda>_.
     andthen parse_number (\<lambda>num.
     let n = unat num in
     andthen (consume_byte RBRACE) (\<lambda>_.
     andthen consume_crlf (\<lambda>_.
     if n > MAX_LITERAL_SIZE then fail (LiteralTooLarge n MAX_LITERAL_SIZE)
     else andthen here (\<lambda>s.
       case usize_checked_add (pos s) n of
         None \<Rightarrow> fail Incomplete
       | Some e \<Rightarrow>
           if e > length (input s) then fail Incomplete
           else andthen (skip n) (\<lambda>_. ret (slice (pos s) e (input s))))))))"

definition parse_astring :: "str parse" where
  "parse_astring =
     andthen peek (\<lambda>c.
     if c = DQUOTE then parse_quoted
     else if c = LBRACE then andthen parse_literal utf8_str
     else parse_atom)"

definition parse_nstring :: "str option parse" where
  "parse_nstring =
     andthen peek (\<lambda>c.
     if c = DQUOTE then andthen parse_quoted (\<lambda>t. ret (Some t))
     else if c = LBRACE then
       andthen parse_literal (\<lambda>bs. andthen (utf8_str bs) (\<lambda>t. ret (Some t)))
     else andthen expect_nil (\<lambda>_. ret None))"

definition parse_flag_or_atom :: "str parse" where
  "parse_flag_or_atom =
     andthen here (\<lambda>s0.
     andthen peek (\<lambda>c.
     andthen (if c = BACKSLASH then andthen (skip 1) (\<lambda>_. try_consume_byte (CHR ''*''))
              else ret False) (\<lambda>star.
     if star then andthen here (\<lambda>s1. utf8_str (slice (pos s0) (pos s1) (input s1)))
     else
       andthen (scan_while is_atom_char) (\<lambda>_.
       andthen here (\<lambda>s1.
       if pos s0 = pos s1 then
         (if is_eof s1 then fail Incomplete else fail (Malformed ''expected flag/atom''))
       else scanned_text (pos s0))))))"

subsection \<open>Progress of the token parsers\<close>

lemma peek_Inr [simp]:
  "peek s = Inr (c, s') \<longleftrightarrow> pos s < length (input s) \<and> c = input s ! pos s \<and> s' = s"
  by (auto simp: peek_def)

lemma peek_Inl [simp]: "peek s = Inl e \<longleftrightarrow> e = Incomplete \<and> length (input s) \<le> pos s"
  by (auto simp: peek_def)

lemma utf8_str_Inr [simp]: "utf8_str bs s = Inr (t, s') \<longleftrightarrow> utf8_valid bs \<and> t = bs \<and> s' = s"
  by (auto simp: utf8_str_def)

lemma utf8_str_Inl [simp]:
  "utf8_str bs s = Inl e \<longleftrightarrow> \<not> utf8_valid bs \<and> e = OtherError ''Invalid UTF-8''"
  by (auto simp: utf8_str_def)

lemma push_item_Inr [simp]:
  "push_item xs x s = Inr (ys, s') \<longleftrightarrow>
     0 < items_left s \<and> ys = xs @ [x] \<and> s' = s\<lparr>items_left := items_left s - 1\<rparr>"
  by (auto simp: push_item_def split: option.splits)

lemma push_item_Inl [simp]:
  "push_item xs x s = Inl e \<longleftrightarrow> items_left s = 0 \<and> e = TooManyItems MAX_ITEMS_PER_RESPONSE"
  by (auto simp: push_item_def split: option.splits)

lemma try_consume_byte_Inr:
  "try_consume_byte b s = Inr (r, s') \<longleftrightarrow>
     (if pos s < length (input s) \<and> input s ! pos s = b
      then r \<and> s' = s\<lparr>pos := pos s + 1\<rparr> else \<not> r \<and> s' = s)"
  by (auto simp: try_consume_byte_def peek_def)

lemma try_consume_byte_no_error [simp]: "try_consume_byte b s \<noteq> Inl e"
  by (auto simp: try_consume_byte_def peek_def)

lemma scan_while_eq:
  "scan_while keep s = Inr ((), s\<lparr>pos := pos s + length (takeWhile keep (remaining s))\<rparr>)"
proof (induction keep s rule: scan_while.induct)
  case (1 keep s)
  show ?case
  proof (cases "pos s < length (input s)")
    case True
    then have rem: "remaining s = input s ! pos s # drop (Suc (pos s)) (input s)"
      by (simp add: remaining_def Cons_nth_drop_Suc)
    from True have pk: "peek s = Inr (input s ! pos s, s)" by simp
    show ?thesis
      using 1 [OF pk refl]
      by (subst scan_while.simps) (simp only: pk, simp add: rem, simp add: remaining_def)
  next
    case False
    then show ?thesis
      by (subst scan_while.simps) (simp add: remaining_def peek_def)
  qed
qed

lemma scan_while_Inr [simp]:
  "scan_while keep s = Inr (u, s') \<longleftrightarrow>
     s' = s\<lparr>pos := pos s + length (takeWhile keep (remaining s))\<rparr>"
  by (auto simp: scan_while_eq)

lemma scan_while_no_error [simp]: "scan_while keep s \<noteq> Inl e"
  by (simp add: scan_while_eq)

lemma length_takeWhile_remaining:
  "in_bounds s \<Longrightarrow> pos s + length (takeWhile keep (remaining s)) \<le> length (input s)"
  using length_takeWhile_le [of keep "remaining s"] by (simp add: in_bounds_def remaining_def)

lemma adv_peek [adv_rules]: "adv_at peek s"
  and adv_utf8_str [adv_rules]: "adv_at (utf8_str bs) s"
  by (simp_all add: adv_res_def)

lemma adv_push_item [adv_rules]: "adv_at (push_item xs x) s"
  by (auto simp: adv_res_def in_bounds_def)

lemma adv_try_consume_byte [adv_rules]: "adv_at (try_consume_byte b) s"
  by (auto simp: adv_res_def try_consume_byte_Inr in_bounds_def split: if_splits)

lemma adv_scan_while [adv_rules]: "adv_at (scan_while keep) s"
  using length_takeWhile_remaining [of s keep] by (auto simp: adv_res_def in_bounds_def)

lemma scan_in_line_cases:
  "scan_in_line stop msg s =
     (if pos s < length (input s) then
        (if stop (input s ! pos s) then Inr ((), s)
         else if input s ! pos s = CR \<or> input s ! pos s = LF then Inl (Malformed msg)
         else scan_in_line stop msg (s\<lparr>pos := pos s + 1\<rparr>))
      else Inr ((), s))"
  by (subst scan_in_line.simps) (simp add: peek_def)

lemma adv_scan_in_line [adv_rules]: "adv_at (scan_in_line stop msg) s"
proof (induction stop msg s rule: scan_in_line.induct)
  case (1 stop msg s)
  let ?c = "input s ! pos s"
  have IH: "adv_at (scan_in_line stop msg) (s\<lparr>pos := pos s + 1\<rparr>)"
    if "pos s < length (input s)" "\<not> stop ?c" "\<not> (?c = CR \<or> ?c = LF)"
    using that by (intro 1 [of "(?c, s)"]) simp_all
  show ?case
    by (subst scan_in_line_cases) (auto intro: adv_step IH simp del: One_nat_def)
qed

lemma adv_consume_byte [adv_rules]: "adv_at (consume_byte b) s"
  unfolding consume_byte_def by (auto intro!: adv_rules)

lemma adv_consume_sp [adv_rules]: "adv_at consume_sp s"
  unfolding consume_sp_def by (rule adv_consume_byte)

lemma adv_consume_crlf [adv_rules]: "adv_at consume_crlf s"
  by (auto simp: adv_res_def consume_crlf_def andthen_Inr peek_at_def in_bounds_def
      split: if_splits option.splits)

lemma adv_try_consume_keyword_ci [adv_rules]: "adv_at (try_consume_keyword_ci kw) s"
  by (auto simp: adv_res_def try_consume_keyword_ci_def matches_ci_def Let_def in_bounds_def
      split: if_splits option.splits)

lemma adv_expect_nil [adv_rules]: "adv_at expect_nil s"
  unfolding expect_nil_def Let_def by (auto intro!: adv_rules)

lemma adv_scanned_text [adv_rules]: "adv_at (scanned_text start) s"
  unfolding scanned_text_def by (auto intro!: adv_rules)

lemma adv_parse_number [adv_rules]: "adv_at parse_number s"
  unfolding parse_number_def by (intro adv_rules)

lemma adv_parse_atom [adv_rules]: "adv_at parse_atom s"
  unfolding parse_atom_def by (intro adv_rules)

lemma adv_parse_tag [adv_rules]: "adv_at parse_tag s"
  unfolding parse_tag_def by (intro adv_rules)

lemma adv_quoted_loop [adv_rules]: "adv_at (quoted_loop start) s"
proof (induction start s rule: quoted_loop.induct)
  case (1 start s)
  show ?case
    by (subst quoted_loop.simps) (intro adv_rules; (rule 1; assumption)?; simp)
qed

lemma adv_parse_quoted [adv_rules]: "adv_at parse_quoted s"
  unfolding parse_quoted_def by (intro adv_rules)

lemma adv_parse_literal [adv_rules]: "adv_at parse_literal s"
  unfolding parse_literal_def by (intro adv_rules; simp)

lemma adv_parse_astring [adv_rules]: "adv_at parse_astring s"
  unfolding parse_astring_def by (intro adv_rules)

lemma adv_parse_nstring [adv_rules]: "adv_at parse_nstring s"
  unfolding parse_nstring_def by (intro adv_rules)

lemma adv_parse_flag_or_atom [adv_rules]: "adv_at parse_flag_or_atom s"
  unfolding parse_flag_or_atom_def by (intro adv_rules; simp)

text \<open>A token that starts with a fixed byte moves the cursor.\<close>

lemma consume_byte_Inr [simp]:
  "consume_byte b s = Inr (u, s') \<longleftrightarrow>
     pos s < length (input s) \<and> input s ! pos s = b \<and> s' = s\<lparr>pos := pos s + 1\<rparr>"
  by (auto simp: consume_byte_def andthen_Inr)

lemma consume_byte_andthen_progress:
  assumes "andthen (consume_byte b) q s = Inr (x, s')" and "\<And>s. adv_at (q ()) s"
  shows "input s' = input s \<and> pos s < pos s'"
proof -
  from assms(1) obtain s1 where s1: "consume_byte b s = Inr ((), s1)" "q () s1 = Inr (x, s')"
    by (auto simp: andthen_Inr)
  with adv_resD [OF assms(2) s1(2)] show ?thesis
    by auto
qed

lemma parse_quoted_progress:
  assumes "parse_quoted s = Inr (t, s')"
  shows "input s' = input s \<and> pos s < pos s'"
  using consume_byte_andthen_progress [OF assms [unfolded parse_quoted_def]]
  by (blast intro: adv_rules)

lemma parse_literal_progress:
  assumes "parse_literal s = Inr (t, s')"
  shows "input s' = input s \<and> pos s < pos s'"
  by (rule consume_byte_andthen_progress [OF assms [unfolded parse_literal_def]])
    (intro adv_rules; simp)

subsection \<open>Lists and balanced expressions\<close>

function paren_atom_loop :: "str list \<Rightarrow> str list parse" where
  "paren_atom_loop items s = run s (
     andthen parse_flag_or_atom (\<lambda>item.
     andthen (push_item items item) (\<lambda>items.
     andthen peek (\<lambda>c.
     if c = SP then andthen (skip 1) (\<lambda>_. paren_atom_loop items)
     else if c = RPAREN then andthen (skip 1) (\<lambda>_. ret items)
     else fail (Malformed ''expected SP or ) in list'')))))"
  by pat_completeness auto
termination
  by (relation "measure (\<lambda>(items, s). length (input s) - pos s)")
    (auto dest!: adv_resD [OF adv_parse_flag_or_atom])

declare paren_atom_loop.simps [simp del]

definition parse_paren_atom_list :: "str list parse" where
  "parse_paren_atom_list =
     andthen (consume_byte LPAREN) (\<lambda>_.
     andthen (try_consume_byte RPAREN) (\<lambda>closed.
     if closed then ret [] else paren_atom_loop []))"

text \<open>
  The nesting depth is a \<^verbatim>\<open>u32\<close>; opening a parenthesis is a checked addition.
\<close>

function balanced_loop :: "u32 \<Rightarrow> unit parse" where
  "balanced_loop depth s = run s (
     if \<not> depth > 0 then ret ()
     else andthen peek (\<lambda>c.
       if c = LPAREN then
         andthen (skip 1) (\<lambda>_.
         case u32_checked_add depth 1 of
           None \<Rightarrow> fail (OtherError ''paren depth overflow'')
         | Some d \<Rightarrow> balanced_loop d)
       else if c = RPAREN then andthen (skip 1) (\<lambda>_. balanced_loop (depth - 1))
       else if c = DQUOTE then andthen parse_quoted (\<lambda>_. balanced_loop depth)
       else if c = LBRACE then andthen parse_literal (\<lambda>_. balanced_loop depth)
       else if c = CR \<or> c = LF then fail (Malformed ''CR/LF inside parenthesised value'')
       else andthen (skip 1) (\<lambda>_. balanced_loop depth)))"
  by pat_completeness auto
termination
  by (relation "measure (\<lambda>(depth, s). length (input s) - pos s)")
    (auto dest!: parse_quoted_progress parse_literal_progress)

declare balanced_loop.simps [simp del]

definition parse_balanced_parens :: "bytes parse" where
  "parse_balanced_parens =
     andthen here (\<lambda>s0.
     andthen (consume_byte LPAREN) (\<lambda>_.
     andthen (balanced_loop 1) (\<lambda>_.
     andthen here (\<lambda>s1. ret (slice (pos s0) (pos s1) (input s1))))))"

definition parse_text :: "str parse" where
  "parse_text =
     andthen here (\<lambda>s0.
     andthen (scan_while (\<lambda>c. \<not> (c = CR \<or> c = LF))) (\<lambda>_. scanned_text (pos s0)))"

lemma adv_paren_atom_loop [adv_rules]: "adv_at (paren_atom_loop items) s"
proof (induction items s rule: paren_atom_loop.induct)
  case (1 items s)
  show ?case
    by (subst paren_atom_loop.simps) (intro adv_rules; (rule 1; assumption)?; simp)
qed

lemma adv_parse_paren_atom_list [adv_rules]: "adv_at parse_paren_atom_list s"
  unfolding parse_paren_atom_list_def by (intro adv_rules)

lemma adv_balanced_loop [adv_rules]: "adv_at (balanced_loop depth) s"
proof (induction depth s rule: balanced_loop.induct)
  case (1 depth s)
  show ?case
    by (subst balanced_loop.simps) (intro adv_rules; (rule 1; assumption)?; simp)
qed

lemma adv_parse_balanced_parens [adv_rules]: "adv_at parse_balanced_parens s"
  unfolding parse_balanced_parens_def by (intro adv_rules)

lemma adv_parse_text [adv_rules]: "adv_at parse_text s"
  unfolding parse_text_def by (intro adv_rules)

subsection \<open>Status responses and response codes\<close>

definition try_parse_status_keyword :: "status option parse" where
  "try_parse_status_keyword =
     andthen (try_consume_keyword_ci ''PREAUTH'') (\<lambda>b. if b then ret (Some PreAuth) else
     andthen (try_consume_keyword_ci ''OK'') (\<lambda>b. if b then ret (Some Ok) else
     andthen (try_consume_keyword_ci ''NO'') (\<lambda>b. if b then ret (Some No) else
     andthen (try_consume_keyword_ci ''BAD'') (\<lambda>b. if b then ret (Some Bad) else
     andthen (try_consume_keyword_ci ''BYE'') (\<lambda>b. if b then ret (Some Bye) else
     ret None)))))"

definition could_be_status_keyword_prefix :: "bytes \<Rightarrow> bool" where
  "could_be_status_keyword_prefix bs \<longleftrightarrow>
     list_ex (\<lambda>kw. length bs < length kw \<and> zip_all_ci (take (length bs) kw) bs)
       [''OK'', ''NO'', ''BAD'', ''BYE'', ''PREAUTH'']"

text \<open>\<^verbatim>\<open>while self.try_consume_byte(b' ') { let cap = self.parse_atom()?; self.push_item(..)?; }\<close>\<close>

function capability_loop :: "str list \<Rightarrow> str list parse" where
  "capability_loop caps s = run s (
     andthen (try_consume_byte SP) (\<lambda>b.
     if \<not> b then ret caps
     else andthen parse_atom (\<lambda>cap. andthen (push_item caps cap) capability_loop)))"
  by pat_completeness auto
termination
  by (relation "measure (\<lambda>(caps, s). length (input s) - pos s)")
    (auto simp: try_consume_byte_Inr dest!: adv_resD [OF adv_parse_atom] split: if_splits)

declare capability_loop.simps [simp del]

definition read_until_byte :: "byte \<Rightarrow> str parse" where
  "read_until_byte terminator =
     andthen here (\<lambda>s0.
     andthen (scan_in_line (\<lambda>c. c = terminator) ''CR/LF before terminator'') (\<lambda>_.
     scanned_text (pos s0)))"

text \<open>The arguments of a response code, given its atom.\<close>

definition resp_text_code_for :: "str \<Rightarrow> response_code parse" where
  "resp_text_code_for atom =
     (if eq_ignore_ascii_case atom ''ALERT'' then ret AlertCode
      else if eq_ignore_ascii_case atom ''PARSE'' then ret ParseCode
      else if eq_ignore_ascii_case atom ''READ-ONLY'' then ret ReadOnlyCode
      else if eq_ignore_ascii_case atom ''READ-WRITE'' then ret ReadWriteCode
      else if eq_ignore_ascii_case atom ''TRYCREATE'' then ret TryCreateCode
      else if eq_ignore_ascii_case atom ''UIDNEXT'' then
        andthen consume_sp (\<lambda>_. andthen parse_number (\<lambda>n. ret (UidNextCode n)))
      else if eq_ignore_ascii_case atom ''UIDVALIDITY'' then
        andthen consume_sp (\<lambda>_. andthen parse_number (\<lambda>n. ret (UidValidityCode n)))
      else if eq_ignore_ascii_case atom ''UNSEEN'' then
        andthen consume_sp (\<lambda>_. andthen parse_number (\<lambda>n. ret (UnseenCode n)))
      else if eq_ignore_ascii_case atom ''CAPABILITY'' then
        andthen (capability_loop []) (\<lambda>caps. ret (CapabilityCode caps))
      else if eq_ignore_ascii_case atom ''PERMANENTFLAGS'' then
        andthen consume_sp (\<lambda>_.
        andthen parse_paren_atom_list (\<lambda>fs. ret (PermanentFlagsCode fs)))
      else if eq_ignore_ascii_case atom ''BADCHARSET'' then
        andthen (try_consume_byte SP) (\<lambda>b.
        andthen (if b then parse_paren_atom_list else ret []) (\<lambda>cs. ret (BadCharsetCode cs)))
      else
        andthen (try_consume_byte SP) (\<lambda>b.
        andthen (if b then andthen (read_until_byte RBRACK) (\<lambda>t. ret (Some t)) else ret None)
          (\<lambda>extra. ret (OtherCode atom extra))))"

definition parse_resp_text_code :: "response_code parse" where
  "parse_resp_text_code =
     andthen here (\<lambda>s0.
     andthen (scan_in_line (\<lambda>c. c = RBRACK \<or> c = SP) ''CR/LF inside response code'') (\<lambda>_.
     andthen here (\<lambda>s1.
     if is_eof s1 then fail Incomplete
     else if pos s0 = pos s1 then fail (Malformed ''empty response code'')
     else andthen (utf8_str (slice (pos s0) (pos s1) (input s1))) resp_text_code_for)))"

definition parse_resp_text :: "(response_code option \<times> str) parse" where
  "parse_resp_text =
     andthen (try_consume_byte LBRACK) (\<lambda>b.
     andthen
       (if b then
          andthen parse_resp_text_code (\<lambda>c.
          andthen (consume_byte RBRACK) (\<lambda>_.
          andthen (try_consume_byte SP) (\<lambda>_. ret (Some c))))
        else ret None) (\<lambda>code.
     andthen parse_text (\<lambda>text. ret (code, text))))"

definition parse_resp_text_after_keyword :: "(response_code option \<times> str) parse" where
  "parse_resp_text_after_keyword =
     andthen (try_consume_byte SP) (\<lambda>b. if b then parse_resp_text else ret (None, []))"

definition parse_continue_req :: "response parse" where
  "parse_continue_req =
     andthen (consume_byte (CHR ''+'')) (\<lambda>_.
     andthen consume_sp (\<lambda>_.
     andthen parse_resp_text (\<lambda>ct.
     andthen consume_crlf (\<lambda>_.
     ret (ContinueResp \<lparr>cr_code = fst ct, cr_text = snd ct\<rparr>)))))"

definition parse_tagged :: "response parse" where
  "parse_tagged =
     andthen parse_tag (\<lambda>tag.
     andthen consume_sp (\<lambda>_.
     andthen try_parse_status_keyword (\<lambda>st.
     case st of
       None \<Rightarrow>
         andthen here (\<lambda>s.
         if could_be_status_keyword_prefix (drop (pos s) (input s)) then fail Incomplete
         else fail (Malformed ''expected tagged status keyword''))
     | Some status \<Rightarrow>
         andthen parse_resp_text_after_keyword (\<lambda>ct.
         andthen consume_crlf (\<lambda>_.
         ret (StatusResp \<lparr>sr_tag = Some tag, sr_status = status,
                         sr_code = fst ct, sr_text = snd ct\<rparr>))))))"

lemma adv_try_parse_status_keyword [adv_rules]: "adv_at try_parse_status_keyword s"
  unfolding try_parse_status_keyword_def by (intro adv_rules)

lemma adv_capability_loop [adv_rules]: "adv_at (capability_loop caps) s"
proof (induction caps s rule: capability_loop.induct)
  case (1 caps s)
  show ?case
    by (subst capability_loop.simps) (intro adv_rules; (rule 1; assumption)?; simp)
qed

lemma adv_read_until_byte [adv_rules]: "adv_at (read_until_byte b) s"
  unfolding read_until_byte_def by (intro adv_rules)

lemma adv_resp_text_code_for [adv_rules]: "adv_at (resp_text_code_for atom) s"
  unfolding resp_text_code_for_def by (intro adv_rules)

lemma adv_parse_resp_text_code [adv_rules]: "adv_at parse_resp_text_code s"
  unfolding parse_resp_text_code_def by (intro adv_rules)

lemma adv_parse_resp_text [adv_rules]: "adv_at parse_resp_text s"
  unfolding parse_resp_text_def by (intro adv_rules)

lemma adv_parse_resp_text_after_keyword [adv_rules]: "adv_at parse_resp_text_after_keyword s"
  unfolding parse_resp_text_after_keyword_def by (intro adv_rules)

subsection \<open>FETCH attributes\<close>

definition parse_fetch_att_name :: "str parse" where
  "parse_fetch_att_name =
     andthen here (\<lambda>s0.
     andthen (scan_while (\<lambda>c. \<not> (c = SP \<or> c = LBRACK \<or> c = RPAREN))) (\<lambda>_.
     andthen here (\<lambda>s1.
     if is_eof s1 then fail Incomplete
     else if pos s0 = pos s1 then fail (Malformed ''expected FETCH att name'')
     else utf8_str (slice (pos s0) (pos s1) (input s1)))))"

definition parse_nstring_bytes :: "bytes parse" where
  "parse_nstring_bytes =
     andthen peek (\<lambda>c.
     if c = DQUOTE then parse_quoted
     else if c = LBRACE then parse_literal
     else andthen expect_nil (\<lambda>_. ret []))"

definition parse_nstring_bytes_optional :: "bytes option parse" where
  "parse_nstring_bytes_optional =
     andthen peek (\<lambda>c.
     if c = DQUOTE then andthen parse_quoted (\<lambda>t. ret (Some t))
     else if c = LBRACE then andthen parse_literal (\<lambda>d. ret (Some d))
     else andthen expect_nil (\<lambda>_. ret None))"

text \<open>\<^verbatim>\<open>BODY[<section>]<<origin>> <nstring>\<close>, after the opening bracket.\<close>

definition parse_body_section :: "fetch_attribute parse" where
  "parse_body_section =
     andthen (read_until_byte RBRACK) (\<lambda>section.
     andthen (consume_byte RBRACK) (\<lambda>_.
     andthen (try_consume_byte (CHR ''<'')) (\<lambda>partial.
     andthen
       (if partial then
          andthen parse_number (\<lambda>n. andthen (consume_byte (CHR ''>'')) (\<lambda>_. ret (Some n)))
        else ret None) (\<lambda>origin.
     andthen consume_sp (\<lambda>_.
     andthen parse_nstring_bytes_optional (\<lambda>data.
     ret (BodySectionAtt (if section = [] then None else Some section) origin data)))))))"

text \<open>The value of a FETCH attribute, given its name.\<close>

definition fetch_att_for :: "str \<Rightarrow> fetch_attribute parse" where
  "fetch_att_for name =
     (if eq_ignore_ascii_case name ''UID'' then
        andthen consume_sp (\<lambda>_. andthen parse_number (\<lambda>n. ret (UidAtt n)))
      else if eq_ignore_ascii_case name ''FLAGS'' then
        andthen consume_sp (\<lambda>_. andthen parse_paren_atom_list (\<lambda>fs. ret (FlagsAtt fs)))
      else if eq_ignore_ascii_case name ''INTERNALDATE'' then
        andthen consume_sp (\<lambda>_. andthen parse_quoted (\<lambda>t. ret (InternalDateAtt t)))
      else if eq_ignore_ascii_case name ''RFC822.SIZE'' then
        andthen consume_sp (\<lambda>_. andthen parse_number (\<lambda>n. ret (Rfc822SizeAtt n)))
      else if eq_ignore_ascii_case name ''RFC822'' then
        andthen consume_sp (\<lambda>_. andthen parse_nstring_bytes (\<lambda>b. ret (Rfc822Att b)))
      else if eq_ignore_ascii_case name ''RFC822.HEADER'' then
        andthen consume_sp (\<lambda>_. andthen parse_nstring_bytes (\<lambda>b. ret (Rfc822HeaderAtt b)))
      else if eq_ignore_ascii_case name ''RFC822.TEXT'' then
        andthen consume_sp (\<lambda>_. andthen parse_nstring_bytes (\<lambda>b. ret (Rfc822TextAtt b)))
      else if eq_ignore_ascii_case name ''ENVELOPE'' then
        andthen consume_sp (\<lambda>_. andthen parse_balanced_parens (\<lambda>b. ret (EnvelopeAtt b)))
      else if eq_ignore_ascii_case name ''BODYSTRUCTURE'' then
        andthen consume_sp (\<lambda>_. andthen parse_balanced_parens (\<lambda>b. ret (BodyStructureAtt b)))
      else if eq_ignore_ascii_case name ''BODY'' then
        andthen (try_consume_byte LBRACK) (\<lambda>bracket.
        if bracket then parse_body_section
        else andthen consume_sp (\<lambda>_. andthen parse_balanced_parens (\<lambda>b. ret (BodyAtt b))))
      else fail (Malformed ''unknown FETCH attribute''))"

definition parse_one_fetch_att :: "fetch_attribute parse" where
  "parse_one_fetch_att = andthen parse_fetch_att_name fetch_att_for"

lemma adv_parse_fetch_att_name [adv_rules]: "adv_at parse_fetch_att_name s"
  unfolding parse_fetch_att_name_def by (intro adv_rules)

lemma adv_parse_nstring_bytes [adv_rules]: "adv_at parse_nstring_bytes s"
  unfolding parse_nstring_bytes_def by (intro adv_rules)

lemma adv_parse_nstring_bytes_optional [adv_rules]: "adv_at parse_nstring_bytes_optional s"
  unfolding parse_nstring_bytes_optional_def by (intro adv_rules)

lemma adv_parse_body_section [adv_rules]: "adv_at parse_body_section s"
  unfolding parse_body_section_def by (intro adv_rules)

lemma adv_fetch_att_for [adv_rules]: "adv_at (fetch_att_for name) s"
  unfolding fetch_att_for_def by (intro adv_rules)

lemma adv_parse_one_fetch_att [adv_rules]: "adv_at parse_one_fetch_att s"
  unfolding parse_one_fetch_att_def by (intro adv_rules)

function fetch_att_loop :: "fetch_attribute list \<Rightarrow> fetch_attribute list parse" where
  "fetch_att_loop atts s = run s (
     andthen parse_one_fetch_att (\<lambda>att.
     andthen (push_item atts att) (\<lambda>atts.
     andthen peek (\<lambda>c.
     if c = SP then andthen (skip 1) (\<lambda>_. fetch_att_loop atts)
     else if c = RPAREN then andthen (skip 1) (\<lambda>_. ret atts)
     else fail (Malformed ''expected SP or ) in FETCH atts'')))))"
  by pat_completeness auto
termination
  by (relation "measure (\<lambda>(atts, s). length (input s) - pos s)")
    (auto dest!: adv_resD [OF adv_parse_one_fetch_att])

declare fetch_att_loop.simps [simp del]

definition parse_fetch_msg_att :: "fetch_attribute list parse" where
  "parse_fetch_msg_att =
     andthen (consume_byte LPAREN) (\<lambda>_.
     andthen (try_consume_byte RPAREN) (\<lambda>closed.
     if closed then ret [] else fetch_att_loop []))"

subsection \<open>Data responses\<close>

definition status_item_for :: "str \<Rightarrow> u32 \<Rightarrow> status_item" where
  "status_item_for key value =
     (if eq_ignore_ascii_case key ''MESSAGES'' then MessagesItem value
      else if eq_ignore_ascii_case key ''RECENT'' then RecentItem value
      else if eq_ignore_ascii_case key ''UIDNEXT'' then UidNextItem value
      else if eq_ignore_ascii_case key ''UIDVALIDITY'' then UidValidityItem value
      else if eq_ignore_ascii_case key ''UNSEEN'' then UnseenItem value
      else OtherItem value)"

definition parse_status_item :: "status_item parse" where
  "parse_status_item =
     andthen parse_atom (\<lambda>key.
     andthen consume_sp (\<lambda>_.
     andthen parse_number (\<lambda>value. ret (status_item_for key value))))"

lemma adv_parse_status_item [adv_rules]: "adv_at parse_status_item s"
  unfolding parse_status_item_def by (intro adv_rules)

function status_item_loop :: "status_item list \<Rightarrow> status_item list parse" where
  "status_item_loop items s = run s (
     andthen parse_status_item (\<lambda>item.
     andthen (push_item items item) (\<lambda>items.
     andthen peek (\<lambda>c.
     if c = SP then andthen (skip 1) (\<lambda>_. status_item_loop items)
     else if c = RPAREN then andthen (skip 1) (\<lambda>_. ret items)
     else fail (Malformed ''expected SP or ) in STATUS items'')))))"
  by pat_completeness auto
termination
  by (relation "measure (\<lambda>(items, s). length (input s) - pos s)")
    (auto dest!: adv_resD [OF adv_parse_status_item])

declare status_item_loop.simps [simp del]

definition parse_status_items :: "status_item list parse" where
  "parse_status_items =
     andthen (consume_byte LPAREN) (\<lambda>_.
     andthen (try_consume_byte RPAREN) (\<lambda>closed.
     if closed then ret [] else status_item_loop []))"

text \<open>\<^verbatim>\<open>while self.try_consume_byte(b' ') { ids.push(self.parse_number()?); }\<close>\<close>

function search_loop :: "u32 list \<Rightarrow> u32 list parse" where
  "search_loop ids s = run s (
     andthen (try_consume_byte SP) (\<lambda>b.
     if \<not> b then ret ids
     else andthen parse_number (\<lambda>n. search_loop (ids @ [n]))))"
  by pat_completeness auto
termination
  by (relation "measure (\<lambda>(ids, s). length (input s) - pos s)")
    (auto simp: try_consume_byte_Inr dest!: adv_resD [OF adv_parse_number] split: if_splits)

declare search_loop.simps [simp del]

definition parse_list_lsub_body :: "(str list \<times> str option \<times> str) parse" where
  "parse_list_lsub_body =
     andthen parse_paren_atom_list (\<lambda>flags.
     andthen consume_sp (\<lambda>_.
     andthen parse_nstring (\<lambda>delimiter.
     andthen consume_sp (\<lambda>_.
     andthen parse_astring (\<lambda>name. ret (flags, delimiter, name))))))"

text \<open>\<^verbatim>\<open>find_current_line_start\<close>: walk back from the cursor to just after a CRLF, or to the start.\<close>

fun line_start_from :: "bytes \<Rightarrow> nat \<Rightarrow> nat" where
  "line_start_from inp 0 = 0"
| "line_start_from inp (Suc i) =
     (if Suc i \<ge> 2 \<and> slice (Suc i - 2) (Suc i) inp = CRLF then Suc i else line_start_from inp i)"

definition find_current_line_start :: "parser \<Rightarrow> usize" where
  "find_current_line_start s = line_start_from (input s) (pos s)"

definition finish_other_data_with_prefix :: "u32 \<Rightarrow> str \<Rightarrow> response parse" where
  "finish_other_data_with_prefix n kind =
     andthen here (\<lambda>s0.
     andthen (scan_while (\<lambda>c. c \<noteq> CR)) (\<lambda>_.
     andthen here (\<lambda>s1.
     andthen consume_crlf (\<lambda>_.
     ret (DataResp (OtherData (slice (find_current_line_start s0) (pos s1) (input s1))))))))"

definition parse_numeric_data_response :: "response parse" where
  "parse_numeric_data_response =
     andthen parse_number (\<lambda>n.
     andthen consume_sp (\<lambda>_.
     andthen parse_atom (\<lambda>kind.
     if eq_ignore_ascii_case kind ''EXISTS'' then
       andthen consume_crlf (\<lambda>_. ret (DataResp (ExistsData n)))
     else if eq_ignore_ascii_case kind ''RECENT'' then
       andthen consume_crlf (\<lambda>_. ret (DataResp (RecentData n)))
     else if eq_ignore_ascii_case kind ''EXPUNGE'' then
       andthen consume_crlf (\<lambda>_. ret (DataResp (ExpungeData n)))
     else if eq_ignore_ascii_case kind ''FETCH'' then
       andthen consume_sp (\<lambda>_.
       andthen parse_fetch_msg_att (\<lambda>attributes.
       andthen consume_crlf (\<lambda>_. ret (DataResp (FetchData n attributes)))))
     else finish_other_data_with_prefix n kind)))"

text \<open>
  The recognised named data responses; \<open>None\<close> for a name the parser does not know.  The source
  finishes every recognised one with the line end.
\<close>

definition named_data_for :: "str \<Rightarrow> data_response parse option" where
  "named_data_for name =
     (if eq_ignore_ascii_case name ''CAPABILITY'' then
        Some (andthen (capability_loop []) (\<lambda>caps. ret (CapabilityData caps)))
      else if eq_ignore_ascii_case name ''LIST'' then
        Some (andthen consume_sp (\<lambda>_. andthen parse_list_lsub_body (\<lambda>(fs, d, n). ret (ListData fs d n))))
      else if eq_ignore_ascii_case name ''LSUB'' then
        Some (andthen consume_sp (\<lambda>_. andthen parse_list_lsub_body (\<lambda>(fs, d, n). ret (LsubData fs d n))))
      else if eq_ignore_ascii_case name ''STATUS'' then
        Some (andthen consume_sp (\<lambda>_. andthen parse_astring (\<lambda>mailbox.
              andthen consume_sp (\<lambda>_. andthen parse_status_items (\<lambda>items.
              ret (StatusData mailbox items))))))
      else if eq_ignore_ascii_case name ''SEARCH'' then
        Some (andthen (search_loop []) (\<lambda>ids. ret (SearchData ids)))
      else if eq_ignore_ascii_case name ''FLAGS'' then
        Some (andthen consume_sp (\<lambda>_. andthen parse_paren_atom_list (\<lambda>fs. ret (FlagsData fs))))
      else None)"

definition parse_named_data_response :: "response parse" where
  "parse_named_data_response =
     andthen here (\<lambda>s0.
     andthen parse_atom (\<lambda>name.
     case named_data_for name of
       Some body \<Rightarrow>
         andthen body (\<lambda>resp. andthen consume_crlf (\<lambda>_. ret (DataResp resp)))
     | None \<Rightarrow>
         andthen (scan_while (\<lambda>c. c \<noteq> CR)) (\<lambda>_.
         andthen here (\<lambda>s1.
         andthen consume_crlf (\<lambda>_.
         ret (DataResp (OtherData (slice (pos s0) (pos s1) (input s1)))))))))"

definition parse_untagged :: "response parse" where
  "parse_untagged =
     andthen (consume_byte (CHR ''*'')) (\<lambda>_.
     andthen consume_sp (\<lambda>_.
     andthen try_parse_status_keyword (\<lambda>st.
     case st of
       Some status \<Rightarrow>
         andthen parse_resp_text_after_keyword (\<lambda>ct.
         andthen consume_crlf (\<lambda>_.
         ret (StatusResp \<lparr>sr_tag = None, sr_status = status,
                         sr_code = fst ct, sr_text = snd ct\<rparr>)))
     | None \<Rightarrow>
         andthen peek (\<lambda>c.
         if is_ascii_digit c then parse_numeric_data_response
         else parse_named_data_response))))"

definition parser_response :: "response parse" where
  "parser_response =
     andthen here (\<lambda>s.
     if is_eof s then fail Incomplete
     else andthen peek (\<lambda>c.
       if c = CHR ''+'' then parse_continue_req
       else if c = CHR ''*'' then parse_untagged
       else parse_tagged))"

definition parse_response :: "bytes \<Rightarrow> parse_error + bytes \<times> response" where
  "parse_response inp =
     (case parser_response (parser_new inp) of
        Inl e \<Rightarrow> Inl e
      | Inr (response, p) \<Rightarrow> Inr (remaining p, response))"

subsection \<open>Progress of the data responses\<close>

lemma adv_search_loop [adv_rules]: "adv_at (search_loop ids) s"
proof (induction ids s rule: search_loop.induct)
  case (1 ids s)
  show ?case
    by (subst search_loop.simps) (intro adv_rules; (rule 1; assumption)?; simp)
qed

lemma adv_status_item_loop [adv_rules]: "adv_at (status_item_loop items) s"
proof (induction items s rule: status_item_loop.induct)
  case (1 items s)
  show ?case
    by (subst status_item_loop.simps) (intro adv_rules; (rule 1; assumption)?; simp)
qed

lemma adv_fetch_att_loop [adv_rules]: "adv_at (fetch_att_loop atts) s"
proof (induction atts s rule: fetch_att_loop.induct)
  case (1 atts s)
  show ?case
    by (subst fetch_att_loop.simps) (intro adv_rules; (rule 1; assumption)?; simp)
qed

lemma adv_parse_status_items [adv_rules]: "adv_at parse_status_items s"
  unfolding parse_status_items_def by (intro adv_rules)

lemma adv_parse_fetch_msg_att [adv_rules]: "adv_at parse_fetch_msg_att s"
  unfolding parse_fetch_msg_att_def by (intro adv_rules)

lemma adv_parse_list_lsub_body [adv_rules]: "adv_at parse_list_lsub_body s"
  unfolding parse_list_lsub_body_def by (intro adv_rules)

lemma adv_case_triple [adv_rules]:
  "(\<And>a b c. x = (a, b, c) \<Longrightarrow> adv_at (q a b c) s) \<Longrightarrow> adv_at (case x of (a, b, c) \<Rightarrow> q a b c) s"
  by (cases x) auto

lemma adv_named_data_for [adv_rules]: "named_data_for name = Some body \<Longrightarrow> adv_at body s"
  unfolding named_data_for_def by (auto intro!: adv_rules split: if_splits)

lemma adv_finish_other_data [adv_rules]: "adv_at (finish_other_data_with_prefix n kind) s"
  unfolding finish_other_data_with_prefix_def by (intro adv_rules)

lemma adv_parse_numeric_data_response [adv_rules]: "adv_at parse_numeric_data_response s"
  unfolding parse_numeric_data_response_def by (intro adv_rules)

lemma adv_parse_named_data_response [adv_rules]: "adv_at parse_named_data_response s"
  unfolding parse_named_data_response_def by (intro adv_rules)

lemma adv_parse_untagged [adv_rules]: "adv_at parse_untagged s"
  unfolding parse_untagged_def by (intro adv_rules)

lemma adv_parse_continue_req [adv_rules]: "adv_at parse_continue_req s"
  unfolding parse_continue_req_def by (intro adv_rules)

lemma adv_parse_tagged [adv_rules]: "adv_at parse_tagged s"
  unfolding parse_tagged_def by (intro adv_rules)

lemma adv_parser_response [adv_rules]: "adv_at parser_response s"
  unfolding parser_response_def by (intro adv_rules)

end
