(* ===== verification/Parser_Ext.thy ===== *)
theory Parser_Ext
  imports Parser
begin

text \<open>
  What more input does to a parser.  The client parses its read buffer every time bytes arrive,
  so the parser keeps seeing prefixes of what the server sent.  This theory shows that no
  answer it gives is ever taken back: a response parsed from a prefix is the response parsed from
  every longer buffer (with the extra bytes left in the remainder), and a buffer rejected with
  an error other than \<open>Incomplete\<close> stays rejected.

  \<open>ext t s\<close> is the parser \<open>s\<close> with the bytes \<open>t\<close> appended to its input.  A result \<open>r\<close> of a method at \<open>s\<close>
  and its result \<open>r'\<close> at \<open>ext t s\<close> are related in one of three ways.
  \<^item> \<open>firm_res\<close>: a success is the same success and a final error stays a final error.
  \<^item> \<open>ext_res\<close>: the same, but a success that used up the whole input may change (a number at
    the end of the buffer may go on).
  \<^item> \<open>bud_res\<close>: as \<open>ext_res\<close>, and a changed success leaves the same item budget.
\<close>

definition ext :: "bytes \<Rightarrow> parser \<Rightarrow> parser" where
  "ext t s = s\<lparr>input := input s @ t\<rparr>"

lemma ext_simps [simp]:
  "pos (ext t s) = pos s"
  "items_left (ext t s) = items_left s"
  "input (ext t s) = input s @ t"
  by (simp_all add: ext_def)

lemma ext_update [simp]:
  "ext t (s\<lparr>pos := n\<rparr>) = (ext t s)\<lparr>pos := n\<rparr>"
  "ext t (s\<lparr>items_left := n\<rparr>) = (ext t s)\<lparr>items_left := n\<rparr>"
  by (simp_all add: ext_def)

lemma in_bounds_ext [simp]: "in_bounds s \<Longrightarrow> in_bounds (ext t s)"
  by (simp add: in_bounds_def)

lemma remaining_ext: "in_bounds s \<Longrightarrow> remaining (ext t s) = remaining s @ t"
  by (simp add: remaining_def in_bounds_def)

definition hard_res :: "parse_error + 'r \<Rightarrow> bool" where
  "hard_res r \<longleftrightarrow> (\<exists>e. r = Inl e \<and> hard e)"

definition firm_res :: "bytes \<Rightarrow> parse_error + 'a \<times> parser \<Rightarrow> parse_error + 'a \<times> parser \<Rightarrow> bool" where
  "firm_res t r r' \<longleftrightarrow>
     (hard_res r \<longrightarrow> hard_res r') \<and> (\<forall>x s'. r = Inr (x, s') \<longrightarrow> r' = Inr (x, ext t s'))"

definition ext_res :: "bytes \<Rightarrow> parse_error + 'a \<times> parser \<Rightarrow> parse_error + 'a \<times> parser \<Rightarrow> bool" where
  "ext_res t r r' \<longleftrightarrow>
     (hard_res r \<longrightarrow> hard_res r') \<and>
     (\<forall>x s'. r = Inr (x, s') \<longrightarrow> \<not> is_eof s' \<longrightarrow> r' = Inr (x, ext t s'))"

definition bud_res :: "bytes \<Rightarrow> parse_error + 'a \<times> parser \<Rightarrow> parse_error + 'a \<times> parser \<Rightarrow> bool" where
  "bud_res t r r' \<longleftrightarrow>
     ext_res t r r' \<and>
     (\<forall>x s'. r = Inr (x, s') \<longrightarrow>
        hard_res r' \<or> (\<exists>x' s''. r' = Inr (x', s'') \<and> items_left s'' = items_left s'))"

definition firm_at :: "bytes \<Rightarrow> 'a parse \<Rightarrow> parser \<Rightarrow> bool" where
  "firm_at t p s \<longleftrightarrow> firm_res t (p s) (p (ext t s))"

definition ext_at :: "bytes \<Rightarrow> 'a parse \<Rightarrow> parser \<Rightarrow> bool" where
  "ext_at t p s \<longleftrightarrow> ext_res t (p s) (p (ext t s))"

definition bud_at :: "bytes \<Rightarrow> 'a parse \<Rightarrow> parser \<Rightarrow> bool" where
  "bud_at t p s \<longleftrightarrow> bud_res t (p s) (p (ext t s))"

lemmas at_defs = firm_at_def ext_at_def bud_at_def

text \<open>At the end of the input a method is starved if it asks for more, soft if it does not reject.\<close>

abbreviation starved :: "parse_error + 'r \<Rightarrow> bool" where
  "starved r \<equiv> r = Inl Incomplete"

abbreviation soft :: "parse_error + 'r \<Rightarrow> bool" where
  "soft r \<equiv> \<not> hard_res r"

lemma hard_res_simps [simp]:
  "hard_res (Inl e) \<longleftrightarrow> e \<noteq> Incomplete" "\<not> hard_res (Inr r)"
  by (auto simp: hard_res_def hard_def)

lemma firm_imp_ext: "firm_res t r r' \<Longrightarrow> ext_res t r r'"
  by (auto simp: firm_res_def ext_res_def)

lemma firm_imp_bud: "firm_res t r r' \<Longrightarrow> bud_res t r r'"
  by (auto simp: firm_res_def ext_res_def bud_res_def)

lemma bud_imp_ext: "bud_res t r r' \<Longrightarrow> ext_res t r r'"
  by (simp add: bud_res_def)

lemma firm_at_imp_ext: "firm_at t p s \<Longrightarrow> ext_at t p s"
  and firm_at_imp_bud: "firm_at t p s \<Longrightarrow> bud_at t p s"
  and bud_at_imp_ext: "bud_at t p s \<Longrightarrow> ext_at t p s"
  by (simp_all add: at_defs firm_imp_ext firm_imp_bud bud_imp_ext)

lemma starved_firm: "starved r \<Longrightarrow> firm_res t r r'"
  by (simp add: firm_res_def)

lemma firm_res_Inr: "firm_res t (Inr (x, s')) r' \<longleftrightarrow> r' = Inr (x, ext t s')"
  by (auto simp: firm_res_def)

lemma ext_res_Inr: "ext_res t (Inr (x, s')) r' \<longleftrightarrow> (\<not> is_eof s' \<longrightarrow> r' = Inr (x, ext t s'))"
  by (auto simp: ext_res_def)

lemma res_Inl [simp]:
  "firm_res t (Inl e) r' \<longleftrightarrow> (e \<noteq> Incomplete \<longrightarrow> hard_res r')"
  "ext_res t (Inl e) r' \<longleftrightarrow> (e \<noteq> Incomplete \<longrightarrow> hard_res r')"
  "bud_res t (Inl e) r' \<longleftrightarrow> (e \<noteq> Incomplete \<longrightarrow> hard_res r')"
  by (auto simp: firm_res_def ext_res_def bud_res_def)

subsection \<open>Sequencing\<close>

lemma hard_andthen:
  "hard_res (p s) \<Longrightarrow> hard_res (andthen p q s)"
  by (auto simp: hard_res_def andthen_def)

lemma eof_adv: "is_eof s' \<Longrightarrow> adv_res s' (Inr (y, s'')) \<Longrightarrow> is_eof s''"
  by (auto simp: is_eof_def)

lemma firm_andthen:
  assumes p: "ext_at t p s"
    and q: "\<And>x s'. p s = Inr (x, s') \<Longrightarrow> firm_at t (q x) s'"
    and eof: "\<And>x s'. p s = Inr (x, s') \<Longrightarrow> is_eof s' \<Longrightarrow>
      p (ext t s) = Inr (x, ext t s') \<or> starved (q x s')"
  shows "firm_at t (andthen p q) s"
proof (cases "p s")
  case (Inl e)
  with p show ?thesis
    by (auto simp: at_defs andthen_def [of p q s] intro: hard_andthen)
next
  case (Inr r)
  then obtain x s' where r: "p s = Inr (x, s')" by (cases r) auto
  show ?thesis
  proof (cases "p (ext t s) = Inr (x, ext t s')")
    case True
    with r q [OF r] show ?thesis by (simp add: at_defs andthen_def)
  next
    case False
    with p r have "is_eof s'" by (auto simp: at_defs ext_res_Inr)
    with eof [OF r] False have "starved (q x s')" by blast
    with r show ?thesis by (simp add: at_defs andthen_def starved_firm)
  qed
qed

lemma ext_andthen:
  assumes p: "ext_at t p s"
    and q: "\<And>x s'. p s = Inr (x, s') \<Longrightarrow> ext_at t (q x) s'"
    and adv: "\<And>x s'. p s = Inr (x, s') \<Longrightarrow> adv_at (q x) s'"
    and eof: "\<And>x s'. p s = Inr (x, s') \<Longrightarrow> is_eof s' \<Longrightarrow>
      p (ext t s) = Inr (x, ext t s') \<or> soft (q x s') \<or> hard_res (andthen p q (ext t s))"
  shows "ext_at t (andthen p q) s"
proof (cases "p s")
  case (Inl e)
  with p show ?thesis
    by (auto simp: at_defs andthen_def [of p q s] intro: hard_andthen)
next
  case (Inr r)
  then obtain x s' where r: "p s = Inr (x, s')" by (cases r) auto
  show ?thesis
  proof (cases "p (ext t s) = Inr (x, ext t s')")
    case True
    with r q [OF r] show ?thesis by (simp add: at_defs andthen_def)
  next
    case False
    with p r have e: "is_eof s'" by (auto simp: at_defs ext_res_Inr)
    have "hard_res (q x s') \<longrightarrow> hard_res (andthen p q (ext t s))"
      using eof [OF r e] False by blast
    moreover have "is_eof s''" if "q x s' = Inr (y, s'')" for y s''
      using eof_adv [OF e] adv [OF r] that by metis
    ultimately show ?thesis
      using r by (auto simp: at_defs ext_res_def andthen_def [of p q s])
  qed
qed

lemma bud_andthen:
  assumes p: "firm_at t p s"
    and q: "\<And>x s'. p s = Inr (x, s') \<Longrightarrow> bud_at t (q x) s'"
  shows "bud_at t (andthen p q) s"
proof (cases "p s")
  case (Inl e)
  with p show ?thesis
    by (auto simp: at_defs andthen_def [of p q s] intro: hard_andthen)
next
  case (Inr r)
  then obtain x s' where r: "p s = Inr (x, s')" by (cases r) auto
  with p q [OF r] show ?thesis by (simp add: at_defs firm_res_Inr andthen_def)
qed

lemma bud_map: "bud_at t p s \<Longrightarrow> bud_at t (andthen p (\<lambda>x. ret (f x))) s"
  by (auto simp: at_defs bud_res_def ext_res_def andthen_def ret_def hard_res_def split: sum.splits)

lemma firm_ret: "firm_at t (ret x) s"
  and firm_fail: "firm_at t (fail e) s"
  and firm_push_item: "firm_at t (push_item xs x) s"
  and firm_skip: "firm_at t (skip n) s"
  by (auto simp: at_defs firm_res_def ret_def fail_def skip_def hard_res_def push_item_def
      split: option.splits)

text \<open>A loop is judged by its body.\<close>

lemma firm_unroll: "(\<And>s. p s = run s q) \<Longrightarrow> firm_at t q s \<Longrightarrow> firm_at t p s"
  and ext_unroll: "(\<And>s. p s = run s q) \<Longrightarrow> ext_at t q s \<Longrightarrow> ext_at t p s"
  by (simp_all add: at_defs run_def)

lemma firm_if:
  "(b \<Longrightarrow> firm_at t p s) \<Longrightarrow> (\<not> b \<Longrightarrow> firm_at t q s) \<Longrightarrow> firm_at t (if b then p else q) s"
  and ext_if:
  "(b \<Longrightarrow> ext_at t p s) \<Longrightarrow> (\<not> b \<Longrightarrow> ext_at t q s) \<Longrightarrow> ext_at t (if b then p else q) s"
  and bud_if:
  "(b \<Longrightarrow> bud_at t p s) \<Longrightarrow> (\<not> b \<Longrightarrow> bud_at t q s) \<Longrightarrow> bud_at t (if b then p else q) s"
  by auto

lemma firm_option:
  "(v = None \<Longrightarrow> firm_at t p s) \<Longrightarrow> (\<And>x. v = Some x \<Longrightarrow> firm_at t (q x) s) \<Longrightarrow>
   firm_at t (case v of None \<Rightarrow> p | Some x \<Rightarrow> q x) s"
  by (cases v) auto

lemma firmD: "firm_at t p s \<Longrightarrow> p s = Inr (x, s') \<Longrightarrow> p (ext t s) = Inr (x, ext t s')"
  by (simp add: firm_at_def firm_res_def)

text \<open>Two firm methods in a row are firm.\<close>

lemma firm_andthen_firm:
  assumes "firm_at t p s" and "\<And>x s'. p s = Inr (x, s') \<Longrightarrow> firm_at t (q x) s'"
  shows "firm_at t (andthen p q) s"
  using assms by (intro firm_andthen) (auto intro: firm_at_imp_ext dest: firmD)

text \<open>After a firm method nothing needs to be known about the rest but how it extends.\<close>

lemma ext_andthen_firm:
  assumes "firm_at t p s" and "\<And>x s'. p s = Inr (x, s') \<Longrightarrow> ext_at t (q x) s'"
    and "\<And>x s'. p s = Inr (x, s') \<Longrightarrow> adv_at (q x) s'"
  shows "ext_at t (andthen p q) s"
  using assms by (intro ext_andthen) (auto intro: firm_at_imp_ext dest: firmD)

text \<open>Reading the cursor: the cursor is the same, the input has grown.\<close>

lemma firm_here: "firm_at t (q s) s \<Longrightarrow> q (ext t s) = q s \<Longrightarrow> firm_at t (andthen here q) s"
  and ext_here: "ext_at t (q s) s \<Longrightarrow> q (ext t s) = q s \<Longrightarrow> ext_at t (andthen here q) s"
  by (simp_all add: at_defs andthen_def here_def)

lemma andthen_here [simp]: "andthen here q s = q s s"
  by (simp add: andthen_def here_def)


subsection \<open>Rules for methods that start inside the input\<close>

text \<open>The parser after a method that succeeded: the same input, the cursor further on.\<close>

definition reaches :: "parser \<Rightarrow> parser \<Rightarrow> bool" where
  "reaches s s' \<longleftrightarrow> input s' = input s \<and> pos s \<le> pos s' \<and> in_bounds s'"

lemma reachesD [dest]: "reaches s s' \<Longrightarrow> in_bounds s'"
  by (simp add: reaches_def)

lemma adv_reaches: "adv_res s r \<Longrightarrow> r = Inr (x, s') \<Longrightarrow> in_bounds s \<Longrightarrow> reaches s s'"
  by (auto simp: reaches_def)

lemma reaches_trans: "reaches s s' \<Longrightarrow> reaches s' s'' \<Longrightarrow> reaches s s''"
  by (auto simp: reaches_def)

text \<open>Induction on what is left of the input.\<close>

lemma cursor_induct [consumes 1, case_names step]:
  assumes "in_bounds s"
    and "\<And>s. in_bounds s \<Longrightarrow> (\<And>s'. reaches s s' \<Longrightarrow> pos s < pos s' \<Longrightarrow> P s') \<Longrightarrow> P s"
  shows "P s"
  using assms(1)
proof (induction "length (input s) - pos s" arbitrary: s rule: less_induct)
  case less
  show ?case
  proof (rule assms(2) [OF less.prems])
    fix s' assume "reaches s s'" "pos s < pos s'"
    then have "in_bounds s'" "length (input s') - pos s' < length (input s) - pos s"
      unfolding reaches_def in_bounds_def by auto
    then show "P s'" by (intro less.hyps)
  qed
qed

lemma firm_seq:
  assumes "in_bounds s" and "adv_at p s" and "firm_at t p s"
    and "\<And>x s'. p s = Inr (x, s') \<Longrightarrow> reaches s s' \<Longrightarrow> firm_at t (q x) s'"
  shows "firm_at t (andthen p q) s"
  using assms by (intro firm_andthen_firm) (auto simp: reaches_def)

lemma firm_seq_ext:
  assumes "in_bounds s" and "adv_at p s" and "ext_at t p s"
    and "\<And>x s'. p s = Inr (x, s') \<Longrightarrow> reaches s s' \<Longrightarrow> firm_at t (q x) s'"
    and "\<And>x s'. p s = Inr (x, s') \<Longrightarrow> is_eof s' \<Longrightarrow> starved (q x s')"
  shows "firm_at t (andthen p q) s"
  using assms by (intro firm_andthen) (auto simp: reaches_def)

lemma ext_seq:
  assumes "in_bounds s" and "adv_at p s" and "ext_at t p s"
    and "\<And>x s'. p s = Inr (x, s') \<Longrightarrow> reaches s s' \<Longrightarrow> ext_at t (q x) s'"
    and "\<And>x s'. p s = Inr (x, s') \<Longrightarrow> adv_at (q x) s'"
    and "\<And>x s'. p s = Inr (x, s') \<Longrightarrow> is_eof s' \<Longrightarrow> soft (q x s')"
  shows "ext_at t (andthen p q) s"
  using assms by (intro ext_andthen) (auto simp: reaches_def)

lemma ext_seq_firm:
  assumes "in_bounds s" and "adv_at p s" and "firm_at t p s"
    and "\<And>x s'. p s = Inr (x, s') \<Longrightarrow> reaches s s' \<Longrightarrow> ext_at t (q x) s'"
    and "\<And>x s'. p s = Inr (x, s') \<Longrightarrow> adv_at (q x) s'"
  shows "ext_at t (andthen p q) s"
  using assms by (intro ext_andthen_firm) (auto simp: reaches_def)

lemma bud_seq:
  assumes "in_bounds s" and "adv_at p s" and "firm_at t p s"
    and "\<And>x s'. p s = Inr (x, s') \<Longrightarrow> reaches s s' \<Longrightarrow> bud_at t (q x) s'"
  shows "bud_at t (andthen p q) s"
  using assms by (intro bud_andthen) (auto simp: reaches_def)

lemmas [ext_rules] =
  firm_ret firm_fail firm_push_item firm_skip firm_if firm_option

lemma ext_ret: "ext_at t (ret x) s"
  and ext_fail: "ext_at t (fail e) s"
  by (rule firm_at_imp_ext, rule firm_ret, rule firm_at_imp_ext, rule firm_fail)

lemma is_eof_ext [simp]: "\<not> is_eof s \<Longrightarrow> \<not> is_eof (ext t s)"
  by (simp add: is_eof_def)

lemma starved_andthen: "starved (p s) \<Longrightarrow> starved (andthen p q s)"
  by (simp add: andthen_def)

text \<open>The item pushed after a value that more input may change: the budget decides alone.\<close>

lemma firm_bud_push:
  assumes b: "in_bounds s" "adv_at p s" "bud_at t p s"
    and q: "\<And>ys s'. reaches s s' \<Longrightarrow> firm_at t (q ys) s'"
    and eof: "\<And>ys s'. is_eof s' \<Longrightarrow> starved (q ys s')"
  shows "firm_at t (andthen p (\<lambda>x. andthen (push_item xs x) q)) s"
proof (cases "p s")
  case (Inl e)
  with b show ?thesis by (auto simp: at_defs andthen_def [of p _ s] intro: hard_andthen)
next
  case (Inr r)
  then obtain x s' where r: "p s = Inr (x, s')" by (cases r) auto
  let ?k = "\<lambda>x. andthen (push_item xs x) q"
  have push: "firm_at t (?k x) s'"
    using b r adv_reaches [OF b(2) r b(1)]
    by (intro firm_andthen_firm firm_push_item q) (auto simp: reaches_def in_bounds_def)
  show ?thesis
  proof (cases "is_eof s'")
    case False
    with b r have "p (ext t s) = Inr (x, ext t s')" by (auto simp: at_defs bud_res_def ext_res_Inr)
    with push r show ?thesis by (simp add: at_defs andthen_def [of p])
  next
    case True
    show ?thesis
    proof (cases "items_left s' = 0")
      case True
      have "hard_res (p (ext t s)) \<or> (\<exists>x' s''. p (ext t s) = Inr (x', s'') \<and> items_left s'' = 0)"
        using b(3) r True by (auto simp: at_defs bud_res_def)
      then have "hard_res (andthen p ?k (ext t s))"
        by (auto simp: andthen_def push_item_def hard_res_def hard_def usize_checked_sub_def)
      with r True show ?thesis
        by (simp add: at_defs andthen_def push_item_def usize_checked_sub_def)
    next
      case False
      then have "starved (?k x s')"
        using eof [of "s'\<lparr>items_left := items_left s' - 1\<rparr>"] \<open>is_eof s'\<close>
        by (simp add: andthen_def push_item_def usize_checked_sub_def is_eof_def)
      with r show ?thesis by (simp add: at_defs andthen_def [of p] starved_firm)
    qed
  qed
qed

subsection \<open>Single bytes\<close>

lemma eof_peek [simp]: "is_eof s \<Longrightarrow> starved (peek s)"
  by (simp add: is_eof_def)

lemma eof_peek_andthen [simp]: "is_eof s \<Longrightarrow> andthen peek q s = Inl Incomplete"
  by (simp add: andthen_def)

lemma firm_peek [ext_rules]: "firm_at t peek s"
  by (auto simp: at_defs peek_def firm_res_def nth_append)

lemma firm_peek_seq:
  assumes "pos s < length (input s) \<Longrightarrow> firm_at t (q (input s ! pos s)) s"
  shows "firm_at t (andthen peek q) s"
  using assms by (auto simp: at_defs andthen_def peek_def nth_append)

lemma eof_consume_byte [simp]: "is_eof s \<Longrightarrow> starved (consume_byte b s)"
  by (simp add: consume_byte_def)

lemma eof_consume_sp [simp]: "is_eof s \<Longrightarrow> starved (consume_sp s)"
  by (simp add: consume_sp_def)

lemma eof_consume_crlf [simp]: "is_eof s \<Longrightarrow> starved (consume_crlf s)"
  by (simp add: consume_crlf_def)

lemma firm_consume_byte [ext_rules]: "firm_at t (consume_byte b) s"
  unfolding consume_byte_def
  by (rule firm_peek_seq) (auto intro!: firm_skip firm_here firm_fail)

lemma firm_consume_sp [ext_rules]: "firm_at t consume_sp s"
  unfolding consume_sp_def by (rule firm_consume_byte)

lemma firm_consume_crlf [ext_rules]: "firm_at t consume_crlf s"
  unfolding consume_crlf_def
  by (rule firm_peek_seq)
    (auto simp: at_defs peek_at_def nth_append usize_checked_add_def firm_res_Inr skip_def fail_def)

lemma ext_try_consume_byte: "ext_at t (try_consume_byte b) s"
  by (auto simp: at_defs ext_res_def try_consume_byte_def peek_def nth_append is_eof_def)

lemma try_consume_byte_eof [simp]: "is_eof s \<Longrightarrow> try_consume_byte b s = Inr (False, s)"
  by (simp add: try_consume_byte_def)

lemma try_consume_byte_TrueD:
  "try_consume_byte b s = Inr (True, s') \<Longrightarrow> try_consume_byte b (ext t s) = Inr (True, ext t s')"
  by (auto simp: try_consume_byte_def peek_def nth_append split: if_splits)

lemma try_consume_byte_cases:
  assumes "try_consume_byte b s = Inr (x, s')"
  shows "try_consume_byte b (ext t s) = Inr (x, ext t s') \<or> x = False \<and> s' = s"
proof (cases x)
  case True
  with assms show ?thesis by (simp add: try_consume_byte_TrueD)
next
  case False
  with assms show ?thesis by (auto simp: try_consume_byte_def peek_def split: if_splits)
qed

text \<open>An optional byte: only its absence at the end of the input is undecided.\<close>

lemma firm_try_seq:
  assumes b: "in_bounds s"
    and q: "\<And>x s'. try_consume_byte b s = Inr (x, s') \<Longrightarrow> in_bounds s' \<Longrightarrow> firm_at t (q x) s'"
    and eof: "is_eof s \<Longrightarrow> starved (q False s)"
  shows "firm_at t (andthen (try_consume_byte b) q) s"
proof (rule firm_andthen [OF ext_try_consume_byte])
  fix x s' assume r: "try_consume_byte b s = Inr (x, s')"
  then show "firm_at t (q x) s'"
    using b adv_resD [OF adv_try_consume_byte r] by (intro q) auto
  assume e: "is_eof s'"
  show "try_consume_byte b (ext t s) = Inr (x, ext t s') \<or> starved (q x s')"
    using r e eof try_consume_byte_cases [OF r, of t] by (cases x) auto
qed

lemma ext_try_seq:
  assumes b: "in_bounds s"
    and q: "\<And>x s'. try_consume_byte b s = Inr (x, s') \<Longrightarrow> in_bounds s' \<Longrightarrow> ext_at t (q x) s'"
    and adv: "\<And>x s'. try_consume_byte b s = Inr (x, s') \<Longrightarrow> adv_at (q x) s'"
    and eof: "is_eof s \<Longrightarrow> soft (q False s)"
  shows "ext_at t (andthen (try_consume_byte b) q) s"
proof (rule ext_andthen [OF ext_try_consume_byte _ adv])
  fix x s' assume r: "try_consume_byte b s = Inr (x, s')"
  then show "ext_at t (q x) s'"
    using b adv_resD [OF adv_try_consume_byte r] by (intro q) auto
  assume e: "is_eof s'"
  show "try_consume_byte b (ext t s) = Inr (x, ext t s') \<or> soft (q x s')
      \<or> hard_res (andthen (try_consume_byte b) q (ext t s))"
    using r e eof try_consume_byte_cases [OF r, of t] by (cases x) auto
qed

subsection \<open>Scans and tokens\<close>

lemma ext_scan_while: "in_bounds s \<Longrightarrow> ext_at t (scan_while keep) s"
proof -
  assume b: "in_bounds s"
  have "takeWhile keep (remaining s @ t) = takeWhile keep (remaining s)"
    if "pos s + length (takeWhile keep (remaining s)) < length (input s)"
  proof -
    from that b have "length (takeWhile keep (remaining s)) < length (remaining s)"
      by (simp add: remaining_def in_bounds_def)
    then have "\<exists>x\<in>set (remaining s). \<not> keep x"
      by (metis less_irrefl takeWhile_eq_all_conv)
    then show ?thesis by (auto simp: takeWhile_append1)
  qed
  with b show ?thesis
    by (auto simp: at_defs scan_while_eq ext_res_Inr is_eof_def remaining_ext)
qed

lemma ext_scan_in_line: "ext_at t (scan_in_line stop msg) s"
proof (induction stop msg s rule: scan_in_line.induct)
  case (1 stop msg s)
  let ?c = "input s ! pos s"
  have IH: "ext_at t (scan_in_line stop msg) (s\<lparr>pos := pos s + 1\<rparr>)"
    if "pos s < length (input s)" "\<not> stop ?c" "\<not> (?c = CR \<or> ?c = LF)"
    using that by (intro 1 [of "(?c, s)"]) simp_all
  show ?case
  proof (cases "pos s < length (input s)")
    case True
    then show ?thesis
      using IH unfolding at_defs
      by (subst scan_in_line_cases, subst (2) scan_in_line_cases)
        (auto simp: nth_append ext_res_Inr simp del: One_nat_def)
  next
    case False
    then show ?thesis
      unfolding at_defs by (subst scan_in_line_cases) (simp add: ext_res_Inr is_eof_def)
  qed
qed

lemma eof_scan_while [simp]: "is_eof s \<Longrightarrow> scan_while keep s = Inr ((), s)"
  by (simp add: scan_while_eq remaining_def is_eof_def)

lemma eof_scan_in_line [simp]: "is_eof s \<Longrightarrow> scan_in_line stop msg s = Inr ((), s)"
  by (subst scan_in_line_cases) (simp add: is_eof_def)

lemma firm_utf8_str [ext_rules]: "firm_at t (utf8_str bs) s"
  by (simp add: utf8_str_def firm_ret firm_fail)


lemma slice_ext [simp]: "in_bounds s \<Longrightarrow> slice i (pos s) (input s @ t) = slice i (pos s) (input s)"
  by (simp add: in_bounds_def)

lemma slice_not_eof [simp]:
  "\<not> is_eof s \<Longrightarrow> input s = xs \<Longrightarrow> slice i (pos s) (xs @ t) = slice i (pos s) xs"
  by (auto simp: is_eof_def)

lemma eof_scanned_text [simp]: "is_eof s \<Longrightarrow> starved (scanned_text start s)"
  by (simp add: scanned_text_def fail_def)

lemma firm_scanned_text [ext_rules]: "firm_at t (scanned_text start) s"
  unfolding scanned_text_def
proof (cases "is_eof s")
  case True
  then show "firm_at t (andthen here (\<lambda>s. if is_eof s then fail Incomplete
      else utf8_str (slice start (pos s) (input s)))) s"
    by (simp add: firm_at_def starved_firm fail_def)
next
  case False
  then show "firm_at t (andthen here (\<lambda>s. if is_eof s then fail Incomplete
      else utf8_str (slice start (pos s) (input s)))) s"
    by (intro firm_here) (auto intro: ext_rules)
qed

text \<open>
  A token read up to a byte that ends it.  The continuation after the scan may look at the
  cursor only through what it says of the bytes scanned.
\<close>

lemma firm_scan_seq:
  assumes b: "in_bounds s"
    and scan: "adv_at scan s" "ext_at t scan s"
    and same: "\<And>s1. reaches s s1 \<Longrightarrow> \<not> is_eof s1 \<Longrightarrow> k (ext t s1) = k s1"
    and firm: "\<And>s1. reaches s s1 \<Longrightarrow> \<not> is_eof s1 \<Longrightarrow> firm_at t (k s1) s1"
    and eof: "\<And>s1. is_eof s1 \<Longrightarrow> starved (k s1 s1)"
  shows "firm_at t (andthen scan (\<lambda>_. andthen here k)) s"
proof (rule firm_andthen [where q = "\<lambda>_. andthen here k"])
  show "ext_at t scan s" by (rule scan)
  fix x s1 assume r: "scan s = Inr (x, s1)"
  have reach: "reaches s s1" by (rule adv_reaches [OF scan(1) r b])
  show "firm_at t (andthen here k) s1"
  proof (cases "is_eof s1")
    case True
    then show ?thesis by (simp add: firm_at_def starved_firm eof)
  next
    case False
    with reach same firm show ?thesis by (intro firm_here)
  qed
  show "is_eof s1 \<Longrightarrow> scan (ext t s) = Inr (x, ext t s1) \<or> starved (andthen here k s1)"
    by (simp add: eof)
qed

lemma firm_parse_atom [ext_rules]: "in_bounds s \<Longrightarrow> firm_at t parse_atom s"
  unfolding parse_atom_def
  by (intro firm_here firm_scan_seq) (auto intro: ext_rules adv_rules ext_scan_while simp: fail_def reaches_def cong: if_cong)

lemma firm_parse_tag [ext_rules]: "in_bounds s \<Longrightarrow> firm_at t parse_tag s"
  unfolding parse_tag_def
  by (intro firm_here firm_scan_seq) (auto intro: ext_rules adv_rules ext_scan_while simp: fail_def reaches_def cong: if_cong)

lemma firm_parse_fetch_att_name [ext_rules]: "in_bounds s \<Longrightarrow> firm_at t parse_fetch_att_name s"
  unfolding parse_fetch_att_name_def
  by (intro firm_here firm_scan_seq) (auto intro: ext_rules adv_rules ext_scan_while simp: fail_def reaches_def cong: if_cong)

lemma firm_parse_text [ext_rules]: "in_bounds s \<Longrightarrow> firm_at t parse_text s"
  unfolding parse_text_def
  by (intro firm_here firm_seq_ext) (auto intro: ext_rules adv_rules ext_scan_while)

lemma firm_read_until_byte [ext_rules]: "in_bounds s \<Longrightarrow> firm_at t (read_until_byte b) s"
  unfolding read_until_byte_def
  by (intro firm_here firm_seq_ext) (auto intro: ext_rules adv_rules ext_scan_in_line)

lemma eof_tokens [simp]:
  assumes "is_eof s"
  shows "starved (parse_atom s)" and "starved (parse_tag s)"
    and "starved (parse_fetch_att_name s)" and "starved (parse_text s)"
    and "starved (read_until_byte b s)" and "starved (parse_number s)"
    and "starved (parse_flag_or_atom s)" 
  using assms
  by (simp_all add: parse_atom_def parse_tag_def parse_fetch_att_name_def parse_text_def
      read_until_byte_def parse_number_def parse_flag_or_atom_def scanned_text_def monad_defs)


subsection \<open>Numbers\<close>

lemma parse_number_eq:
  "parse_number s =
     (let ds = takeWhile is_ascii_digit (remaining s); s1 = s\<lparr>pos := pos s + length ds\<rparr> in
      if ds = [] then (if is_eof s then Inl Incomplete else Inl InvalidNumber)
      else case parse_u32 ds of None \<Rightarrow> Inl InvalidNumber | Some n \<Rightarrow> Inr (n, s1))"
proof -
  let ?ds = "takeWhile is_ascii_digit (remaining s)"
  have sl: "slice (pos s) (pos s + length ?ds) (input s) = ?ds"
    by (simp add: slice_def remaining_def takeWhile_eq_take [symmetric])
  have u: "utf8_valid ?ds"
    by (intro utf8_valid_ascii)
      (auto simp: is_ascii_def list_all_iff is_ascii_digit_def dest!: set_takeWhileD)
  show ?thesis
    by (simp add: parse_number_def monad_defs scan_while_eq sl u Let_def is_eof_def split: option.split)
qed


lemma parse_u32_overflow_persists:
  assumes "list_all is_ascii_digit (ds @ es)" and "ds \<noteq> []" and "parse_u32 ds = None"
  shows "parse_u32 (ds @ es) = None"
proof -
  have "dec_value ds \<le> dec_value (ds @ es)"
    unfolding dec_value_def foldl_append by (rule foldl_dec_mono)
  with assms show ?thesis
    by (auto simp: parse_u32_digits split: if_splits)
qed

lemma takeWhile_ext:
  "takeWhile P (xs @ ys) = takeWhile P xs \<or> takeWhile P xs = xs \<and> takeWhile P (xs @ ys) = xs @ takeWhile P ys"
  by (cases "\<forall>x\<in>set xs. P x") (auto simp: takeWhile_append)

text \<open>The outcome of a number, given the digits scanned.\<close>

definition number_of :: "parser \<Rightarrow> bytes \<Rightarrow> parse_error + u32 \<times> parser" where
  "number_of s ds =
     (if ds = [] then (if is_eof s then Inl Incomplete else Inl InvalidNumber)
      else case parse_u32 ds of None \<Rightarrow> Inl InvalidNumber
           | Some n \<Rightarrow> Inr (n, s\<lparr>pos := pos s + length ds\<rparr>))"

lemma bud_number_same: "bud_res t (number_of s ds) (number_of (ext t s) ds)"
  by (auto simp: number_of_def bud_res_def ext_res_Inr split: option.split)

lemma bud_number_more:
  assumes "list_all is_ascii_digit (ds @ es)" and "is_eof (s\<lparr>pos := pos s + length ds\<rparr>)"
  shows "bud_res t (number_of s ds) (number_of (ext t s) (ds @ es))"
proof (cases "ds = []")
  case True
  with assms(2) have "is_eof s" by (simp add: is_eof_def)
  with True show ?thesis by (simp add: number_of_def)
next
  case False
  show ?thesis
  proof (cases "parse_u32 ds")
    case None
    from parse_u32_overflow_persists [OF assms(1) False None] None False
    show ?thesis by (simp add: number_of_def)
  next
    case (Some n)
    with False assms(2) show ?thesis
      by (auto simp: number_of_def bud_res_def ext_res_Inr split: option.split)
  qed
qed

lemma bud_parse_number: "in_bounds s \<Longrightarrow> bud_at t parse_number s"
proof -
  assume b: "in_bounds s"
  let ?tw = "takeWhile is_ascii_digit"
  have eq: "parse_number s = number_of s (?tw (remaining s))" for s
    by (simp add: parse_number_eq number_of_def Let_def)
  have digits: "list_all is_ascii_digit (?tw xs)" for xs
    by (auto simp: list_all_iff dest: set_takeWhileD)
  consider (same) "?tw (remaining s @ t) = ?tw (remaining s)"
    | (more) es where "?tw (remaining s) = remaining s" "?tw (remaining s @ t) = remaining s @ es"
    using takeWhile_ext [of is_ascii_digit "remaining s" t] by metis
  then show ?thesis
  proof cases
    case same
    then show ?thesis
      using b by (simp add: bud_at_def eq remaining_ext bud_number_same)
  next
    case more
    have "list_all is_ascii_digit (remaining s @ es)"
      using digits [of "remaining s @ t"] by (simp only: more(2))
    moreover have "is_eof (s\<lparr>pos := pos s + length (remaining s)\<rparr>)"
      by (simp add: is_eof_def remaining_def)
    ultimately show ?thesis
      unfolding bud_at_def eq remaining_ext [OF b] more by (rule bud_number_more)
  qed
qed

lemma ext_parse_number: "in_bounds s \<Longrightarrow> ext_at t parse_number s"
  by (rule bud_at_imp_ext) (rule bud_parse_number)

subsection \<open>Strings\<close>

lemma reaches_step: "pos s < length (input s) \<Longrightarrow> reaches s (s\<lparr>pos := pos s + 1\<rparr>)"
  by (simp add: reaches_def in_bounds_def)

text \<open>Reading one byte that is there.\<close>

lemma firm_skip_seq:
  assumes "pos s < length (input s)"
    and "reaches s (s\<lparr>pos := pos s + 1\<rparr>) \<Longrightarrow> firm_at t (q ()) (s\<lparr>pos := pos s + 1\<rparr>)"
  shows "firm_at t (andthen (skip 1) q) s"
  using assms reaches_step [OF assms(1)] by (intro firm_andthen_firm firm_skip) auto

lemma firm_quoted_loop [ext_rules]: "in_bounds s \<Longrightarrow> firm_at t (quoted_loop start) s"
proof (induction s rule: cursor_induct)
  case (step s)
  have IH: "firm_at t (quoted_loop start) s'" if "reaches s s'" "pos s < pos s'" for s'
    using step.IH [OF that] .
  show ?case
    apply (rule firm_unroll)
     apply (rule quoted_loop.simps)
    apply (rule firm_peek_seq)
    apply (intro firm_if)
        apply (auto intro!: firm_skip_seq firm_here ext_rules firm_peek_seq firm_seq adv_rules IH step.hyps simp: reaches_def)
    done
qed

lemma eof_strings [simp]:
  assumes "is_eof s"
  shows "starved (parse_quoted s)" and "starved (parse_literal s)" and "starved (parse_astring s)"
    and "starved (parse_nstring s)" and "starved (parse_nstring_bytes s)"
    and "starved (parse_nstring_bytes_optional s)" and "starved (parse_paren_atom_list s)"
    and "starved (parse_balanced_parens s)"
  using assms
  by (simp_all add: parse_quoted_def parse_literal_def parse_astring_def parse_nstring_def
      parse_nstring_bytes_def parse_nstring_bytes_optional_def parse_paren_atom_list_def
      parse_balanced_parens_def starved_andthen)

lemma firm_parse_quoted [ext_rules]: "in_bounds s \<Longrightarrow> firm_at t parse_quoted s"
  unfolding parse_quoted_def
  by (rule firm_seq) (auto intro!: ext_rules adv_rules firm_here)

text \<open>A number in front of a delimiter: at the end of the input the delimiter is awaited.\<close>

lemma firm_number_seq:
  assumes "in_bounds s" and "\<And>n s'. reaches s s' \<Longrightarrow> firm_at t (q n) s'"
    and "\<And>n s'. is_eof s' \<Longrightarrow> starved (q n s')"
  shows "firm_at t (andthen parse_number q) s"
  using assms by (intro firm_seq_ext) (auto intro: adv_rules ext_parse_number)

lemma firm_literal_body:
  assumes "in_bounds s"
  shows "firm_at t (andthen here (\<lambda>s. case usize_checked_add (pos s) n of
         None \<Rightarrow> fail Incomplete
       | Some e \<Rightarrow> if e > length (input s) then fail Incomplete
           else andthen (skip n) (\<lambda>_. ret (slice (pos s) e (input s))))) s"
  using assms
  by (auto simp: firm_at_def firm_res_def monad_defs usize_checked_add_def split: option.splits)

lemma firm_parse_literal [ext_rules]: "in_bounds s \<Longrightarrow> firm_at t parse_literal s"
  unfolding parse_literal_def Let_def
  apply (rule firm_seq, assumption, rule adv_rules, rule ext_rules)
  apply (rule firm_number_seq, erule reachesD)
   prefer 2
   apply (simp add: starved_andthen)
  apply (rule firm_seq, erule reachesD, rule adv_rules, rule ext_rules)
  apply (rule firm_seq, erule reachesD, rule adv_rules, rule ext_rules)
  apply (rule firm_if, rule firm_fail)
  apply (rule firm_literal_body, erule reachesD)
  done

lemma firm_parse_astring [ext_rules]: "in_bounds s \<Longrightarrow> firm_at t parse_astring s"
  unfolding parse_astring_def
  by (rule firm_peek_seq) (auto intro!: ext_rules adv_rules firm_seq)

text \<open>\<open>NIL\<close>, or the beginning of it.\<close>

definition kw_hit :: "bytes \<Rightarrow> bytes \<Rightarrow> bool" where
  "kw_hit kw rem \<longleftrightarrow> length kw \<le> length rem \<and> zip_all_ci rem kw \<and>
     (length kw < length rem \<longrightarrow> is_keyword_boundary (rem ! length kw))"

definition kw_pending :: "bytes \<Rightarrow> bytes \<Rightarrow> bool" where
  "kw_pending kw rem \<longleftrightarrow> length rem \<le> length kw \<and> zip_all_ci rem kw"

lemma zip_all_ci_iff:
  "zip_all_ci xs ys \<longleftrightarrow> (\<forall>i < min (length xs) (length ys). byte_eq_ci (xs ! i) (ys ! i))"
  by (auto simp: zip_all_ci_def list_all_length)

lemma zip_all_ci_append:
  "length kw \<le> length xs \<Longrightarrow> zip_all_ci (xs @ ys) kw = zip_all_ci xs kw"
  by (auto simp: zip_all_ci_iff nth_append)

lemma zip_all_ci_append_short:
  "length xs \<le> length kw \<Longrightarrow> zip_all_ci (xs @ ys) kw \<Longrightarrow> zip_all_ci xs kw"
  unfolding zip_all_ci_iff
  by (intro allI impI, drule_tac x = i in spec) (auto simp: nth_append)

lemma kw_hit_append: "\<not> kw_pending kw rem \<Longrightarrow> kw_hit kw (rem @ t) = kw_hit kw rem"
  by (cases "length rem \<le> length kw")
    (auto simp: kw_hit_def kw_pending_def zip_all_ci_append nth_append
      dest: zip_all_ci_append_short)

lemma zip_all_ci_take: "zip_all_ci (take (length kw) xs) kw = zip_all_ci xs kw"
  by (auto simp: zip_all_ci_iff)

lemma try_consume_keyword_ci_eq:
  assumes "in_bounds s"
  shows "try_consume_keyword_ci kw s =
    (if pos s + length kw < 2 ^ 64 \<and> kw_hit kw (remaining s)
     then Inr (True, s\<lparr>pos := pos s + length kw\<rparr>) else Inr (False, s))"
  using assms
  by (auto simp: try_consume_keyword_ci_def matches_ci_def kw_hit_def Let_def remaining_def
      in_bounds_def slice_def zip_all_ci_take usize_checked_add_def)


lemma expect_nil_eq:
  assumes "in_bounds s"
  shows "expect_nil s =
    (if pos s + 3 < 2 ^ 64 \<and> kw_hit ''NIL'' (remaining s) then Inr ((), s\<lparr>pos := pos s + 3\<rparr>)
     else if length (remaining s) < 3 \<and> zip_all_ci (remaining s) ''NIL'' then Inl Incomplete
     else Inl (Malformed ''expected nstring''))"
  using assms by (simp add: expect_nil_def monad_defs try_consume_keyword_ci_eq Let_def)

lemma kw_hit_not_shorter: "kw_hit kw rem \<Longrightarrow> length kw \<le> length rem"
  by (simp add: kw_hit_def)

lemma kw_hit_exact: "kw_pending kw rem \<Longrightarrow> length rem = length kw \<Longrightarrow> kw_hit kw rem"
  by (simp add: kw_hit_def kw_pending_def)

lemma bud_expect_nil: "in_bounds s \<Longrightarrow> bud_at t expect_nil s"
proof -
  assume b: "in_bounds s"
  let ?r = "remaining s" and ?ok = "pos s + 3 < 2 ^ 64"
  show ?thesis
  proof (cases "kw_pending ''NIL'' ?r")
    case False
    then have "kw_hit ''NIL'' (?r @ t) = kw_hit ''NIL'' ?r" by (rule kw_hit_append)
    moreover have "zip_all_ci ?r ''NIL''" if "length (?r @ t) < 3" "zip_all_ci (?r @ t) ''NIL''"
      using that by (intro zip_all_ci_append_short [of ?r _ t]) auto
    ultimately show ?thesis
      using b by (auto simp: at_defs expect_nil_eq remaining_ext bud_res_def ext_res_Inr)
  next
    case True
    show ?thesis
    proof (cases "length ?r < 3")
      case True
      with \<open>kw_pending ''NIL'' ?r\<close> b have "expect_nil s = Inl Incomplete"
        by (auto simp: expect_nil_eq kw_pending_def dest: kw_hit_not_shorter)
      then show ?thesis by (simp add: bud_at_def)
    next
      case False
      with True have len: "length ?r = 3" and hit: "kw_hit ''NIL'' ?r"
        by (auto simp: kw_pending_def kw_hit_def)
      then have "is_eof (s\<lparr>pos := pos s + 3\<rparr>)" by (auto simp: is_eof_def remaining_def)
      with hit len b show ?thesis
        by (auto simp: at_defs expect_nil_eq remaining_ext bud_res_def ext_res_Inr)
    qed
  qed
qed

lemma bud_peek_seq:
  assumes "pos s < length (input s) \<Longrightarrow> bud_at t (q (input s ! pos s)) s"
  shows "bud_at t (andthen peek q) s"
  using assms by (auto simp: at_defs andthen_def peek_def nth_append)

text \<open>A value that is firm unless it is \<open>NIL\<close>.\<close>

lemma bud_nstring:
  assumes "in_bounds s" and "firm_at t p s" and "firm_at t q s"
  shows "bud_at t (andthen peek (\<lambda>c. if c = DQUOTE then p else if c = LBRACE then q
           else andthen expect_nil (\<lambda>_. ret r))) s"
  using assms by (intro bud_peek_seq bud_if bud_map bud_expect_nil firm_at_imp_bud)

lemma bud_parse_nstring: "in_bounds s \<Longrightarrow> bud_at t parse_nstring s"
  unfolding parse_nstring_def by (rule bud_nstring) (auto intro!: firm_seq ext_rules adv_rules)

lemma bud_parse_nstring_bytes: "in_bounds s \<Longrightarrow> bud_at t parse_nstring_bytes s"
  unfolding parse_nstring_bytes_def by (rule bud_nstring) (auto intro!: firm_seq ext_rules adv_rules)

lemma bud_parse_nstring_bytes_optional: "in_bounds s \<Longrightarrow> bud_at t parse_nstring_bytes_optional s"
  unfolding parse_nstring_bytes_optional_def
  by (rule bud_nstring) (auto intro!: firm_seq ext_rules adv_rules)

subsection \<open>Lists\<close>

lemma firm_flag_rest:
  assumes "in_bounds s"
  shows "firm_at t (andthen (scan_while is_atom_char) (\<lambda>_. andthen here (\<lambda>s1.
       if start = pos s1 then
         (if is_eof s1 then fail Incomplete else fail (Malformed ''expected flag/atom''))
       else scanned_text start))) s"
  using assms
  by (intro firm_scan_seq)
    (auto intro: ext_rules adv_rules ext_scan_while simp: fail_def)

lemma eof_flag_rest:
  assumes "is_eof s"
  shows "starved (andthen (scan_while is_atom_char) (\<lambda>_. andthen here (\<lambda>s1.
       if start = pos s1 then
         (if is_eof s1 then fail Incomplete else fail (Malformed ''expected flag/atom''))
       else scanned_text start)) s)"
  using assms by (simp add: andthen_def here_def fail_def)

lemma firm_parse_flag_or_atom [ext_rules]: "in_bounds s \<Longrightarrow> firm_at t parse_flag_or_atom s"
proof -
  assume b: "in_bounds s"
  let ?star = "\<lambda>c. if c = BACKSLASH then andthen (skip 1) (\<lambda>_. try_consume_byte CHR ''*'') else ret False"
  have ext_star: "ext_at t (?star c) s" for c
    by (intro ext_if ext_andthen_firm firm_skip ext_try_consume_byte adv_try_consume_byte ext_ret)
  have adv_star: "adv_at (?star c) s" if "pos s < length (input s)" for c
    using that by (intro adv_rules) simp
  have star_cases: "?star c (ext t s) = Inr (x, ext t s') \<or> x = False"
    if "?star c s = Inr (x, s')" for c x s'
    using that try_consume_byte_cases [of _ "s\<lparr>pos := Suc (pos s)\<rparr>" x s' t]
    by (auto simp: andthen_def skip_def ret_def split: if_splits)
  show ?thesis
    unfolding parse_flag_or_atom_def
    apply (rule firm_here [OF firm_peek_seq])
     apply (rule firm_andthen [OF ext_star])
    subgoal for x s'
      using adv_reaches [OF adv_star, of "input s ! pos s" x s'] b
      by (auto intro!: firm_here firm_flag_rest ext_rules)
    subgoal for x s'
      using star_cases [of "input s ! pos s" x s'] by (auto simp: eof_flag_rest)
    apply (simp cong: if_cong)
    done
qed

text \<open>The loop shared by the parenthesised lists.\<close>

lemma firm_list_loop:
  assumes unroll: "\<And>xs s. loop xs s = run s (andthen p (\<lambda>x. andthen (push_item xs x) (\<lambda>xs.
      andthen peek (\<lambda>c.
      if c = SP then andthen (skip 1) (\<lambda>_. loop xs)
      else if c = RPAREN then andthen (skip 1) (\<lambda>_. ret xs) else fail e))))"
    and p: "\<And>s. in_bounds s \<Longrightarrow> bud_at t p s" "\<And>s. adv_at p s"
    and "in_bounds s"
  shows "firm_at t (loop xs) s"
  using \<open>in_bounds s\<close>
proof (induction s arbitrary: xs rule: cursor_induct)
  case (step s)
  have body: "firm_at t (andthen peek (\<lambda>c. if c = SP then andthen (skip 1) (\<lambda>_. loop ys)
      else if c = RPAREN then andthen (skip 1) (\<lambda>_. ret ys) else fail e)) s'"
    if "reaches s s'" for ys s'
    using that
    by (intro firm_peek_seq firm_if firm_skip_seq firm_fail firm_ret step.IH)
      (auto simp: reaches_def)
  show ?case
    by (rule firm_unroll [OF unroll], rule firm_bud_push [OF step(1) p(2) p(1) [OF step(1)] body])
      simp_all
qed

lemma firm_paren_atom_loop [ext_rules]: "in_bounds s \<Longrightarrow> firm_at t (paren_atom_loop xs) s"
  by (rule firm_list_loop [where p = parse_flag_or_atom])
    (subst paren_atom_loop.simps, rule refl,
     auto intro: firm_at_imp_bud firm_parse_flag_or_atom adv_rules)

lemma eof_list_loop:
  "is_eof s \<Longrightarrow> starved (paren_atom_loop xs s)"
  by (subst paren_atom_loop.simps) (simp add: run_def starved_andthen)

lemma firm_parse_paren_atom_list [ext_rules]: "in_bounds s \<Longrightarrow> firm_at t parse_paren_atom_list s"
  unfolding parse_paren_atom_list_def
  apply (rule firm_seq, assumption, rule adv_rules, rule ext_rules)
  apply (rule firm_try_seq, erule reachesD)
   apply (auto intro: ext_rules simp: eof_list_loop)
  done

lemma firm_balanced_loop [ext_rules]: "in_bounds s \<Longrightarrow> firm_at t (balanced_loop d) s"
proof (induction s arbitrary: d rule: cursor_induct)
  case (step s)
  have quoted: "firm_at t (andthen parse_quoted (\<lambda>_. balanced_loop d)) s" for d
    using step.hyps
    by (intro firm_seq step.IH ext_rules adv_rules) (auto dest: parse_quoted_progress)
  have literal: "firm_at t (andthen parse_literal (\<lambda>_. balanced_loop d)) s" for d
    using step.hyps
    by (intro firm_seq step.IH ext_rules adv_rules) (auto dest: parse_literal_progress)
  show ?case
    apply (rule firm_unroll, rule balanced_loop.simps)
    apply (intro firm_if firm_peek_seq firm_skip_seq firm_option firm_ret firm_fail quoted literal step.IH)
    by auto
qed

lemma firm_parse_balanced_parens [ext_rules]: "in_bounds s \<Longrightarrow> firm_at t parse_balanced_parens s"
  unfolding parse_balanced_parens_def
  apply (rule firm_here)
  apply (rule firm_seq, assumption, rule adv_rules, rule ext_rules)
  apply (rule firm_seq, erule reachesD, rule adv_rules, rule ext_rules, erule reachesD)
  apply (rule firm_here, rule firm_ret)
   apply auto
  done

end
