(* ===== verification/Parser_Stable.thy ===== *)
theory Parser_Stable
  imports Parser_Ext
begin

text \<open>
  The answer of the parser to a longer buffer, continued: status keywords, response codes, data
  responses and whole responses.  The status keyword test is the delicate part: it looks past
  the end of the input (a keyword at the end of the buffer counts as found), so a keyword that
  was not found may be found after more bytes, and the other way round.  Both callers then ask
  for more input, which is what makes whole responses stable.
\<close>

subsection \<open>Status keywords\<close>

abbreviation status_keywords :: "bytes list" where
  "status_keywords \<equiv> [''OK'', ''NO'', ''BAD'', ''BYE'', ''PREAUTH'']"

definition status_keyword_at :: "parser \<Rightarrow> (status \<times> nat) option" where
  "status_keyword_at s =
     (let hit = (\<lambda>kw. pos s + length kw < 2 ^ 64 \<and> kw_hit kw (remaining s)) in
      if hit ''PREAUTH'' then Some (PreAuth, 7)
      else if hit ''OK'' then Some (Ok, 2)
      else if hit ''NO'' then Some (No, 2)
      else if hit ''BAD'' then Some (Bad, 3)
      else if hit ''BYE'' then Some (Bye, 3)
      else None)"

lemma try_parse_status_keyword_eq:
  "in_bounds s \<Longrightarrow> try_parse_status_keyword s =
     (case status_keyword_at s of None \<Rightarrow> Inr (None, s)
      | Some (st, n) \<Rightarrow> Inr (Some st, s\<lparr>pos := pos s + n\<rparr>))"
  by (simp add: try_parse_status_keyword_def status_keyword_at_def monad_defs
      try_consume_keyword_ci_eq Let_def)

lemma zip_all_ci_sym: "zip_all_ci xs ys = zip_all_ci ys xs"
  by (auto simp: zip_all_ci_iff byte_eq_ci_sym)

lemma could_be_prefix_iff:
  "could_be_status_keyword_prefix bs \<longleftrightarrow>
     (\<exists>kw \<in> set status_keywords. length bs < length kw \<and> kw_pending kw bs)"
proof -
  have "zip_all_ci (take (length bs) kw) bs = zip_all_ci bs kw" for kw
    by (auto simp: zip_all_ci_iff byte_eq_ci_sym)
  then show ?thesis
    unfolding could_be_status_keyword_prefix_def kw_pending_def list_ex_iff by (auto simp only: less_imp_le)
qed

lemma status_keyword_at_ext:
  assumes "in_bounds s" and "\<forall>kw \<in> set status_keywords. \<not> kw_pending kw (remaining s)"
  shows "status_keyword_at (ext t s) = status_keyword_at s"
  using assms by (simp add: status_keyword_at_def remaining_ext kw_hit_append)


text \<open>A byte that matches a letter of a keyword is a letter.\<close>

lemma to_ascii_lowercase_val:
  "byte_val (to_ascii_lowercase c) = (if is_ascii_uppercase c then byte_val c + 32 else byte_val c)"
  by (cases c) (auto simp: to_ascii_lowercase_def is_ascii_uppercase_def split: if_splits)

lemma ci_letter:
  assumes "byte_eq_ci c L" and "is_ascii_uppercase L"
  shows "\<not> is_keyword_boundary c" and "is_atom_char c" and "\<not> is_ascii_digit c"
proof -
  have "is_ascii_uppercase c \<or> is_ascii_lowercase c"
    using assms(2) arg_cong [OF assms(1) [unfolded byte_eq_ci_def], of byte_val]
    by (auto simp: to_ascii_lowercase_val is_ascii_uppercase_def
        is_ascii_lowercase_def simp del: byte_val_inject split: if_splits)
  then have "byte_val c \<in> {0x41..0x5A} \<union> {0x61..0x7A}"
    by (auto simp: is_ascii_uppercase_def is_ascii_lowercase_def)
  then show "\<not> is_keyword_boundary c" and "is_atom_char c" and "\<not> is_ascii_digit c"
    by (auto simp: is_keyword_boundary_def is_atom_char_def is_ascii_digit_def)
qed

lemma keyword_letters: "kw \<in> set status_keywords \<Longrightarrow> i < length kw \<Longrightarrow> is_ascii_uppercase (kw ! i)"
  by (auto simp: is_ascii_uppercase_def nth_Cons' less_Suc_eq)

lemma kw_pending_letter:
  "kw_pending kw rem \<Longrightarrow> kw \<in> set status_keywords \<Longrightarrow> i < length rem \<Longrightarrow>
   \<exists>L. byte_eq_ci (rem ! i) L \<and> is_ascii_uppercase L"
  by (intro exI [of _ "kw ! i"] conjI keyword_letters)
    (auto simp: kw_pending_def zip_all_ci_iff)

text \<open>Inside a run of letters only a keyword as long as the run is found.\<close>

lemma kw_hit_whole:
  assumes "kw_pending kw rem" "kw \<in> set status_keywords" and "kw_hit kw' (rem @ t)"
  shows "length rem \<le> length kw'"
proof (rule ccontr)
  assume "\<not> length rem \<le> length kw'"
  then have "length kw' < length rem" by simp
  with assms(3) have "is_keyword_boundary (rem ! length kw')"
    by (simp add: kw_hit_def nth_append)
  with kw_pending_letter [OF assms(1,2)] \<open>length kw' < length rem\<close> ci_letter(1)
  show False by blast
qed

lemma kw_hit_pending: "kw_hit kw (rem @ t) \<Longrightarrow> length rem \<le> length kw \<Longrightarrow> kw_pending kw rem"
  by (auto simp: kw_hit_def kw_pending_def dest: zip_all_ci_append_short)

lemma kw_pending_append: "kw_pending kw (rem @ t) \<Longrightarrow> kw_pending kw rem"
  unfolding kw_pending_def by (auto intro: zip_all_ci_append_short [of rem kw t])

lemma could_be_prefix_append:
  "could_be_status_keyword_prefix (rem @ t) \<Longrightarrow> could_be_status_keyword_prefix rem"
  unfolding could_be_prefix_iff by (auto dest: kw_pending_append)

lemma status_keyword_at_cases:
  "status_keyword_at s = Some (st, n) \<Longrightarrow>
     \<exists>kw \<in> set status_keywords. n = length kw \<and> kw_hit kw (remaining s)"
  "status_keyword_at s = None \<longleftrightarrow>
     (\<forall>kw \<in> set status_keywords. pos s + length kw < 2 ^ 64 \<longrightarrow> \<not> kw_hit kw (remaining s))"
  by (auto simp: status_keyword_at_def Let_def split: if_splits)

text \<open>
  The keyword test under more input: an answer given before the end of the input stands, and
  ``no keyword'' can only be taken back on the beginning of a keyword.
\<close>

lemma status_keyword_at_ext_cases:
  assumes b: "in_bounds s"
  shows "case status_keyword_at s of
      Some (st, n) \<Rightarrow> is_eof (s\<lparr>pos := pos s + n\<rparr>) \<or> status_keyword_at (ext t s) = Some (st, n)
    | None \<Rightarrow> could_be_status_keyword_prefix (remaining s) \<or> status_keyword_at (ext t s) = None"
proof (cases "\<exists>kw \<in> set status_keywords. kw_pending kw (remaining s)")
  case False
  then have "status_keyword_at (ext t s) = status_keyword_at s"
    using b by (intro status_keyword_at_ext) auto
  then show ?thesis by (cases "status_keyword_at s") auto
next
  case True
  then obtain kw where kw: "kw \<in> set status_keywords" "kw_pending kw (remaining s)" by blast
  have whole: "length (remaining s) \<le> length kw'" if "kw_hit kw' (remaining s @ t)" for kw' t
    using kw_hit_whole [OF kw(2,1) that] .
  have some: "is_eof (s\<lparr>pos := pos s + n\<rparr>)" if "status_keyword_at s = Some (st, n)" for st n
  proof -
    from status_keyword_at_cases(1) [OF that] obtain kw' where
      "n = length kw'" "kw_hit kw' (remaining s)" by blast
    with whole [of kw' "[]"] show ?thesis
      by (simp add: is_eof_def remaining_def)
  qed
  have none: "status_keyword_at (ext t s) = None"
    if "status_keyword_at s = None" "\<not> could_be_status_keyword_prefix (remaining s)"
    unfolding status_keyword_at_cases(2)
  proof (intro ballI impI notI)
    fix kw' assume kw': "kw' \<in> set status_keywords" "pos (ext t s) + length kw' < 2 ^ 64"
      and hit: "kw_hit kw' (remaining (ext t s))"
    from hit have hit': "kw_hit kw' (remaining s @ t)" by (simp only: remaining_ext [OF b])
    then have pend: "kw_pending kw' (remaining s)" by (rule kw_hit_pending) (rule whole [OF hit'])
    with that(2) kw'(1) have "\<not> length (remaining s) < length kw'"
      unfolding could_be_prefix_iff by blast
    with pend have "length (remaining s) = length kw'" by (simp add: kw_pending_def)
    with pend have "kw_hit kw' (remaining s)" by (rule kw_hit_exact)
    with that(1) kw' show False unfolding status_keyword_at_cases(2) ext_simps by blast
  qed
  show ?thesis
    by (cases "status_keyword_at s") (use some none in \<open>auto simp: disj_imp\<close>)
qed


subsection \<open>Response codes and texts\<close>

lemma soft_ret [simp]: "soft (ret x s)"
  by (simp add: ret_def)

lemma ext_capability_loop: "in_bounds s \<Longrightarrow> ext_at t (capability_loop xs) s"
proof (induction s arbitrary: xs rule: cursor_induct)
  case (step s)
  have atom: "ext_at t (andthen parse_atom (\<lambda>c. andthen (push_item xs c) capability_loop)) s'"
    if "reaches s s'" "pos s < pos s'" for s'
    apply (rule ext_seq_firm)
        apply (rule reachesD [OF that(1)])
       apply (rule adv_rules)
      apply (rule firm_parse_atom, rule reachesD [OF that(1)])
     apply (rule ext_seq_firm)
         apply (erule reachesD)
        apply (rule adv_rules)
       apply (rule firm_push_item)
      apply (rule step.IH)
    using that apply (auto simp: reaches_def) [2]
     apply (intro adv_rules)+
    done
  show ?case
    apply (rule ext_unroll, rule capability_loop.simps)
    apply (rule ext_try_seq [OF step.hyps])
    subgoal for x s'
      by (auto intro!: ext_ret atom simp: try_consume_byte_Inr reaches_def split: if_splits)
     apply (intro adv_rules)
    apply simp
    done
qed

lemma ext_search_loop: "in_bounds s \<Longrightarrow> ext_at t (search_loop xs) s"
proof (induction s arbitrary: xs rule: cursor_induct)
  case (step s)
  have eof: "soft (search_loop ys s')" if "is_eof s'" for ys s'
    using that by (subst search_loop.simps) (simp add: monad_defs)
  have num: "ext_at t (andthen parse_number (\<lambda>n. search_loop (xs @ [n]))) s'"
    if "reaches s s'" "pos s < pos s'" for s'
    apply (rule ext_seq)
        apply (rule reachesD [OF that(1)])
       apply (rule adv_rules)
      apply (rule ext_parse_number, rule reachesD [OF that(1)])
     apply (rule step.IH)
    using that apply (auto simp: reaches_def) [2]
     apply (intro adv_rules)
    apply (erule eof)
    done
  show ?case
    apply (rule ext_unroll, rule search_loop.simps)
    apply (rule ext_try_seq [OF step.hyps])
    subgoal for x s'
      by (auto intro!: ext_ret num simp: try_consume_byte_Inr reaches_def split: if_splits)
     apply (intro adv_rules)
    apply simp
    done
qed

text \<open>A value behind a space.\<close>

lemma ext_sp_seq:
  assumes "in_bounds s" and "\<And>s'. reaches s s' \<Longrightarrow> ext_at t q s'" and "\<And>s'. adv_at q s'"
  shows "ext_at t (andthen consume_sp (\<lambda>_. q)) s"
  using assms by (intro ext_seq_firm adv_rules ext_rules)

lemma ext_map: "ext_at t p s \<Longrightarrow> ext_at t (andthen p (\<lambda>x. ret (f x))) s"
  by (auto simp: at_defs ext_res_def andthen_def ret_def hard_res_def split: sum.splits)

lemma ext_resp_text_code_for: "in_bounds s \<Longrightarrow> ext_at t (resp_text_code_for atom) s"
  unfolding resp_text_code_for_def
  by (intro ext_if ext_ret ext_sp_seq ext_map ext_parse_number ext_capability_loop ext_try_seq
        adv_rules firm_at_imp_ext [OF firm_parse_paren_atom_list]
        firm_at_imp_ext [OF firm_read_until_byte])
    (auto simp: monad_defs dest: reachesD)


lemma ext_scan_seq:
  assumes b: "in_bounds s"
    and scan: "adv_at scan s" "ext_at t scan s"
    and same: "\<And>s1. reaches s s1 \<Longrightarrow> \<not> is_eof s1 \<Longrightarrow> k (ext t s1) = k s1"
    and ext: "\<And>s1. reaches s s1 \<Longrightarrow> \<not> is_eof s1 \<Longrightarrow> ext_at t (k s1) s1"
    and adv: "\<And>s1. adv_at (k s1) s1"
    and eof: "\<And>s1. is_eof s1 \<Longrightarrow> starved (k s1 s1)"
  shows "ext_at t (andthen scan (\<lambda>_. andthen here k)) s"
proof (rule ext_andthen [where q = "\<lambda>_. andthen here k"])
  show "ext_at t scan s" by (rule scan)
  fix x s1 assume r: "scan s = Inr (x, s1)"
  have reach: "reaches s s1" by (rule adv_reaches [OF scan(1) r b])
  show "ext_at t (andthen here k) s1"
  proof (cases "is_eof s1")
    case True
    then show ?thesis by (simp add: ext_at_def eof)
  next
    case False
    with reach same ext show ?thesis by (intro ext_here)
  qed
  show "adv_at (andthen here k) s1" using adv by simp
  show "is_eof s1 \<Longrightarrow> scan (ext t s) = Inr (x, ext t s1) \<or> soft (andthen here k s1)
      \<or> hard_res (andthen scan (\<lambda>_. andthen here k) (ext t s))"
    by (simp add: eof)
qed

lemma ext_parse_resp_text_code: "in_bounds s \<Longrightarrow> ext_at t parse_resp_text_code s"
  unfolding parse_resp_text_code_def
  apply (rule ext_here)
   apply (rule ext_scan_seq)
        apply assumption
       apply (rule adv_rules)
      apply (rule ext_scan_in_line)
     apply (simp add: reaches_def cong: if_cong)
    apply (auto intro!: ext_fail ext_seq_firm ext_rules adv_rules ext_resp_text_code_for
      simp: fail_def reaches_def cong: if_cong)
  done

lemma eof_resp_text [simp]:
  "is_eof s \<Longrightarrow> starved (parse_resp_text s)"
  by (simp add: parse_resp_text_def monad_defs)

lemma firm_parse_resp_text [ext_rules]: "in_bounds s \<Longrightarrow> firm_at t parse_resp_text s"
proof -
  assume b: "in_bounds s"
  let ?code = "andthen parse_resp_text_code (\<lambda>c. andthen (consume_byte RBRACK) (\<lambda>_.
    andthen (try_consume_byte SP) (\<lambda>_. ret (Some c))))"
  have code: "ext_at t ?code s'" if "in_bounds s'" for s'
    apply (rule ext_seq [OF that])
        apply (rule adv_rules)
       apply (rule ext_parse_resp_text_code [OF that])
      apply (rule ext_seq_firm)
          apply (erule reachesD)
         apply (intro adv_rules)
        apply (rule firm_consume_byte)
       apply (rule ext_map, rule ext_try_consume_byte)
      apply (intro adv_rules)
     apply (intro adv_rules)
    apply (simp add: starved_andthen)
    done
  show ?thesis
    unfolding parse_resp_text_def
    apply (rule firm_try_seq [OF b])
     apply (rule firm_seq_ext)
         apply assumption
        apply (intro adv_rules)
       apply (intro ext_if code ext_ret, assumption)
      apply (auto intro!: firm_seq ext_rules adv_rules simp: starved_andthen monad_defs dest: reachesD)
    done
qed

lemma firm_parse_continue_req [ext_rules]: "in_bounds s \<Longrightarrow> firm_at t parse_continue_req s"
  unfolding parse_continue_req_def
  apply (rule firm_seq, assumption, rule adv_rules, rule ext_rules)
  apply (rule firm_seq, erule reachesD, rule adv_rules, rule ext_rules)
  apply (rule firm_seq, erule reachesD, rule adv_rules, rule ext_rules, erule reachesD)
  apply (rule firm_seq, erule reachesD, rule adv_rules, rule ext_rules)
  apply (rule firm_ret)
  done

text \<open>What follows a status keyword, up to and with the line end.\<close>

lemma status_rest:
  defines "rest f \<equiv> andthen parse_resp_text_after_keyword (\<lambda>ct. andthen consume_crlf (\<lambda>_. ret (f ct)))"
  shows firm_status_rest: "in_bounds s \<Longrightarrow> firm_at t (rest f) s"
    and eof_status_rest: "is_eof s \<Longrightarrow> starved (rest f s)"
proof -
  show "starved (rest f s)" if "is_eof s"
    using that by (simp add: rest_def parse_resp_text_after_keyword_def monad_defs)
  have "firm_at t (andthen (try_consume_byte SP) (\<lambda>b. andthen (if b then parse_resp_text else ret (None, []))
      (\<lambda>ct. andthen consume_crlf (\<lambda>_. ret (f ct))))) s" if "in_bounds s"
    apply (rule firm_try_seq [OF that])
     apply (rule firm_seq, assumption, intro adv_rules)
      apply (intro ext_rules, assumption)
     apply (rule firm_seq, erule reachesD, rule adv_rules, rule ext_rules, rule ext_rules)
    apply (simp add: starved_andthen)
    done
  then show "firm_at t (rest f) s" if "in_bounds s"
    using that by (simp add: rest_def parse_resp_text_after_keyword_def andthen_assoc)
qed


subsection \<open>Data responses\<close>

lemma bud_try_seq:
  assumes b: "in_bounds s"
    and q: "\<And>x s'. try_consume_byte b s = Inr (x, s') \<Longrightarrow> in_bounds s' \<Longrightarrow> bud_at t (q x) s'"
    and eof: "is_eof s \<Longrightarrow> starved (q False s)"
  shows "bud_at t (andthen (try_consume_byte b) q) s"
proof -
  obtain x s' where r: "try_consume_byte b s = Inr (x, s')"
    by (cases "try_consume_byte b s") auto
  have "in_bounds s'" using adv_resD [OF adv_try_consume_byte r] b by simp
  from q [OF r this] eof r try_consume_byte_cases [OF r, of t] ext_try_consume_byte [of t b s]
  show ?thesis
    by (cases "is_eof s'") (auto simp: at_defs andthen_def ext_res_Inr)
qed

lemma bud_sp_seq:
  assumes "in_bounds s" and "\<And>s'. in_bounds s' \<Longrightarrow> bud_at t q s'"
  shows "bud_at t (andthen consume_sp (\<lambda>_. q)) s"
  using assms by (intro bud_seq adv_rules ext_rules) (auto dest: reachesD)

lemma bud_fail: "bud_at t (fail e) s"
  by (rule firm_at_imp_bud) (rule firm_fail)

lemma bud_parse_body_section: "in_bounds s \<Longrightarrow> bud_at t parse_body_section s"
  unfolding parse_body_section_def
  apply (rule bud_seq, assumption, rule adv_rules, rule ext_rules, assumption)
  apply (rule bud_seq, erule reachesD, rule adv_rules, rule ext_rules)
  apply (rule bud_try_seq, erule reachesD)
   apply (rule bud_seq, assumption, intro adv_rules)
    apply (intro firm_if firm_number_seq firm_ret, assumption)
     apply (rule firm_seq, erule reachesD, rule adv_rules, rule ext_rules, rule ext_rules)
    apply (simp add: starved_andthen)
   apply (rule bud_sp_seq, erule reachesD)
   apply (rule bud_map, erule bud_parse_nstring_bytes_optional)
  apply (simp add: starved_andthen)
  done

lemma bud_fetch_att_for: "in_bounds s \<Longrightarrow> bud_at t (fetch_att_for name) s"
  unfolding fetch_att_for_def
  apply (intro bud_if bud_sp_seq bud_map bud_parse_number bud_parse_nstring_bytes bud_fail
      firm_at_imp_bud [OF firm_parse_paren_atom_list] firm_at_imp_bud [OF firm_parse_quoted]
      firm_at_imp_bud [OF firm_parse_balanced_parens] bud_try_seq bud_parse_body_section)
                    apply (simp_all add: starved_andthen)
  done

lemma bud_parse_one_fetch_att: "in_bounds s \<Longrightarrow> bud_at t parse_one_fetch_att s"
  unfolding parse_one_fetch_att_def
  by (intro bud_seq adv_rules firm_parse_fetch_att_name bud_fetch_att_for) (auto dest: reachesD)

lemma bud_parse_status_item: "in_bounds s \<Longrightarrow> bud_at t parse_status_item s"
  unfolding parse_status_item_def
  apply (rule bud_seq, assumption, rule adv_rules, rule ext_rules, assumption)
  apply (rule bud_sp_seq, erule reachesD)
  apply (rule bud_map, erule bud_parse_number)
  done

lemma firm_fetch_att_loop [ext_rules]: "in_bounds s \<Longrightarrow> firm_at t (fetch_att_loop xs) s"
  by (rule firm_list_loop [where p = parse_one_fetch_att])
    (subst fetch_att_loop.simps, rule refl, auto intro: bud_parse_one_fetch_att adv_rules)

lemma firm_status_item_loop [ext_rules]: "in_bounds s \<Longrightarrow> firm_at t (status_item_loop xs) s"
  by (rule firm_list_loop [where p = parse_status_item])
    (subst status_item_loop.simps, rule refl, auto intro: bud_parse_status_item adv_rules)

lemma eof_item_loops [simp]:
  "is_eof s \<Longrightarrow> starved (fetch_att_loop as s)" "is_eof s \<Longrightarrow> starved (status_item_loop is s)"
  by (subst fetch_att_loop.simps,
      simp add: run_def starved_andthen parse_one_fetch_att_def)
    (subst status_item_loop.simps,
      simp add: run_def starved_andthen parse_status_item_def)

lemma firm_parse_fetch_msg_att [ext_rules]: "in_bounds s \<Longrightarrow> firm_at t parse_fetch_msg_att s"
  unfolding parse_fetch_msg_att_def
  apply (rule firm_seq, assumption, rule adv_rules, rule ext_rules)
  apply (rule firm_try_seq, erule reachesD)
   apply (auto intro: ext_rules)
  done

lemma firm_parse_status_items [ext_rules]: "in_bounds s \<Longrightarrow> firm_at t parse_status_items s"
  unfolding parse_status_items_def
  apply (rule firm_seq, assumption, rule adv_rules, rule ext_rules)
  apply (rule firm_try_seq, erule reachesD)
   apply (auto intro: ext_rules)
  done

lemma firm_sp_seq:
  assumes "in_bounds s" and "\<And>s'. in_bounds s' \<Longrightarrow> firm_at t q s'"
  shows "firm_at t (andthen consume_sp (\<lambda>_. q)) s"
  using assms by (intro firm_seq adv_rules ext_rules) (auto dest: reachesD)

lemma firm_parse_list_lsub_body [ext_rules]: "in_bounds s \<Longrightarrow> firm_at t parse_list_lsub_body s"
  unfolding parse_list_lsub_body_def
  apply (rule firm_seq, assumption, rule adv_rules, rule ext_rules, assumption)
  apply (rule firm_sp_seq, erule reachesD)
  apply (rule firm_seq_ext, assumption, rule adv_rules, rule bud_at_imp_ext, erule bud_parse_nstring)
   apply (rule firm_sp_seq, erule reachesD)
   apply (rule firm_seq, assumption, rule adv_rules, rule ext_rules, assumption)
   apply (rule firm_ret)
  apply (simp add: starved_andthen)
  done

text \<open>A body and the line end after it.\<close>

lemma firm_line:
  assumes "in_bounds s" and "adv_at p s" and "ext_at t p s"
  shows "firm_at t (andthen p (\<lambda>x. andthen consume_crlf (\<lambda>_. ret (f x)))) s"
  by (rule firm_seq_ext [OF assms])
    (auto intro!: firm_seq adv_rules ext_rules simp: starved_andthen dest: reachesD)

lemma firm_crlf: "in_bounds s \<Longrightarrow> firm_at t (andthen consume_crlf (\<lambda>_. ret x)) s"
  by (auto intro!: firm_seq adv_rules ext_rules)

lemma firm_case_triple: "(\<And>a b c. firm_at t (q a b c) s) \<Longrightarrow> firm_at t (case x of (a, b, c) \<Rightarrow> q a b c) s"
  by (cases x) simp

lemma ext_named_data_for:
  assumes "named_data_for name = Some body" and b: "in_bounds s"
  shows "ext_at t body s"
proof -
  have ll: "ext_at t (andthen consume_sp (\<lambda>_. andthen parse_list_lsub_body
      (\<lambda>(fs, d, n). ret (f fs d n)))) s" for f :: "str list \<Rightarrow> str option \<Rightarrow> str \<Rightarrow> data_response"
    using b by (intro firm_at_imp_ext firm_sp_seq firm_seq ext_rules adv_rules firm_case_triple)
  have status: "ext_at t (andthen consume_sp (\<lambda>_. andthen parse_astring (\<lambda>m. andthen consume_sp (\<lambda>_.
      andthen parse_status_items (\<lambda>items. ret (StatusData m items)))))) s"
    using b by (intro firm_at_imp_ext firm_sp_seq firm_seq ext_rules adv_rules) (auto dest: reachesD)
  have flags: "ext_at t (andthen consume_sp (\<lambda>_. andthen parse_paren_atom_list
      (\<lambda>fs. ret (FlagsData fs)))) s"
    using b by (intro firm_at_imp_ext firm_sp_seq firm_seq ext_rules adv_rules)
  show ?thesis
    using assms(1) ll [of ListData] ll [of LsubData] status flags
      ext_map [OF ext_capability_loop [OF b]] ext_map [OF ext_search_loop [OF b]]
    unfolding named_data_for_def by (auto split: if_splits)
qed

lemma line_start_from_append: "n \<le> length inp \<Longrightarrow> line_start_from (inp @ t) n = line_start_from inp n"
  by (induction n) auto

lemma firm_scan_line:
  assumes "in_bounds s" and "\<And>s1. reaches s s1 \<Longrightarrow> f (ext t s1) = f s1"
  shows "firm_at t (andthen (scan_while (\<lambda>c. c \<noteq> CR)) (\<lambda>_. andthen here (\<lambda>s1.
      andthen consume_crlf (\<lambda>_. ret (f s1))))) s"
  using assms
  by (intro firm_scan_seq adv_rules ext_scan_while firm_crlf) (auto simp: starved_andthen dest: reachesD)

lemma firm_finish_other_data [ext_rules]:
  "in_bounds s \<Longrightarrow> firm_at t (finish_other_data_with_prefix n kind) s"
  unfolding finish_other_data_with_prefix_def
  by (intro firm_here firm_scan_line)
    (auto simp: find_current_line_start_def line_start_from_append in_bounds_def reaches_def)

lemma firm_parse_numeric_data_response [ext_rules]:
  "in_bounds s \<Longrightarrow> firm_at t parse_numeric_data_response s"
  unfolding parse_numeric_data_response_def
  apply (rule firm_number_seq, assumption)
   apply (rule firm_sp_seq, erule reachesD)
   apply (rule firm_seq, assumption, rule adv_rules, rule ext_rules, assumption)
   apply (intro firm_if firm_crlf firm_sp_seq firm_finish_other_data firm_line adv_rules
      firm_at_imp_ext [OF firm_parse_fetch_msg_att])
         apply (auto simp: starved_andthen dest: reachesD)
  done

lemma firm_parse_named_data_response [ext_rules]:
  "in_bounds s \<Longrightarrow> firm_at t parse_named_data_response s"
  unfolding parse_named_data_response_def
  apply (rule firm_here)
   apply (rule firm_seq, assumption, rule adv_rules, rule ext_rules, assumption)
   apply (rule firm_option)
    apply (rule firm_scan_line, erule reachesD)
    apply (auto simp: reaches_def in_bounds_def) [1]
   apply (rule firm_line, erule reachesD, erule adv_named_data_for, erule ext_named_data_for, erule reachesD)
  apply (simp cong: option.case_cong)
  done

subsection \<open>Responses\<close>

lemma firm_keyword_seq:
  assumes b: "in_bounds s"
    and some: "\<And>st s'. in_bounds s' \<Longrightarrow> firm_at t (q (Some st)) s'"
    and some_eof: "\<And>st s'. is_eof s' \<Longrightarrow> starved (q (Some st) s')"
    and none: "\<not> could_be_status_keyword_prefix (remaining s) \<Longrightarrow> firm_at t (q None) s"
    and pending: "could_be_status_keyword_prefix (remaining s) \<Longrightarrow> starved (q None s)"
  shows "firm_at t (andthen try_parse_status_keyword q) s"
proof (cases "status_keyword_at s")
  case None
  with b have eq: "try_parse_status_keyword s = Inr (None, s)"
    by (simp add: try_parse_status_keyword_eq)
  show ?thesis
  proof (cases "could_be_status_keyword_prefix (remaining s)")
    case True
    with eq pending show ?thesis by (simp add: firm_at_def andthen_def starved_firm)
  next
    case False
    with status_keyword_at_ext_cases [OF b, of t] None b
    have "try_parse_status_keyword (ext t s) = Inr (None, ext t s)"
      by (simp add: try_parse_status_keyword_eq)
    with eq none [OF False] show ?thesis by (simp add: firm_at_def andthen_def)
  qed
next
  case (Some r)
  obtain st n where r: "r = (st, n)" by (cases r)
  let ?s' = "s\<lparr>pos := pos s + n\<rparr>"
  from Some r b have eq: "try_parse_status_keyword s = Inr (Some st, ?s')"
    by (simp add: try_parse_status_keyword_eq)
  have in': "in_bounds ?s'"
    using adv_resD [OF adv_try_parse_status_keyword eq] b by simp
  show ?thesis
  proof (cases "is_eof ?s'")
    case True
    with eq some_eof show ?thesis by (simp add: firm_at_def andthen_def starved_firm)
  next
    case False
    with status_keyword_at_ext_cases [OF b, of t] Some r b
    have "try_parse_status_keyword (ext t s) = Inr (Some st, ext t ?s')"
      by (simp add: try_parse_status_keyword_eq)
    with eq some [OF in'] show ?thesis by (simp add: firm_at_def andthen_def)
  qed
qed

lemma pending_letters:
  assumes "could_be_status_keyword_prefix rem" and "c \<in> set rem"
  shows "is_atom_char c" and "\<not> is_ascii_digit c"
proof -
  from assms(1) obtain kw where "kw \<in> set status_keywords" "kw_pending kw rem"
    unfolding could_be_prefix_iff by blast
  with kw_pending_letter [of kw rem] assms(2) obtain L where "byte_eq_ci c L" "is_ascii_uppercase L"
    by (metis in_set_conv_nth)
  then show "is_atom_char c" and "\<not> is_ascii_digit c"
    by (rule ci_letter)+
qed

lemma atom_to_eof:
  assumes "\<forall>c \<in> set (remaining s). is_atom_char c"
  shows "starved (parse_atom s)"
proof -
  from assms have "takeWhile is_atom_char (remaining s) = remaining s" by simp
  then have "scan_while is_atom_char s = Inr ((), s\<lparr>pos := pos s + length (remaining s)\<rparr>)"
    by (simp only: scan_while_eq)
  moreover have "is_eof (s\<lparr>pos := pos s + length (remaining s)\<rparr>)"
    by (simp add: is_eof_def remaining_def)
  ultimately show ?thesis
    by (auto simp: parse_atom_def scanned_text_def monad_defs scan_while_eq is_eof_def remaining_def)
qed

lemma firm_parse_tagged [ext_rules]: "in_bounds s \<Longrightarrow> firm_at t parse_tagged s"
  unfolding parse_tagged_def
  apply (rule firm_seq, assumption, rule adv_rules, rule ext_rules, assumption)
  apply (rule firm_sp_seq, erule reachesD)
  apply (rule firm_keyword_seq, assumption)
     apply (simp add: firm_status_rest)
    apply (simp add: eof_status_rest)
   apply (simp, rule firm_here)
    apply (simp add: remaining_def firm_fail)
   apply (auto simp: remaining_def in_bounds_def dest: could_be_prefix_append) [1]
  apply (simp add: remaining_def fail_def)
  done

lemma untagged_pending:
  assumes "could_be_status_keyword_prefix (remaining s)"
  shows "andthen peek (\<lambda>c. if is_ascii_digit c then parse_numeric_data_response
      else parse_named_data_response) s = Inl Incomplete"
proof (cases "is_eof s")
  case False
  then have "input s ! pos s \<in> set (remaining s)" and "pos s < length (input s)"
    by (simp_all add: is_eof_def remaining_def Cons_nth_drop_Suc [symmetric])
  with pending_letters [OF assms] atom_to_eof [of s] show ?thesis
    by (simp add: monad_defs peek_def parse_named_data_response_def)
qed simp

lemma firm_parse_untagged [ext_rules]: "in_bounds s \<Longrightarrow> firm_at t parse_untagged s"
  unfolding parse_untagged_def
  apply (rule firm_seq, assumption, rule adv_rules, rule ext_rules)
  apply (rule firm_sp_seq, erule reachesD)
  apply (rule firm_keyword_seq, assumption)
     apply (simp add: firm_status_rest)
    apply (simp add: eof_status_rest)
   apply (simp, rule firm_peek_seq, intro ext_rules, assumption, assumption)
  apply (simp add: untagged_pending)
  done

lemma eof_parser_response: "is_eof s \<Longrightarrow> starved (parser_response s)"
  by (simp add: parser_response_def fail_def)

lemma firm_parser_response: "in_bounds s \<Longrightarrow> firm_at t parser_response s"
proof (cases "is_eof s")
  case True
  then show ?thesis by (simp add: firm_at_def starved_firm eof_parser_response)
next
  case False
  assume b: "in_bounds s"
  have "firm_at t (andthen peek (\<lambda>c. if c = CHR ''+'' then parse_continue_req
      else if c = CHR ''*'' then parse_untagged else parse_tagged)) s"
    using b by (intro firm_peek_seq ext_rules)
  with False show ?thesis
    unfolding parser_response_def by (intro firm_here) auto
qed

text \<open>The two laws the read loop of the client relies on.\<close>

lemma parse_response_extend:
  assumes "parse_response inp = Inr (rest, r)"
  shows "parse_response (inp @ t) = Inr (rest @ t, r)"
proof -
  let ?s = "parser_new inp"
  have new: "parser_new (inp @ t) = ext t ?s" and b: "in_bounds ?s"
    by (simp_all add: parser_new_def ext_def in_bounds_def)
  from assms obtain p where p: "parser_response ?s = Inr (r, p)" "rest = remaining p"
    by (auto simp: parse_response_def split: sum.splits)
  have "in_bounds p" using adv_resD [OF adv_parser_response p(1)] b by simp
  with firmD [OF firm_parser_response [OF b] p(1), of t] p(2) show ?thesis
    by (simp add: parse_response_def new remaining_ext)
qed

lemma parse_response_reject:
  assumes "parse_response inp = Inl e" and "hard e"
  shows "\<exists>e'. parse_response (inp @ t) = Inl e' \<and> hard e'"
proof -
  let ?s = "parser_new inp"
  have new: "parser_new (inp @ t) = ext t ?s" and b: "in_bounds ?s"
    by (simp_all add: parser_new_def ext_def in_bounds_def)
  from assms have "hard_res (parser_response ?s)"
    by (auto simp: parse_response_def hard_res_def split: sum.splits)
  with firm_parser_response [OF b, of t] have "hard_res (parser_response (ext t ?s))"
    by (simp add: firm_at_def firm_res_def)
  then show ?thesis
    by (auto simp: parse_response_def new hard_res_def)
qed

end
