(* ===== verification/Parser_Props.thy ===== *)
theory Parser_Props
  imports Parser_Stable
begin

text \<open>
  Facts about one call of the parser: a response is a whole line (the bytes consumed end with
  CRLF, so there are at least two of them), the list elements of a response are the
  ones charged against the item budget, except for the numbers of a SEARCH response, which are not charged and of
  which there are at most half as many as bytes consumed.
\<close>

subsection \<open>A response ends with its line\<close>

definition line_res :: "parser \<Rightarrow> parse_error + 'a \<times> parser \<Rightarrow> bool" where
  "line_res s r \<longleftrightarrow>
     (\<forall>x s'. r = Inr (x, s') \<longrightarrow>
        pos s + 2 \<le> pos s' \<and> pos s' \<le> length (input s') \<and> slice (pos s' - 2) (pos s') (input s') = CRLF)"

abbreviation line_at :: "'a parse \<Rightarrow> parser \<Rightarrow> bool" where
  "line_at p s \<equiv> line_res s (p s)"

named_theorems line_rules \<open>a parser that ends by consuming CRLF\<close>

lemma line_andthen [line_rules]:
  assumes "adv_at p s" and "\<And>x s'. p s = Inr (x, s') \<Longrightarrow> line_at (q x) s'"
  shows "line_at (andthen p q) s"
  using assms unfolding line_res_def adv_res_def andthen_Inr
  by (meson add_le_mono1 le_trans)

lemma line_fail [line_rules]: "line_at (fail e) s"
  by (simp add: line_res_def)

lemma line_if [line_rules]:
  "(b \<Longrightarrow> line_at p s) \<Longrightarrow> (\<not> b \<Longrightarrow> line_at q s) \<Longrightarrow> line_at (if b then p else q) s"
  by simp

lemma line_option [line_rules]:
  "(v = None \<Longrightarrow> line_at p s) \<Longrightarrow> (\<And>x. v = Some x \<Longrightarrow> line_at (q x) s) \<Longrightarrow>
   line_at (case v of None \<Rightarrow> p | Some x \<Rightarrow> q x) s"
  by (cases v) auto

lemma consume_crlf_Inr:
  "consume_crlf s = Inr (u, s') \<longleftrightarrow>
     Suc (pos s) < length (input s) \<and> pos s + 1 < 2 ^ 64 \<and> input s ! pos s = CR
     \<and> input s ! Suc (pos s) = LF \<and> s' = s\<lparr>pos := pos s + 2\<rparr>"
  by (auto simp: consume_crlf_def andthen_Inr peek_at_def split: if_splits option.splits)

lemma line_crlf_ret: "line_at (andthen consume_crlf (\<lambda>_. ret x)) s"
  unfolding line_res_def andthen_Inr consume_crlf_Inr
  by (auto simp: slice_Suc numeral_2_eq_2)

lemma line_finish_other_data: "line_at (finish_other_data_with_prefix n kind) s"
  unfolding finish_other_data_with_prefix_def by (intro line_andthen line_crlf_ret adv_rules)

lemma line_parse_numeric_data_response: "line_at parse_numeric_data_response s"
  unfolding parse_numeric_data_response_def
  by (intro line_andthen line_if line_crlf_ret line_finish_other_data adv_rules)

lemma line_parse_named_data_response: "line_at parse_named_data_response s"
  unfolding parse_named_data_response_def
  by (intro line_andthen line_option line_crlf_ret adv_rules)

lemma line_parser_response: "line_at parser_response s"
  unfolding parser_response_def parse_continue_req_def parse_untagged_def parse_tagged_def
  by (intro line_andthen line_option line_if line_crlf_ret line_fail adv_rules
      line_parse_numeric_data_response line_parse_named_data_response)

lemma parse_response_frame:
  assumes "parse_response inp = Inr (rest, r)"
  obtains body where "inp = body @ CRLF @ rest"
proof -
  from assms obtain p where p: "parser_response (parser_new inp) = Inr (r, p)"
    and rest: "rest = remaining p"
    by (auto simp: parse_response_def split: sum.splits)
  have inp: "input p = inp"
    using adv_resD [OF adv_parser_response p] by (simp add: parser_new_def)
  from line_parser_response [of "parser_new inp"] p inp
  have n: "2 \<le> pos p" "pos p \<le> length inp" and cr: "slice (pos p - 2) (pos p) inp = CRLF"
    by (auto simp: line_res_def parser_new_def)
  have "inp = take (pos p - 2) inp @ drop (pos p - 2) inp" by simp
  also have "drop (pos p - 2) inp = CRLF @ drop (pos p) inp"
    using drop_slice [of "pos p - 2" "pos p" inp] cr by simp
  finally show thesis using that rest inp by (simp add: remaining_def)
qed

lemma parse_response_progress:
  "parse_response inp = Inr (rest, r) \<Longrightarrow> length rest < length inp"
  by (erule parse_response_frame) simp

lemma parse_response_Nil: "parse_response [] = Inl Incomplete"
  by (simp add: parse_response_def parser_response_def parser_new_def is_eof_def fail_def)

subsection \<open>The item budget\<close>

text \<open>
  \<open>charges f c s r\<close>: with \<open>c\<close> elements charged before, the elements \<open>f\<close> counts in the result are
  exactly the ones charged so far.
\<close>

definition charges :: "('a \<Rightarrow> nat) \<Rightarrow> nat \<Rightarrow> parser \<Rightarrow> parse_error + 'a \<times> parser \<Rightarrow> bool" where
  "charges f c s r \<longleftrightarrow> (\<forall>x s'. r = Inr (x, s') \<longrightarrow> items_left s + c = items_left s' + f x)"

named_theorems free_rules \<open>parsers that charge nothing\<close>

abbreviation free_at :: "'a parse \<Rightarrow> parser \<Rightarrow> bool" where
  "free_at p s \<equiv> charges (\<lambda>_. 0) 0 s (p s)"

lemma charges_andthen_free:
  assumes "free_at p s" and "\<And>x s'. p s = Inr (x, s') \<Longrightarrow> charges f c s' (q x s')"
  shows "charges f c s (andthen p q s)"
  using assms by (auto simp: charges_def andthen_Inr)

lemma charges_andthen:
  assumes "charges g c s (p s)" and "\<And>x s'. p s = Inr (x, s') \<Longrightarrow> charges f (g x) s' (q x s')"
  shows "charges f c s (andthen p q s)"
  using assms by (auto simp: charges_def andthen_Inr)

lemma charges_map:
  "charges g c s (p s) \<Longrightarrow> (\<And>x. f (h x) = g x) \<Longrightarrow> charges f c s (andthen p (\<lambda>x. ret (h x)) s)"
  by (auto simp: charges_def andthen_Inr)

lemma charges_if:
  "(b \<Longrightarrow> charges f c s (p s)) \<Longrightarrow> (\<not> b \<Longrightarrow> charges f c s (q s)) \<Longrightarrow>
   charges f c s ((if b then p else q) s)"
  by simp

lemma charges_option:
  "(v = None \<Longrightarrow> charges f c s (p s)) \<Longrightarrow> (\<And>x. v = Some x \<Longrightarrow> charges f c s (q x s)) \<Longrightarrow>
   charges f c s ((case v of None \<Rightarrow> p | Some x \<Rightarrow> q x) s)"
  by (cases v) auto

lemma charges_run: "charges f c s (p s) \<Longrightarrow> charges f c s (run s p)"
  by (simp add: run_def)

lemma charges_ret: "f x = c \<Longrightarrow> charges f c s (ret x s)"
  and charges_fail: "charges f c s (fail e s)"
  by (simp_all add: charges_def)

lemma charges_push_item:
  "(\<And>ys. f (xs @ [x]) = Suc c) \<Longrightarrow> charges f c s (push_item xs x s)"
  by (auto simp: charges_def)

lemma free_basic [free_rules]:
  "free_at (ret x) s" "free_at (fail e) s" "free_at here s" "free_at (skip n) s" "free_at peek s"
  "free_at (utf8_str bs) s" "free_at (try_consume_byte b) s" "free_at (scan_while keep) s"
  by (auto simp: charges_def try_consume_byte_Inr split: if_splits)

lemma free_andthen [free_rules]:
  "free_at p s \<Longrightarrow> (\<And>x s'. p s = Inr (x, s') \<Longrightarrow> free_at (q x) s') \<Longrightarrow> free_at (andthen p q) s"
  by (rule charges_andthen_free)

lemmas [free_rules] = charges_if [where f = "\<lambda>_. 0" and c = 0]
  charges_option [where f = "\<lambda>_. 0" and c = 0] charges_run [where f = "\<lambda>_. 0" and c = 0]

lemma free_consume_crlf [free_rules]: "free_at consume_crlf s"
  by (auto simp: charges_def consume_crlf_Inr)

lemma free_keyword [free_rules]: "free_at (try_consume_keyword_ci kw) s"
  by (auto simp: charges_def try_consume_keyword_ci_def Let_def split: if_splits)

lemma free_scan_in_line [free_rules]: "free_at (scan_in_line stop msg) s"
proof (induction stop msg s rule: scan_in_line.induct)
  case (1 stop msg s)
  let ?c = "input s ! pos s"
  have IH: "free_at (scan_in_line stop msg) (s\<lparr>pos := pos s + 1\<rparr>)"
    if "pos s < length (input s)" "\<not> stop ?c" "\<not> (?c = CR \<or> ?c = LF)"
    using that by (intro 1 [of "(?c, s)"]) simp_all
  then show ?case
    by (subst scan_in_line_cases) (auto simp: charges_def)
qed

lemma free_quoted_loop [free_rules]: "free_at (quoted_loop start) s"
proof (induction start s rule: quoted_loop.induct)
  case (1 start s)
  show ?case
    by (subst quoted_loop.simps) (intro free_rules; (rule 1; assumption)?)
qed

lemma free_consume_byte [free_rules]: "free_at (consume_byte b) s"
  and free_consume_sp [free_rules]: "free_at consume_sp s"
  unfolding consume_byte_def consume_sp_def by (intro free_rules)+

lemma free_scanned_text [free_rules]: "free_at (scanned_text start) s"
  unfolding scanned_text_def by (intro free_rules)

lemma free_parse_number [free_rules]: "free_at parse_number s"
  unfolding parse_number_def Let_def by (intro free_rules)

lemma free_tokens [free_rules]:
  "free_at parse_atom s" "free_at parse_tag s" "free_at parse_flag_or_atom s" "free_at parse_text s"
  "free_at parse_fetch_att_name s" "free_at (read_until_byte b) s"
  unfolding parse_atom_def parse_tag_def parse_flag_or_atom_def parse_text_def
    parse_fetch_att_name_def read_until_byte_def
  by (intro free_rules)+

lemma free_parse_quoted [free_rules]: "free_at parse_quoted s"
  unfolding parse_quoted_def by (intro free_rules)

lemma free_parse_literal [free_rules]: "free_at parse_literal s"
  unfolding parse_literal_def Let_def by (intro free_rules)

lemma free_strings [free_rules]:
  "free_at parse_astring s" "free_at parse_nstring s" "free_at parse_nstring_bytes s"
  "free_at parse_nstring_bytes_optional s" "free_at expect_nil s" "free_at try_parse_status_keyword s"
  unfolding parse_astring_def parse_nstring_def parse_nstring_bytes_def
    parse_nstring_bytes_optional_def expect_nil_def Let_def try_parse_status_keyword_def
  by (intro free_rules)+

lemma free_balanced_loop [free_rules]: "free_at (balanced_loop depth) s"
proof (induction depth s rule: balanced_loop.induct)
  case (1 depth s)
  show ?case
    by (subst balanced_loop.simps) (intro free_rules; (rule 1; assumption)?)
qed

lemma free_parse_balanced_parens [free_rules]: "free_at parse_balanced_parens s"
  unfolding parse_balanced_parens_def by (intro free_rules)

lemma free_search_loop [free_rules]: "free_at (search_loop ids) s"
proof (induction ids s rule: search_loop.induct)
  case (1 ids s)
  show ?case
    by (subst search_loop.simps) (intro free_rules; (rule 1; assumption)?)
qed

lemma free_parse_status_item [free_rules]: "free_at parse_status_item s"
  unfolding parse_status_item_def by (intro free_rules)

lemma free_parse_body_section [free_rules]: "free_at parse_body_section s"
  unfolding parse_body_section_def by (intro free_rules)

text \<open>The loop shared by the parenthesised lists, for items that charge \<open>f\<close> elements themselves.\<close>

lemma charges_list_loop:
  fixes loop :: "'a list \<Rightarrow> 'a list parse"
  assumes unroll: "\<And>xs s. loop xs s = run s (andthen p (\<lambda>x. andthen (push_item xs x) (\<lambda>xs.
      andthen peek (\<lambda>c.
      if c = SP then andthen (skip 1) (\<lambda>_. loop xs)
      else if c = RPAREN then andthen (skip 1) (\<lambda>_. ret xs) else fail e))))"
    and p: "\<And>s. charges f 0 s (p s)" "\<And>s. adv_at p s"
    and "in_bounds s"
  defines "w xs \<equiv> length xs + sum_list (map f xs)"
  shows "charges w (w xs) s (loop xs s)"
  using \<open>in_bounds s\<close>
proof (induction s arbitrary: xs rule: cursor_induct)
  case (step s)
  show ?case
    unfolding charges_def
  proof (intro allI impI)
    fix zs s' assume "loop xs s = Inr (zs, s')"
    then obtain x s1 where 1: "p s = Inr (x, s1)" "0 < items_left s1" and
      rest: "andthen peek (\<lambda>c. if c = SP then andthen (skip 1) (\<lambda>_. loop (xs @ [x]))
        else if c = RPAREN then andthen (skip 1) (\<lambda>_. ret (xs @ [x])) else fail e)
        (s1\<lparr>items_left := items_left s1 - 1\<rparr>) = Inr (zs, s')"
      unfolding unroll [of xs s] run_def andthen_Inr [of p] andthen_Inr [of "push_item xs _"]
        push_item_Inr by blast
    have s1: "reaches s s1" by (rule adv_reaches [OF p(2) 1(1) step.hyps])
    have left: "items_left s = items_left s1 + f x"
      using p(1) [of s] 1(1) by (simp add: charges_def)
    let ?s2 = "s1\<lparr>items_left := items_left s1 - 1, pos := pos s1 + 1\<rparr>"
    from rest consider "loop (xs @ [x]) ?s2 = Inr (zs, s')" "pos s1 < length (input s1)"
      | "zs = xs @ [x]" "s' = ?s2"
      by (auto simp: andthen_Inr split: if_splits)
    then show "items_left s + w xs = items_left s' + w zs"
    proof cases
      case 1
      have "charges w (w (xs @ [x])) ?s2 (loop (xs @ [x]) ?s2)"
        using s1 1(2) by (intro step.IH) (auto simp: reaches_def in_bounds_def)
      with 1(1) left \<open>0 < items_left s1\<close> show ?thesis by (simp add: charges_def w_def)
    next
      case 2
      with left \<open>0 < items_left s1\<close> show ?thesis by (simp add: w_def)
    qed
  qed
qed

lemma charges_starved: "starved r \<Longrightarrow> charges f c s r"
  by (simp add: charges_def)

lemma not_eof_in_bounds: "\<not> is_eof s \<Longrightarrow> in_bounds s"
  by (simp add: is_eof_def in_bounds_def)

lemma charges_paren_atom_loop: "charges length (length xs) s (paren_atom_loop xs s)"
proof (cases "is_eof s")
  case True
  then show ?thesis by (simp add: charges_starved eof_list_loop)
next
  case False
  have "charges (\<lambda>xs. length xs + sum_list (map (\<lambda>_. 0) xs)) (length xs + sum_list (map (\<lambda>_. 0) xs)) s
      (paren_atom_loop xs s)"
    by (rule charges_list_loop [where p = parse_flag_or_atom])
      (subst paren_atom_loop.simps, rule refl, auto intro: free_rules adv_rules not_eof_in_bounds [OF False])
  then show ?thesis by simp
qed

lemma charges_status_item_loop: "charges length (length xs) s (status_item_loop xs s)"
proof (cases "is_eof s")
  case True
  then show ?thesis by (simp add: charges_starved)
next
  case False
  have "charges (\<lambda>xs. length xs + sum_list (map (\<lambda>_. 0) xs)) (length xs + sum_list (map (\<lambda>_. 0) xs)) s
      (status_item_loop xs s)"
    by (rule charges_list_loop [where p = parse_status_item])
      (subst status_item_loop.simps, rule refl, auto intro: free_rules adv_rules not_eof_in_bounds [OF False])
  then show ?thesis by simp
qed

lemma charges_paren_atom_list: "charges length 0 s (parse_paren_atom_list s)"
  unfolding parse_paren_atom_list_def
  using charges_paren_atom_loop [of "[]"]
  by (intro charges_andthen_free charges_if charges_ret free_rules) simp_all

lemma charges_status_items: "charges length 0 s (parse_status_items s)"
  unfolding parse_status_items_def
  using charges_status_item_loop [of "[]"]
  by (intro charges_andthen_free charges_if charges_ret free_rules) simp_all

lemma charges_capability_loop: "charges length (length caps) s (capability_loop caps s)"
proof (induction caps s rule: capability_loop.induct)
  case (1 caps s)
  show ?case
    apply (subst capability_loop.simps)
    apply (rule charges_run, rule charges_andthen_free, rule free_rules, rule charges_if)
     apply (rule charges_ret, rule refl)
    apply (rule charges_andthen_free, rule free_rules)
    apply (rule charges_andthen [where g = length])
     apply (rule charges_push_item, simp)
    apply (rule 1; assumption)
    done
qed

lemma charges_capabilities: "charges length 0 s (capability_loop [] s)"
  using charges_capability_loop [of "[]" s] by simp

lemma charges_sp_map:
  "(\<And>s. charges g c s (p s)) \<Longrightarrow> (\<And>x. f (h x) = g x) \<Longrightarrow>
   charges f c s (andthen consume_sp (\<lambda>_. andthen p (\<lambda>x. ret (h x))) s)"
  by (rule charges_andthen_free [OF free_consume_sp]) (rule charges_map)

lemma charges_try_map:
  assumes "\<And>b s. charges g 0 s (p b s)" and "\<And>x. f (h x) = g x"
  shows "charges f 0 s (andthen (try_consume_byte c) (\<lambda>b. andthen (p b) (\<lambda>x. ret (h x))) s)"
  by (rule charges_andthen_free [OF free_basic(7)], rule charges_map, rule assms) (rule assms)

lemma charges_resp_text_code_for: "charges code_items 0 s (resp_text_code_for atom s)"
proof -
  have 1: "charges length 0 s ((if b then parse_paren_atom_list else ret []) s)" for b s
    by (intro charges_if charges_paren_atom_list charges_ret) simp
  have 2: "charges (\<lambda>_. 0) 0 s
      ((if b then andthen (read_until_byte RBRACK) (\<lambda>t. ret (Some t)) else ret None) s)" for b s
    by (intro free_rules)
  have badcharset: "charges code_items 0 s (andthen (try_consume_byte SP) (\<lambda>b.
      andthen (if b then parse_paren_atom_list else ret []) (\<lambda>cs. ret (BadCharsetCode cs))) s)"
    by (rule charges_try_map [OF 1]) simp
  have other: "charges code_items 0 s (andthen (try_consume_byte SP) (\<lambda>b.
      andthen (if b then andthen (read_until_byte RBRACK) (\<lambda>t. ret (Some t)) else ret None)
        (\<lambda>extra. ret (OtherCode atom extra))) s)"
    by (rule charges_try_map [OF 2]) simp
  have num: "charges code_items 0 s (andthen consume_sp (\<lambda>_. andthen parse_number (\<lambda>n. ret (h n))) s)"
    if "\<And>n. code_items (h n) = 0" for h
    by (rule charges_sp_map [OF free_parse_number]) (rule that)
  have caps: "charges code_items 0 s (andthen (capability_loop []) (\<lambda>caps. ret (CapabilityCode caps)) s)"
    by (rule charges_map [OF charges_capabilities]) simp
  have perm: "charges code_items 0 s (andthen consume_sp (\<lambda>_.
      andthen parse_paren_atom_list (\<lambda>fs. ret (PermanentFlagsCode fs))) s)"
    by (rule charges_sp_map [OF charges_paren_atom_list]) simp
  show ?thesis
    unfolding resp_text_code_for_def
    by (intro charges_if charges_ret num caps perm badcharset other) simp_all
qed

lemma charges_parse_resp_text_code: "charges code_items 0 s (parse_resp_text_code s)"
  unfolding parse_resp_text_code_def
  by (intro charges_andthen_free [OF free_basic(3)] charges_andthen_free [OF free_scan_in_line]
      charges_if charges_fail charges_andthen_free [OF free_basic(6)] charges_resp_text_code_for)

lemma charges_parse_resp_text: "charges (\<lambda>ct. opt_items (fst ct)) 0 s (parse_resp_text s)"
proof -
  have tail: "charges opt_items (code_items c) s
      (andthen (consume_byte RBRACK) (\<lambda>_. andthen (try_consume_byte SP) (\<lambda>_. ret (Some c))) s)" for c s
    by (intro charges_andthen_free [OF free_consume_byte] charges_andthen_free [OF free_basic(7)]
        charges_ret) (simp add: opt_items_def)
  have code: "charges opt_items 0 s (andthen parse_resp_text_code (\<lambda>c.
      andthen (consume_byte RBRACK) (\<lambda>_. andthen (try_consume_byte SP) (\<lambda>_. ret (Some c)))) s)" for s
    by (rule charges_andthen [OF charges_parse_resp_text_code tail])
  have none: "charges opt_items 0 s (ret None s)" for s
    by (rule charges_ret) (simp add: opt_items_def)
  show ?thesis
    unfolding parse_resp_text_def
    apply (rule charges_andthen_free [OF free_basic(7)])
    apply (rule charges_andthen [where g = opt_items])
     apply (intro charges_if code none)
    apply (rule charges_andthen_free [OF free_tokens(4)])
    apply (rule charges_ret, simp)
    done
qed

lemma charges_resp_text_after_keyword:
  "charges (\<lambda>ct. opt_items (fst ct)) 0 s (parse_resp_text_after_keyword s)"
  unfolding parse_resp_text_after_keyword_def
  by (intro charges_andthen_free [OF free_basic(7)] charges_if charges_parse_resp_text charges_ret)
    (simp add: opt_items_def)

text \<open>A value, the line end, and a response made of the value.\<close>

lemma charges_line:
  "charges g 0 s (p s) \<Longrightarrow> (\<And>x. f (h x) = g x) \<Longrightarrow>
   charges f 0 s (andthen p (\<lambda>x. andthen consume_crlf (\<lambda>_. ret (h x))) s)"
  by (erule charges_andthen, rule charges_andthen_free [OF free_consume_crlf]) (simp add: charges_ret)

lemma charges_crlf: "f x = 0 \<Longrightarrow> charges f 0 s (andthen consume_crlf (\<lambda>_. ret x) s)"
  by (rule charges_andthen_free [OF free_consume_crlf]) (rule charges_ret)

lemma charges_fetch_att_for: "charges att_items 0 s (fetch_att_for name s)"
proof -
  have free: "charges att_items 0 s (andthen consume_sp (\<lambda>_. andthen p (\<lambda>x. ret (h x))) s)"
    if "\<And>s. free_at p s" "\<And>x. att_items (h x) = 0" for p :: "'a parse" and h and s
    by (rule charges_sp_map, rule that) (rule that)
  have body_section: "charges att_items 0 s (parse_body_section s)" for s
    unfolding parse_body_section_def
    by (rule charges_andthen_free, (intro free_rules)[1])+ (rule charges_ret, simp)
  show ?thesis
    unfolding fetch_att_for_def
    by (intro charges_if charges_fail free free_rules charges_sp_map [OF charges_paren_atom_list]
        charges_andthen_free [OF free_basic(7)] body_section) simp_all
qed

lemma charges_fetch_att_loop:
  "charges (\<lambda>as. length as + sum_list (map att_items as)) (length as + sum_list (map att_items as)) s
     (fetch_att_loop as s)"
proof (cases "is_eof s")
  case True
  then show ?thesis by (simp add: charges_starved)
next
  case False
  have one: "charges att_items 0 s (parse_one_fetch_att s)" for s
    unfolding parse_one_fetch_att_def
    by (rule charges_andthen_free [OF free_tokens(5) charges_fetch_att_for])
  show ?thesis
    by (rule charges_list_loop [where p = parse_one_fetch_att])
      (subst fetch_att_loop.simps, rule refl, auto intro: one adv_rules not_eof_in_bounds [OF False])
qed

lemma charges_fetch_msg_att:
  "charges (\<lambda>as. length as + sum_list (map att_items as)) 0 s (parse_fetch_msg_att s)"
  unfolding parse_fetch_msg_att_def
  apply (rule charges_andthen_free [OF free_consume_byte])
  apply (rule charges_andthen_free [OF free_basic(7)])
  apply (rule charges_if)
   apply (rule charges_ret, simp)
  using charges_fetch_att_loop [of "[]"] by simp

lemma charges_numeric: "charges response_items 0 s (parse_numeric_data_response s)"
proof -
  have fetch: "charges response_items 0 s (andthen parse_fetch_msg_att (\<lambda>attributes.
      andthen consume_crlf (\<lambda>_. ret (DataResp (FetchData n attributes)))) s)" for n s
    by (rule charges_line [OF charges_fetch_msg_att]) simp
  have other: "charges response_items 0 s (finish_other_data_with_prefix n kind s)" for n kind s
    unfolding finish_other_data_with_prefix_def
    apply (rule charges_andthen_free, rule free_rules)+
    apply (rule charges_ret, simp)
    done
  show ?thesis
    unfolding parse_numeric_data_response_def
    apply (rule charges_andthen_free, rule free_rules)+
    apply (intro charges_if charges_crlf fetch other charges_andthen_free [OF free_consume_sp])
      apply simp_all
    done
qed

lemma charges_named_data_for:
  assumes "named_data_for name = Some body"
  shows "charges data_items 0 s (body s)"
proof -
  have body: "charges data_items 0 s (andthen parse_list_lsub_body (\<lambda>(fs, d, n). ret (h fs d n)) s)"
    if "\<And>fs d n. data_items (h fs d n) = length fs" for h s
    unfolding parse_list_lsub_body_def andthen_assoc
    apply (rule charges_andthen [OF charges_paren_atom_list])
    apply (rule charges_andthen_free, rule free_rules)+
    apply (simp add: charges_ret that)
    done
  have status: "charges data_items 0 s (andthen consume_sp (\<lambda>_. andthen parse_astring (\<lambda>m.
      andthen consume_sp (\<lambda>_. andthen parse_status_items (\<lambda>items. ret (StatusData m items))))) s)"
    apply (rule charges_andthen_free, rule free_rules)+
    apply (rule charges_map [OF charges_status_items], simp)
    done
  have caps: "charges data_items 0 s (andthen (capability_loop []) (\<lambda>caps. ret (CapabilityData caps)) s)"
    by (rule charges_map [OF charges_capabilities]) simp
  have ids: "charges data_items 0 s (andthen (search_loop []) (\<lambda>ids. ret (SearchData ids)) s)"
    by (rule charges_map [OF free_search_loop]) simp
  have flags: "charges data_items 0 s (andthen consume_sp (\<lambda>_.
      andthen parse_paren_atom_list (\<lambda>fs. ret (FlagsData fs))) s)"
    by (rule charges_sp_map [OF charges_paren_atom_list]) simp
  have lists: "charges data_items 0 s (andthen consume_sp (\<lambda>_.
      andthen parse_list_lsub_body (\<lambda>(fs, d, n). ret (h fs d n))) s)"
    if "h = ListData \<or> h = LsubData" for h
    using that by (intro charges_andthen_free [OF free_consume_sp] body) auto
  show ?thesis
    using assms status caps ids flags lists [of ListData] lists [of LsubData]
    unfolding named_data_for_def by (auto split: if_splits)
qed

lemma charges_named: "charges response_items 0 s (parse_named_data_response s)"
  unfolding parse_named_data_response_def
  apply (rule charges_andthen_free [OF free_basic(3)])
  apply (rule charges_andthen_free [OF free_tokens(1)])
  apply (rule charges_option)
   apply (rule charges_andthen_free, rule free_rules)+
   apply (rule charges_ret, simp)
  apply (rule charges_line, erule charges_named_data_for, simp)
  done

lemma charges_parser_response: "charges response_items 0 s (parser_response s)"
proof -
  have status: "charges response_items 0 s (andthen parse_resp_text_after_keyword (\<lambda>ct.
      andthen consume_crlf (\<lambda>_. ret (StatusResp \<lparr>sr_tag = tag, sr_status = st,
        sr_code = fst ct, sr_text = snd ct\<rparr>))) s)" for tag st s
    by (rule charges_line [OF charges_resp_text_after_keyword]) simp
  have continue: "charges response_items 0 s (parse_continue_req s)" for s
    unfolding parse_continue_req_def
    apply (rule charges_andthen_free [OF free_consume_byte])
    apply (rule charges_andthen_free [OF free_consume_sp])
    apply (rule charges_line [OF charges_parse_resp_text], simp)
    done
  have untagged: "charges response_items 0 s (parse_untagged s)" for s
    unfolding parse_untagged_def
    apply (rule charges_andthen_free, rule free_rules)+
    apply (rule charges_option)
     apply (rule charges_andthen_free [OF free_basic(5)])
     apply (intro charges_if charges_numeric charges_named status)+
    done
  have tagged: "charges response_items 0 s (parse_tagged s)" for s
    unfolding parse_tagged_def
    apply (rule charges_andthen_free, rule free_rules)+
    apply (rule charges_option)
     apply (rule charges_andthen_free [OF free_basic(3)])
     apply (intro charges_if charges_fail status)+
    done
  show ?thesis
    unfolding parser_response_def
    by (intro charges_andthen_free [OF free_basic(3)] charges_andthen_free [OF free_basic(5)]
        charges_if charges_fail continue untagged tagged)
qed

lemma parse_response_items:
  assumes "parse_response inp = Inr (rest, r)"
  shows "response_items r \<le> MAX_ITEMS_PER_RESPONSE"
proof -
  from assms obtain p where "parser_response (parser_new inp) = Inr (r, p)"
    by (auto simp: parse_response_def split: sum.splits)
  with charges_parser_response [of "parser_new inp"]
  have "items_left (parser_new inp) = items_left p + response_items r" by (simp add: charges_def)
  then show ?thesis by (simp add: parser_new_def)
qed

subsection \<open>Search results\<close>

text \<open>Search results are not charged; each costs at least the two bytes of a blank and a digit.\<close>

lemma parse_number_progress:
  assumes "parse_number s = Inr (n, s')"
  shows "pos s < pos s'"
proof -
  have "pos s \<noteq> pos s'"
    using assms by (auto simp: parse_number_def andthen_Inr Let_def split: if_splits option.splits)
  moreover have "pos s \<le> pos s'" using adv_resD [OF adv_parse_number assms] by simp
  ultimately show ?thesis by simp
qed

lemma search_loop_bytes:
  "search_loop ids s = Inr (ids', s') \<Longrightarrow> pos s + 2 * length ids' \<le> pos s' + 2 * length ids"
proof (induction ids s rule: search_loop.induct)
  case (1 ids s)
  from 1(2) obtain b s1 where b: "try_consume_byte SP s = Inr (b, s1)"
    by (subst (asm) search_loop.simps) (auto simp: run_def andthen_Inr)
  show ?case
  proof (cases b)
    case False
    with 1(2) b show ?thesis
      by (subst (asm) search_loop.simps) (auto simp: run_def andthen_def ret_def try_consume_byte_Inr split: if_splits)
  next
    case True
    with 1(2) b obtain n s2 where n: "parse_number s1 = Inr (n, s2)" "search_loop (ids @ [n]) s2 = Inr (ids', s')"
      by (subst (asm) search_loop.simps) (auto simp: run_def andthen_Inr)
    have "pos s + 1 \<le> pos s1" using b True by (auto simp: try_consume_byte_Inr split: if_splits)
    moreover have "pos s1 < pos s2" using parse_number_progress [OF n(1)] by simp
    moreover have "pos s2 + 2 * length ids' \<le> pos s' + 2 * length (ids @ [n])"
      using 1(1) [of b s1] b True n by auto
    ultimately show ?thesis by simp
  qed
qed

lemma search_from_loop:
  assumes "parse_named_data_response s = Inr (DataResp (SearchData ids), s')"
  shows "pos s + 2 * length ids \<le> pos s'"
proof -
  from assms obtain nm s1 s2 where
    "parse_atom s = Inr (nm, s1)" "search_loop [] s1 = Inr (ids, s2)" "consume_crlf s2 = Inr ((), s')"
    by (auto simp: parse_named_data_response_def named_data_for_def andthen_Inr split: if_splits option.splits)
  then show ?thesis
    using adv_resD [OF adv_parse_atom] search_loop_bytes [of "[]" s1 ids s2] adv_resD [OF adv_consume_crlf] by fastforce
qed

lemma search_not_numbered: "parse_numeric_data_response s \<noteq> Inr (DataResp (SearchData ids), s')"
  by (auto simp: parse_numeric_data_response_def finish_other_data_with_prefix_def andthen_Inr split: if_splits)

lemma parser_response_search:
  assumes "parser_response s = Inr (DataResp (SearchData ids), s')"
  shows "pos s + 2 * length ids \<le> pos s'"
proof -
  from assms have "parse_untagged s = Inr (DataResp (SearchData ids), s')"
    by (auto simp: parser_response_def andthen_Inr parse_continue_req_def parse_tagged_def split: if_splits option.splits)
  then obtain s1 s2 st where steps: "consume_byte (CHR ''*'') s = Inr ((), s1)" "consume_sp s1 = Inr ((), s2)"
    "try_parse_status_keyword s2 = Inr (None, st)" "parse_named_data_response st = Inr (DataResp (SearchData ids), s')"
    by (auto simp: parse_untagged_def andthen_Inr search_not_numbered split: option.splits if_splits)
  have "pos s \<le> pos s1" "pos s1 \<le> pos s2" "pos s2 \<le> pos st"
    using adv_resD [OF adv_consume_byte steps(1)] adv_resD [OF adv_consume_sp steps(2)]
      adv_resD [OF adv_try_parse_status_keyword steps(3)] by simp_all
  with search_from_loop [OF steps(4)] show ?thesis by simp
qed

lemma parse_response_search:
  assumes "parse_response inp = Inr (rest, DataResp (SearchData ids))"
  shows "2 * length ids + length rest \<le> length inp"
proof -
  from assms obtain p where p: "parser_response (parser_new inp) = Inr (DataResp (SearchData ids), p)" "rest = remaining p"
    by (auto simp: parse_response_def split: sum.splits)
  have "input p = inp" "in_bounds p"
    using adv_resD [OF adv_parser_response p(1)] by (auto simp: parser_new_def in_bounds_def)
  with parser_response_search [OF p(1)] p(2) show ?thesis by (simp add: parser_new_def remaining_def in_bounds_def)
qed

end
