(* ===== verification/Parser_Local.thy ===== *)
theory Parser_Local
  imports Parser_Props
begin

text \<open>
  The parser judges a response by the bytes of the response alone.  The read loop parses the front
  of its buffer, cuts the bytes of the response off and hands them on; the receivers parse them again.  This
  theory shows that they find the response the read loop found, although the parser looks past
  its cursor when it tests for a keyword or scans an atom.

  \<open>cut_at n s\<close> is the parser \<open>s\<close> on the first \<open>n\<close> bytes of its input.  \<open>local_to n p p' s\<close> says that if \<open>p\<close> succeeds at
  \<open>s\<close> with the cursor short of \<open>n\<close> then \<open>p'\<close> does the same on the shorter input; \<open>p'\<close> is \<open>p\<close> with the
  cursors it has remembered cut, too.  The byte before \<open>n\<close> has to be a line feed: a keyword test could
  otherwise succeed because the input ends there.
\<close>

definition cut_at :: "nat \<Rightarrow> parser \<Rightarrow> parser" where
  "cut_at n s = s\<lparr>input := take n (input s)\<rparr>"

definition lf_before :: "nat \<Rightarrow> bytes \<Rightarrow> bool" where
  "lf_before n inp \<longleftrightarrow> 0 < n \<and> n \<le> length inp \<and> inp ! (n - 1) = LF"

definition local_to :: "nat \<Rightarrow> 'a parse \<Rightarrow> 'a parse \<Rightarrow> parser \<Rightarrow> bool" where
  "local_to n p p' s \<longleftrightarrow>
     (lf_before n (input s) \<longrightarrow>
       (\<forall>x s'. p s = Inr (x, s') \<longrightarrow>
          input s' = input s \<and> pos s \<le> pos s' \<and> (pos s' < n \<longrightarrow> p' (cut_at n s) = Inr (x, cut_at n s'))))"

abbreviation local_at :: "nat \<Rightarrow> 'a parse \<Rightarrow> parser \<Rightarrow> bool" where
  "local_at n p s \<equiv> local_to n p p s"

named_theorems local_rules \<open>a parser judges by the bytes it consumes\<close>

lemma cut_simps [simp]:
  "pos (cut_at n s) = pos s" "items_left (cut_at n s) = items_left s"
  "input (cut_at n s) = take n (input s)"
  "cut_at n (s\<lparr>pos := k\<rparr>) = (cut_at n s)\<lparr>pos := k\<rparr>"
  "cut_at n (s\<lparr>items_left := k\<rparr>) = (cut_at n s)\<lparr>items_left := k\<rparr>"
  by (simp_all add: cut_at_def)

lemma slice_cut [simp]: "b \<le> n \<Longrightarrow> slice a b (take n xs) = slice a b xs"
  by (simp add: slice_def drop_take)

lemma local_intro:
  assumes "adv_at p s"
    and "\<And>x s'. lf_before n (input s) \<Longrightarrow> n \<le> length (input s) \<Longrightarrow> p s = Inr (x, s') \<Longrightarrow> pos s' < n \<Longrightarrow> pos s < n \<Longrightarrow>
      p' (cut_at n s) = Inr (x, cut_at n s')"
  shows "local_to n p p' s"
  using assms unfolding local_to_def by (fastforce dest: adv_resD simp: lf_before_def)

lemma local_toD:
  "local_to n p p' s \<Longrightarrow> lf_before n (input s) \<Longrightarrow> p s = Inr (x, s') \<Longrightarrow> pos s' < n \<Longrightarrow>
   p' (cut_at n s) = Inr (x, cut_at n s')"
  unfolding local_to_def by blast

lemma local_ret [local_rules]: "(pos s < n \<Longrightarrow> x = x') \<Longrightarrow> local_to n (ret x) (ret x') s"
  by (rule local_intro) (auto intro: adv_rules)

lemma local_fail [local_rules]: "local_to n (fail e) p' s"
  by (simp add: local_to_def)

lemma local_skip [local_rules]: "local_to n (skip k) (skip k) s"
  by (simp add: local_to_def)

lemma local_andthen [local_rules]:
  assumes p: "local_to n p p' s"
    and q: "\<And>x s'. p s = Inr (x, s') \<Longrightarrow> local_to n (q x) (q' x) s'"
  shows "local_to n (andthen p q) (andthen p' q') s"
  unfolding local_to_def
proof (intro impI allI)
  fix y s2 assume lf: "lf_before n (input s)" and "andthen p q s = Inr (y, s2)"
  then obtain x s1 where 1: "p s = Inr (x, s1)" and 2: "q x s1 = Inr (y, s2)"
    by (auto simp: andthen_Inr)
  from p lf 1 have s1: "input s1 = input s" "pos s \<le> pos s1"
    "pos s1 < n \<longrightarrow> p' (cut_at n s) = Inr (x, cut_at n s1)" unfolding local_to_def by blast+
  from q [OF 1] lf s1(1) 2 have s2: "input s2 = input s1" "pos s1 \<le> pos s2"
    "pos s2 < n \<longrightarrow> q' x (cut_at n s1) = Inr (y, cut_at n s2)" unfolding local_to_def by auto
  from s1 s2 show "input s2 = input s \<and> pos s \<le> pos s2 \<and>
      (pos s2 < n \<longrightarrow> andthen p' q' (cut_at n s) = Inr (y, cut_at n s2))"
    by (auto simp: andthen_def [of p' q'])
qed

lemma local_here [local_rules]:
  "local_to n (q s) (q' (cut_at n s)) s \<Longrightarrow> local_to n (andthen here q) (andthen here q') s"
  unfolding local_to_def andthen_here .

lemma local_if [local_rules]:
  "(b \<Longrightarrow> local_to n p p' s) \<Longrightarrow> (\<not> b \<Longrightarrow> local_to n q q' s) \<Longrightarrow>
   local_to n (if b then p else q) (if b then p' else q') s"
  by simp

lemma local_option [local_rules]:
  "(v = None \<Longrightarrow> local_to n p p' s) \<Longrightarrow> (\<And>x. v = Some x \<Longrightarrow> local_to n (q x) (q' x) s) \<Longrightarrow>
   local_to n (case v of None \<Rightarrow> p | Some x \<Rightarrow> q x) (case v of None \<Rightarrow> p' | Some x \<Rightarrow> q' x) s"
  by (cases v) auto

lemma local_case_triple [local_rules]:
  "(\<And>a b c. x = (a, b, c) \<Longrightarrow> local_to n (q a b c) (q' a b c) s) \<Longrightarrow>
   local_to n (case x of (a, b, c) \<Rightarrow> q a b c) (case x of (a, b, c) \<Rightarrow> q' a b c) s"
  by (cases x) auto

lemma local_let [local_rules]:
  "local_to n (p v) (p' v) s \<Longrightarrow> local_to n (let x = v in p x) (let x = v in p' x) s"
  by simp

text \<open>A method that gives up at the end of the input goes on with both inputs or with neither.\<close>

lemma local_not_eof:
  assumes "\<not> is_eof s \<Longrightarrow> local_to n p p' s" and "\<And>s. adv_at p s"
  shows "local_to n (if is_eof s then fail e else p) (if is_eof (cut_at n s) then fail e else p') s"
proof (cases "is_eof s")
  case False
  note lp = local_toD [OF assms(1) [OF False]]
  show ?thesis by (rule local_intro) (auto simp: False assms(2) is_eof_def min_def intro: lp adv_fail)
qed (simp add: local_fail)

lemma local_unroll: "(\<And>s. p s = run s q) \<Longrightarrow> local_at n q s \<Longrightarrow> local_at n p s"
  by (metis (no_types, lifting) local_to_def run_def)

subsection \<open>Bytes and keywords\<close>

lemma local_peek [local_rules]: "local_at n peek s"
  and local_push_item [local_rules]: "local_at n (push_item xs x) s"
  and local_consume_byte [local_rules]: "local_at n (consume_byte b) s"
  and local_consume_crlf [local_rules]: "local_at n consume_crlf s"
  by (rule local_intro; auto simp: consume_crlf_Inr intro: adv_rules)+

lemma local_consume_sp [local_rules]: "local_at n consume_sp s"
  unfolding consume_sp_def by (rule local_consume_byte)

lemma local_try_consume_byte [local_rules]: "local_at n (try_consume_byte b) s"
  by (rule local_intro) (auto simp: try_consume_byte_Inr intro: adv_rules split: if_splits)

lemma eq_ci_LF [simp]: "byte_eq_ci LF y \<longleftrightarrow> y = LF"
  by (auto simp: byte_eq_ci_def to_ascii_lowercase_def is_ascii_uppercase_def)


lemma remaining_cut: "pos s \<le> n \<Longrightarrow> remaining s = remaining (cut_at n s) @ drop n (input s)"
  by (simp add: remaining_def drop_take) (metis append_take_drop_id drop_drop le_add_diff_inverse2)

text \<open>A keyword without a line feed cannot reach over the line feed before \<open>n\<close>.\<close>

lemma kw_not_over_lf:
  assumes "lf_before n (input s)" "pos s < n" "LF \<notin> set kw"
  shows "\<not> kw_pending kw (remaining (cut_at n s))"
proof
  let ?r = "remaining (cut_at n s)"
  assume p: "kw_pending kw ?r"
  from assms(1,2) have r: "length ?r = n - pos s" "?r ! (n - pos s - 1) = LF"
    by (auto simp: remaining_def lf_before_def)
  with p assms(2) have i: "n - pos s - 1 < length kw" by (auto simp: kw_pending_def)
  from p have "\<forall>i < length ?r. byte_eq_ci (?r ! i) (kw ! i)" by (simp add: kw_pending_def zip_all_ci_iff)
  moreover have "n - pos s - 1 < length ?r" using r assms(2) by simp
  ultimately have "byte_eq_ci (?r ! (n - pos s - 1)) (kw ! (n - pos s - 1))" by blast
  with r have "kw ! (n - pos s - 1) = LF" by simp
  with i assms(3) show False by (metis nth_mem)
qed

lemma local_try_consume_keyword_ci [local_rules]:
  assumes "LF \<notin> set kw"
  shows "local_at n (try_consume_keyword_ci kw) s"
proof (rule local_intro)
  fix b s' assume lf: "lf_before n (input s)" and n: "n \<le> length (input s)" "pos s < n"
    and res: "try_consume_keyword_ci kw s = Inr (b, s')"
  from kw_not_over_lf [OF lf n(2) assms] have "kw_hit kw (remaining s) = kw_hit kw (remaining (cut_at n s))"
    using remaining_cut [of s n] n by (simp add: kw_hit_append)
  with res n show "try_consume_keyword_ci kw (cut_at n s) = Inr (b, cut_at n s')"
    by (auto simp: try_consume_keyword_ci_eq in_bounds_def split: if_splits)
qed (rule adv_rules)

lemma local_expect_nil [local_rules]: "local_at n expect_nil s"
  unfolding expect_nil_def
  by (intro local_rules) (simp_all add: Let_def local_fail)

subsection \<open>Tokens\<close>

lemma takeWhile_cut: "length (takeWhile P xs) < m \<Longrightarrow> takeWhile P (take m xs) = takeWhile P xs"
proof (induction xs arbitrary: m)
  case (Cons x xs)
  then show ?case by (cases m) auto
qed simp

lemma local_scan_while [local_rules]: "local_at n (scan_while keep) s"
  by (rule local_intro, rule adv_rules)
    (auto simp: scan_while_eq remaining_def drop_take takeWhile_cut less_diff_conv)

lemma local_scan_in_line [local_rules]: "local_at n (scan_in_line stop msg) s"
proof (induction stop msg s rule: scan_in_line.induct)
  case (1 stop msg s)
  let ?c = "input s ! pos s"
  have IH: "local_at n (scan_in_line stop msg) (s\<lparr>pos := pos s + 1\<rparr>)"
    if "pos s < length (input s)" "\<not> stop ?c" "\<not> (?c = CR \<or> ?c = LF)"
    using that by (intro 1 [of "(?c, s)"]) simp_all
  show ?case
  proof (rule local_intro)
    fix u s' assume a: "lf_before n (input s)" "n \<le> length (input s)" "scan_in_line stop msg s = Inr (u, s')"
      "pos s' < n" "pos s < n"
    show "scan_in_line stop msg (cut_at n s) = Inr (u, cut_at n s')"
    proof (cases "stop ?c")
      case True
      with a have "s' = s" by (simp add: scan_in_line_cases [of _ _ s])
      with a True show ?thesis by (simp add: scan_in_line_cases [of _ _ "cut_at n s"])
    next
      case False
      with a have c: "\<not> (?c = CR \<or> ?c = LF)" and "scan_in_line stop msg (s\<lparr>pos := pos s + 1\<rparr>) = Inr (u, s')"
        by (auto simp: scan_in_line_cases [of _ _ s] split: if_splits)
      with local_toD [OF IH] a False have "scan_in_line stop msg (cut_at n (s\<lparr>pos := pos s + 1\<rparr>)) = Inr (u, cut_at n s')"
        by simp
      with a False c show ?thesis by (simp add: scan_in_line_cases [of _ _ "cut_at n s"])
    qed
  qed (rule adv_rules)
qed

lemma local_utf8_str [local_rules]:
  "(pos s < n \<Longrightarrow> bs = bs') \<Longrightarrow> local_to n (utf8_str bs) (utf8_str bs') s"
  unfolding utf8_str_def local_to_def by auto

lemma local_scanned_text [local_rules]: "local_at n (scanned_text start) s"
  unfolding scanned_text_def by (intro local_rules) (auto simp: is_eof_def local_to_def)

lemma local_parse_number [local_rules]: "local_at n parse_number s"
proof -
  have "local_to n
     (if pos s = pos s1 then (if is_eof s1 then fail Incomplete else fail InvalidNumber)
     else
       let bs = slice (pos s) (pos s1) (input s1) in
       if \<not> utf8_valid bs then fail InvalidNumber
       else case parse_u32 bs of None \<Rightarrow> fail InvalidNumber | Some n \<Rightarrow> ret n) 
     (if pos (cut_at n s) = pos (cut_at n s1) then (if is_eof (cut_at n s1) then fail Incomplete else fail InvalidNumber)
     else
       let bs = slice (pos (cut_at n s)) (pos (cut_at n s1)) (input (cut_at n s1)) in
       if \<not> utf8_valid bs then fail InvalidNumber
       else case parse_u32 bs of None \<Rightarrow> fail InvalidNumber | Some n \<Rightarrow> ret n) s1" for s1
    by (rule local_intro)
     (auto simp: Let_def split: if_splits option.splits intro!: adv_rules)
  then show ?thesis unfolding parse_number_def by (intro local_rules)
qed

lemma local_parse_atom [local_rules]: "local_at n parse_atom s"
  and local_parse_tag [local_rules]: "local_at n parse_tag s"
  unfolding parse_atom_def parse_tag_def by (intro local_rules, simp add: local_rules)+

lemma local_quoted_loop [local_rules]: "local_at n (quoted_loop start) s"
proof (induction start s rule: quoted_loop.induct)
  case (1 start s)
  show ?case
    by (rule local_unroll [OF quoted_loop.simps]) (intro local_rules; (rule 1; assumption)?; simp)
qed

lemma local_parse_quoted [local_rules]: "local_at n parse_quoted s"
  unfolding parse_quoted_def by (intro local_rules) (simp add: local_rules)

lemma local_parse_literal [local_rules]: "local_at n parse_literal s"
  unfolding parse_literal_def
  by (intro local_rules) (auto simp: local_to_def andthen_def skip_def split: option.splits)

lemma local_parse_astring [local_rules]: "local_at n parse_astring s"
  and local_parse_nstring [local_rules]: "local_at n parse_nstring s"
  unfolding parse_astring_def parse_nstring_def by (intro local_rules refl)+

lemma local_parse_flag_or_atom [local_rules]: "local_at n parse_flag_or_atom s"
  unfolding parse_flag_or_atom_def by (intro local_rules) (simp_all add: local_rules)

subsection \<open>Lists, response codes and attributes\<close>

lemma local_paren_atom_loop [local_rules]: "local_at n (paren_atom_loop items) s"
proof (induction items s rule: paren_atom_loop.induct)
  case (1 items s)
  show ?case
    by (rule local_unroll [OF paren_atom_loop.simps]) (intro local_rules; (rule 1; assumption)?; simp)
qed

lemma local_parse_paren_atom_list [local_rules]: "local_at n parse_paren_atom_list s"
  unfolding parse_paren_atom_list_def by (intro local_rules refl)

lemma local_balanced_loop [local_rules]: "local_at n (balanced_loop depth) s"
proof (induction depth s rule: balanced_loop.induct)
  case (1 depth s)
  show ?case
    by (rule local_unroll [OF balanced_loop.simps]) (intro local_rules; (rule 1; assumption)?; simp)
qed

lemma local_parse_balanced_parens [local_rules]: "local_at n parse_balanced_parens s"
  unfolding parse_balanced_parens_def by (intro local_rules) simp

lemma local_parse_text [local_rules]: "local_at n parse_text s"
  unfolding parse_text_def by (intro local_rules) (simp add: local_rules)

lemma local_try_parse_status_keyword [local_rules]: "local_at n try_parse_status_keyword s"
  unfolding try_parse_status_keyword_def by (intro local_rules refl) simp_all

lemma local_capability_loop [local_rules]: "local_at n (capability_loop caps) s"
proof (induction caps s rule: capability_loop.induct)
  case (1 caps s)
  show ?case
    by (rule local_unroll [OF capability_loop.simps]) (intro local_rules; (rule 1; assumption)?; simp)
qed

lemma local_read_until_byte [local_rules]: "local_at n (read_until_byte b) s"
  unfolding read_until_byte_def by (intro local_rules) (simp add: local_rules)

lemma local_resp_text_code_for [local_rules]: "local_at n (resp_text_code_for atom) s"
  unfolding resp_text_code_for_def by (intro local_rules refl)

lemma local_parse_resp_text_code [local_rules]: "local_at n parse_resp_text_code s"
proof -
  have inner: "local_to n
     (if is_eof s1 then fail Incomplete else if pos s = pos s1 then fail (Malformed ''empty response code'')
      else andthen (utf8_str (slice (pos s) (pos s1) (input s1))) resp_text_code_for)
     (if is_eof (cut_at n s1) then fail Incomplete else if pos s = pos s1 then fail (Malformed ''empty response code'')
      else andthen (utf8_str (slice (pos s) (pos s1) (take n (input s1)))) resp_text_code_for) s1" for s1
    by (rule local_not_eof; intro local_rules adv_rules; simp)
  show ?thesis unfolding parse_resp_text_code_def
    by (rule local_here, rule local_andthen, intro local_rules, rule local_here,
      simp only: cut_simps, rule inner)
qed

lemma local_parse_resp_text [local_rules]: "local_at n parse_resp_text s"
  unfolding parse_resp_text_def by (intro local_rules refl)

lemma local_parse_resp_text_after_keyword [local_rules]: "local_at n parse_resp_text_after_keyword s"
  unfolding parse_resp_text_after_keyword_def by (intro local_rules refl)

lemma local_parse_fetch_att_name [local_rules]: "local_at n parse_fetch_att_name s"
proof -
  have inner: "local_to n
     (if is_eof s1 then fail Incomplete else if pos s = pos s1 then fail (Malformed ''expected FETCH att name'')
      else utf8_str (slice (pos s) (pos s1) (input s1)))
     (if is_eof (cut_at n s1) then fail Incomplete else if pos s = pos s1 then fail (Malformed ''expected FETCH att name'')
      else utf8_str (slice (pos s) (pos s1) (take n (input s1)))) s1" for s1
    by (rule local_not_eof; intro local_rules adv_rules; simp)
  show ?thesis unfolding parse_fetch_att_name_def
    by (rule local_here, rule local_andthen, intro local_rules, rule local_here,
      simp only: cut_simps, rule inner)
qed

lemma local_parse_nstring_bytes [local_rules]: "local_at n parse_nstring_bytes s"
  and local_parse_nstring_bytes_optional [local_rules]: "local_at n parse_nstring_bytes_optional s"
  unfolding parse_nstring_bytes_def parse_nstring_bytes_optional_def by (intro local_rules refl)+

lemma local_parse_body_section [local_rules]: "local_at n parse_body_section s"
  unfolding parse_body_section_def by (intro local_rules refl)

lemma local_fetch_att_for [local_rules]: "local_at n (fetch_att_for name) s"
  unfolding fetch_att_for_def by (intro local_rules refl)

lemma local_parse_one_fetch_att [local_rules]: "local_at n parse_one_fetch_att s"
  unfolding parse_one_fetch_att_def by (intro local_rules)

lemma local_fetch_att_loop [local_rules]: "local_at n (fetch_att_loop atts) s"
proof (induction atts s rule: fetch_att_loop.induct)
  case (1 atts s)
  show ?case
    by (rule local_unroll [OF fetch_att_loop.simps]) (intro local_rules; (rule 1; assumption)?; simp)
qed

lemma local_parse_fetch_msg_att [local_rules]: "local_at n parse_fetch_msg_att s"
  unfolding parse_fetch_msg_att_def by (intro local_rules refl)

lemma local_parse_status_item [local_rules]: "local_at n parse_status_item s"
  unfolding parse_status_item_def by (intro local_rules refl)

lemma local_status_item_loop [local_rules]: "local_at n (status_item_loop items) s"
proof (induction items s rule: status_item_loop.induct)
  case (1 items s)
  show ?case
    by (rule local_unroll [OF status_item_loop.simps]) (intro local_rules; (rule 1; assumption)?; simp)
qed

lemma local_parse_status_items [local_rules]: "local_at n parse_status_items s"
  unfolding parse_status_items_def by (intro local_rules refl)

lemma local_search_loop [local_rules]: "local_at n (search_loop ids) s"
proof (induction ids s rule: search_loop.induct)
  case (1 ids s)
  show ?case
    by (rule local_unroll [OF search_loop.simps]) (intro local_rules; (rule 1; assumption)?; simp)
qed

lemma local_parse_list_lsub_body [local_rules]: "local_at n parse_list_lsub_body s"
  unfolding parse_list_lsub_body_def by (intro local_rules refl)

lemma local_named_data_for: "named_data_for name = Some body \<Longrightarrow> local_at n body s"
  unfolding named_data_for_def by (auto split: if_splits intro!: local_rules)

subsection \<open>Whole responses\<close>

text \<open>
  A method that ends with the line end may end at \<open>n\<close> itself.
\<close>

definition line_to :: "nat \<Rightarrow> 'a parse \<Rightarrow> 'a parse \<Rightarrow> parser \<Rightarrow> bool" where
  "line_to n p p' s \<longleftrightarrow>
     (lf_before n (input s) \<longrightarrow>
       (\<forall>x s'. p s = Inr (x, s') \<longrightarrow>
          pos s < pos s' \<and> (pos s' \<le> n \<longrightarrow> p' (cut_at n s) = Inr (x, cut_at n s'))))"

named_theorems whole_rules \<open>a whole line is judged by its own bytes\<close>

lemma line_to_andthen [whole_rules]:
  assumes p: "local_to n p p' s"
    and q: "\<And>x s'. p s = Inr (x, s') \<Longrightarrow> line_to n (q x) (q' x) s'"
  shows "line_to n (andthen p q) (andthen p' q') s"
  unfolding line_to_def
proof (intro impI allI)
  fix y s2 assume lf: "lf_before n (input s)" and "andthen p q s = Inr (y, s2)"
  then obtain x s1 where 1: "p s = Inr (x, s1)" and 2: "q x s1 = Inr (y, s2)"
    by (auto simp: andthen_Inr)
  from p lf 1 have s1: "input s1 = input s" "pos s \<le> pos s1"
    "pos s1 < n \<longrightarrow> p' (cut_at n s) = Inr (x, cut_at n s1)" unfolding local_to_def by blast+
  from q [OF 1] lf s1(1) 2 have s2: "pos s1 < pos s2"
    "pos s2 \<le> n \<longrightarrow> q' x (cut_at n s1) = Inr (y, cut_at n s2)" unfolding line_to_def by auto
  from s1 s2 show "pos s < pos s2 \<and> (pos s2 \<le> n \<longrightarrow> andthen p' q' (cut_at n s) = Inr (y, cut_at n s2))"
    by (auto simp: andthen_def [of p' q'])
qed

lemma line_to_fail [whole_rules]: "line_to n (fail e) p' s"
  by (simp add: line_to_def)

lemma line_to_if [whole_rules]:
  "(b \<Longrightarrow> line_to n p p' s) \<Longrightarrow> (\<not> b \<Longrightarrow> line_to n q q' s) \<Longrightarrow>
   line_to n (if b then p else q) (if b then p' else q') s"
  by simp

lemma line_to_here:
  "line_to n (q s) (q' (cut_at n s)) s \<Longrightarrow> line_to n (andthen here q) (andthen here q') s"
  unfolding line_to_def andthen_here .

lemma line_to_crlf:
  assumes "pos s < n \<Longrightarrow> x = x'"
  shows "line_to n (andthen consume_crlf (\<lambda>_. ret x)) (andthen consume_crlf (\<lambda>_. ret x')) s"
proof -
  have "consume_crlf (cut_at n s) = Inr ((), cut_at n s')"
    if "consume_crlf s = Inr ((), s')" "pos s' \<le> n" for s'
    using that by (auto simp: consume_crlf_Inr)
  with assms show ?thesis
    unfolding line_to_def andthen_Inr by (fastforce simp: consume_crlf_Inr andthen_def ret_def)
qed

lemmas line_to_crlf_refl [whole_rules] = line_to_crlf [OF refl]

lemma line_start_cut: "k \<le> n \<Longrightarrow> line_start_from (take n inp) k = line_start_from inp k"
  by (induction k) auto

lemma line_to_finish_other_data [whole_rules]: "line_to n (finish_other_data_with_prefix m kind) (finish_other_data_with_prefix m kind) s"
  unfolding finish_other_data_with_prefix_def
proof (rule line_to_here, rule line_to_andthen, rule local_scan_while, rule line_to_here, rule line_to_crlf)
  fix u s1 assume "scan_while (\<lambda>c. c \<noteq> CR) s = Inr (u, s1)" "pos s1 < n"
  then show "DataResp (OtherData (slice (find_current_line_start s) (pos s1) (input s1))) =
    DataResp (OtherData (slice (find_current_line_start (cut_at n s)) (pos (cut_at n s1)) (input (cut_at n s1))))"
    by (auto simp: find_current_line_start_def line_start_cut)
qed

lemma line_to_parse_numeric_data_response [whole_rules]:
  "line_to n parse_numeric_data_response parse_numeric_data_response s"
  unfolding parse_numeric_data_response_def by (intro whole_rules local_rules)

lemma line_to_parse_named_data_response [whole_rules]:
  "line_to n parse_named_data_response parse_named_data_response s"
  unfolding parse_named_data_response_def
proof (rule line_to_here, rule line_to_andthen, rule local_parse_atom)
  fix name s1
  show "line_to n
     (case named_data_for name of
       Some body \<Rightarrow> andthen body (\<lambda>resp. andthen consume_crlf (\<lambda>_. ret (DataResp resp)))
     | None \<Rightarrow> andthen (scan_while (\<lambda>c. c \<noteq> CR)) (\<lambda>_. andthen here (\<lambda>s1. andthen consume_crlf (\<lambda>_.
         ret (DataResp (OtherData (slice (pos s) (pos s1) (input s1))))))))
     (case named_data_for name of
       Some body \<Rightarrow> andthen body (\<lambda>resp. andthen consume_crlf (\<lambda>_. ret (DataResp resp)))
     | None \<Rightarrow> andthen (scan_while (\<lambda>c. c \<noteq> CR)) (\<lambda>_. andthen here (\<lambda>s1. andthen consume_crlf (\<lambda>_.
         ret (DataResp (OtherData (slice (pos (cut_at n s)) (pos s1) (input s1)))))))) s1"
  proof (cases "named_data_for name")
    case None
    then show ?thesis by simp (intro line_to_andthen line_to_here line_to_crlf local_scan_while; simp)
  next
    case (Some body)
    then show ?thesis by simp (intro line_to_andthen local_named_data_for whole_rules)
  qed
qed

lemma line_to_parse_untagged [whole_rules]: "line_to n parse_untagged parse_untagged s"
  unfolding parse_untagged_def
  by (intro whole_rules local_rules; simp split: option.split; intro conjI impI allI whole_rules local_rules)

lemma line_to_rejected: "line_to n (andthen here (\<lambda>s. if b s then fail e else fail e')) p' s"
  by (simp add: line_to_def andthen_here)

lemma line_to_parse_tagged [whole_rules]: "line_to n parse_tagged parse_tagged s"
  unfolding parse_tagged_def
  by (intro whole_rules local_rules; simp split: option.split;
      intro conjI impI allI; (rule line_to_rejected | intro whole_rules local_rules))

lemma line_to_parse_continue_req [whole_rules]: "line_to n parse_continue_req parse_continue_req s"
  unfolding parse_continue_req_def by (intro whole_rules local_rules)

lemma line_to_parser_response: "line_to n parser_response parser_response s"
  unfolding parser_response_def
proof (rule line_to_here)
  show "line_to n
     (if is_eof s then fail Incomplete
      else andthen peek (\<lambda>c. if c = CHR ''+'' then parse_continue_req
        else if c = CHR ''*'' then parse_untagged else parse_tagged))
     (if is_eof (cut_at n s) then fail Incomplete
      else andthen peek (\<lambda>c. if c = CHR ''+'' then parse_continue_req
        else if c = CHR ''*'' then parse_untagged else parse_tagged)) s"
    (is "line_to n (if _ then _ else ?p) _ s")
  proof (cases "is_eof s \<or> n \<le> pos s")
    case True
    have "line_to n ?p ?p s" by (intro whole_rules local_rules)
    with True show ?thesis by (fastforce simp: line_to_def)
  next
    case False
    have "line_to n ?p ?p s" by (intro whole_rules local_rules)
    moreover from False have "\<not> is_eof s" "\<not> is_eof (cut_at n s)" by (simp_all add: is_eof_def min_def)
    ultimately show ?thesis by simp
  qed
qed

text \<open>The frame the read loop cuts off is, on its own, the response it was cut off for.\<close>

lemma parse_response_frame_alone:
  assumes "parse_response (f @ rest) = Inr (rest, r)"
  shows "parse_response f = Inr ([], r)"
proof -
  from assms obtain p where p: "parser_response (parser_new (f @ rest)) = Inr (r, p)" and rest: "rest = remaining p"
    by (auto simp: parse_response_def split: sum.splits)
  have inp: "input p = f @ rest" "pos p \<le> length (f @ rest)"
    using adv_resD [OF adv_parser_response p] by (auto simp: parser_new_def in_bounds_def)
  with rest have n: "pos p = length f"
    by (metis add_diff_cancel_right' diff_diff_cancel length_append length_drop remaining_def)
  obtain body where "f @ rest = body @ CRLF @ rest" using parse_response_frame [OF assms] .
  then have lf: "lf_before (length f) (f @ rest)" by (simp add: lf_before_def nth_append)
  have "parser_response (cut_at (length f) (parser_new (f @ rest))) = Inr (r, cut_at (length f) p)"
    using line_to_parser_response [of "length f" "parser_new (f @ rest)"] lf p n
    by (simp add: line_to_def parser_new_def)
  moreover have "cut_at (length f) (parser_new (f @ rest)) = parser_new f" by (simp add: cut_at_def parser_new_def)
  ultimately show ?thesis using inp n by (simp add: parse_response_def remaining_def)
qed

end
