(* ===== verification/Parser_Reads.thy ===== *)
theory Parser_Reads
  imports Parser_Local
begin

text \<open>
  A calculus of what the parser reads.  \<open>reads k p bs x F\<close>: wherever the cursor stands before the bytes \<open>bs\<close>, followed by something that satisfies
  \<open>F\<close>, the method \<open>p\<close> consumes exactly \<open>bs\<close>, returns \<open>x\<close> and charges \<open>k\<close> list items.  Here are its rules, and with them what the tokens,
  the lists and the strings of the grammar look like on the wire.
\<close>

definition at :: "bytes \<Rightarrow> bytes \<Rightarrow> usize \<Rightarrow> parser" where
  "at pre rest k = \<lparr>input = pre @ rest, pos = length pre, items_left = k\<rparr>"

definition reads :: "nat \<Rightarrow> 'a parse \<Rightarrow> bytes \<Rightarrow> 'a \<Rightarrow> (bytes \<Rightarrow> bool) \<Rightarrow> bool" where
  "reads k p bs x F \<longleftrightarrow>
     (\<forall>pre t m. F t \<longrightarrow> length (pre @ bs @ t) < 2 ^ 64 \<longrightarrow>
        p (at pre (bs @ t) (k + m)) = Inr (x, at (pre @ bs) t m))"

abbreviation anything :: "bytes \<Rightarrow> bool" where
  "anything t \<equiv> True"

definition starts :: "(byte \<Rightarrow> bool) \<Rightarrow> bytes \<Rightarrow> bool" where
  "starts P t \<longleftrightarrow> t \<noteq> [] \<and> P (hd t)"

lemma starts_simps [simp]: "\<not> starts P []" "starts P (c # cs) \<longleftrightarrow> P c"
  "starts P ((c # cs) @ t) \<longleftrightarrow> P c"
  by (simp_all add: starts_def)

lemma at_simps [simp]:
  "input (at pre rest k) = pre @ rest" "pos (at pre rest k) = length pre" "items_left (at pre rest k) = k"
  "remaining (at pre rest k) = rest" "in_bounds (at pre rest k)"
  by (simp_all add: at_def remaining_def in_bounds_def)

lemma at_forward: "(at pre (bs @ t) k)\<lparr>pos := length pre + length bs\<rparr> = at (pre @ bs) t k"
  by (simp add: at_def)

lemma at_step: "(at pre (b # t) m)\<lparr>pos := Suc (length pre)\<rparr> = at (pre @ [b]) t m"
  by (simp add: at_def)

lemma at_peek: "peek (at pre (c # t) k) = Inr (c, at pre (c # t) k)"
  by (simp add: at_def peek_def nth_append)

lemma readsD:
  "reads k p bs x F \<Longrightarrow> F t \<Longrightarrow> length (pre @ bs @ t) < 2 ^ 64 \<Longrightarrow>
   p (at pre (bs @ t) (k + m)) = Inr (x, at (pre @ bs) t m)"
  by (simp add: reads_def)

lemma reads_andthen:
  assumes p: "reads k p bs x F" and q: "reads k' (q x) bs' y F'" and "\<And>t. F' t \<Longrightarrow> F (bs' @ t)"
    and "n = k + k'" and "cs = bs @ bs'"
  shows "reads n (andthen p q) cs y F'"
  unfolding reads_def assms(4,5)
proof (intro allI impI)
  fix pre t m assume t: "F' t" and len: "length (pre @ (bs @ bs') @ t) < 2 ^ 64"
  have "p (at pre (bs @ bs' @ t) (k + (k' + m))) = Inr (x, at (pre @ bs) (bs' @ t) (k' + m))"
    by (rule readsD [OF p]) (use t len assms(3) in auto)
  moreover have "q x (at (pre @ bs) (bs' @ t) (k' + m)) = Inr (y, at ((pre @ bs) @ bs') t m)"
    by (rule readsD [OF q]) (use t len in auto)
  ultimately show "andthen p q (at pre ((bs @ bs') @ t) (k + k' + m)) = Inr (y, at (pre @ bs @ bs') t m)"
    by (simp add: andthen_def add.assoc)
qed

lemma reads_then:
  assumes "reads 0 p bs x F" and "reads k (q x) bs' y F'" and "\<And>t. F' t \<Longrightarrow> F (bs' @ t)"
  shows "reads k (andthen p q) (bs @ bs') y F'"
  using assms by (rule reads_andthen) simp_all

lemma reads_weaken: "reads k p bs x F \<Longrightarrow> (\<And>t. F' t \<Longrightarrow> F t) \<Longrightarrow> reads k p bs x F'"
  by (simp add: reads_def)

lemma reads_ret: "reads 0 (ret x) [] x anything"
  and reads_peek: "P c \<Longrightarrow> reads 0 peek [] c (\<lambda>t. starts (\<lambda>d. d = c) t)"
  and reads_skip: "reads 0 (skip 1) [b] () anything"
  and reads_consume_byte: "reads 0 (consume_byte b) [b] () anything"
  and reads_consume_sp: "reads 0 consume_sp [SP] () anything"
  and reads_push_item: "reads 1 (push_item xs x) [] (xs @ [x]) anything"
  and reads_try: "reads 0 (try_consume_byte b) [b] True anything"
  and reads_try_not: "reads 0 (try_consume_byte b) [] False (starts (\<lambda>d. d \<noteq> b))"
  and reads_crlf: "reads 0 consume_crlf CRLF () anything"
  by (auto simp: reads_def at_def ret_def peek_def skip_def consume_sp_def consume_crlf_Inr push_item_def
    try_consume_byte_def starts_def nth_append hd_conv_nth split: option.splits)

subsection \<open>Tokens\<close>

lemma slice_at [simp]: "slice (length pre) (length pre + length bs) (pre @ bs @ t) = bs"
  by (simp add: slice_def)

text \<open>A scanned token: the bytes up to the first one that does not belong to it.\<close>

lemma at_scan:
  assumes "list_all keep bs" "starts (\<lambda>c. \<not> keep c) t"
  shows "scan_while keep (at pre (bs @ t) k) = Inr ((), at (pre @ bs) t k)"
proof -
  have "takeWhile keep (bs @ t) = bs"
    using assms by (cases t) (auto simp: takeWhile_tail list_all_iff)
  then show ?thesis by (simp add: scan_while_eq at_forward)
qed

lemma at_not_eof: "starts P t \<Longrightarrow> \<not> is_eof (at pre t k)"
  by (cases t) (auto simp: is_eof_def)

lemma at_scanned_text:
  "utf8_valid bs \<Longrightarrow> starts P t \<Longrightarrow> scanned_text (length pre) (at (pre @ bs) t k) = Inr (bs, at (pre @ bs) t k)"
  by (simp add: scanned_text_def andthen_def here_def at_not_eof)

lemma digits_ascii: "list_all is_ascii_digit ds \<Longrightarrow> utf8_valid ds"
  by (rule utf8_valid_ascii) (auto simp: is_ascii_def list_all_iff is_ascii_digit_def)

definition print_u32 :: "u32 \<Rightarrow> bytes" where
  "print_u32 n = dec (unat n)"

lemma parse_print_u32: "parse_u32 (print_u32 n) = Some n"
  unfolding print_u32_def using parse_u32_dec [of "unat n"] unsigned_less [of n] by simp

lemma reads_number: "reads 0 parse_number (print_u32 n) n (starts (\<lambda>c. \<not> is_ascii_digit c))"
proof -
  have d: "list_all is_ascii_digit (print_u32 n)" "print_u32 n \<noteq> []" by (simp_all add: print_u32_def dec_digits)
  show ?thesis
    unfolding reads_def parse_number_def
    using d digits_ascii [OF d(1)] by (simp add: andthen_def here_def at_scan [OF d(1)] parse_print_u32 ret_def)
qed

definition is_atom :: "bytes \<Rightarrow> bool" where
  "is_atom a \<longleftrightarrow> a \<noteq> [] \<and> list_all is_atom_char a \<and> utf8_valid a"

lemma reads_atom: "is_atom a \<Longrightarrow> reads 0 parse_atom a a (starts (\<lambda>c. \<not> is_atom_char c))"
  unfolding reads_def parse_atom_def is_atom_def
  by (simp add: andthen_def here_def at_scan at_scanned_text [where P = "\<lambda>c. \<not> is_atom_char c"])

text \<open>A flag is an atom, perhaps after a backslash, or \<open>\*\<close>.\<close>

definition is_flag :: "bytes \<Rightarrow> bool" where
  "is_flag f \<longleftrightarrow> is_atom f \<or> (\<exists>a. f = BACKSLASH # a \<and> is_atom a) \<or> f = [BACKSLASH, CHR ''*'']"

text \<open>The end of \<open>parse_flag_or_atom\<close>, for a token that began at \<open>start\<close>.\<close>

definition flag_rest :: "usize \<Rightarrow> str parse" where
  "flag_rest start =
     andthen (scan_while is_atom_char) (\<lambda>_.
     andthen here (\<lambda>s1.
     if start = pos s1 then
       (if is_eof s1 then fail Incomplete else fail (Malformed ''expected flag/atom''))
     else scanned_text start))"

lemma parse_flag_or_atom_start:
  "parse_flag_or_atom s = andthen peek (\<lambda>c.
     andthen (if c = BACKSLASH then andthen (skip 1) (\<lambda>_. try_consume_byte (CHR ''*''))
              else ret False) (\<lambda>star.
     if star then andthen here (\<lambda>s1. utf8_str (slice (pos s) (pos s1) (input s1)))
     else flag_rest (pos s))) s"
  unfolding parse_flag_or_atom_def andthen_here flag_rest_def ..

lemma at_flag_rest:
  assumes "b @ a \<noteq> []" "list_all is_atom_char a" "utf8_valid (b @ a)" "starts (\<lambda>c. \<not> is_atom_char c) t"
  shows "flag_rest (length pre) (at (pre @ b) (a @ t) m) = Inr (b @ a, at (pre @ b @ a) t m)"
  using assms at_scanned_text [OF assms(3,4), of pre m]
  by (auto simp: flag_rest_def andthen_def here_def at_scan)

lemma at_skip: "skip (Suc 0) (at pre (c # t) m) = Inr ((), at (pre @ [c]) t m)"
  by (simp add: at_def skip_def)

lemma at_try: "try_consume_byte b (at pre (c # t) m) = Inr (if c = b then (True, at (pre @ [c]) t m) else (False, at pre (c # t) m))"
  by (simp add: at_def try_consume_byte_def peek_def nth_append)

lemma reads_flag:
  assumes "is_flag f"
  shows "reads 0 parse_flag_or_atom f f (starts (\<lambda>c. \<not> is_atom_char c))"
  unfolding reads_def
proof (intro allI impI)
  have esc: "utf8_valid [BACKSLASH]" "utf8_valid [BACKSLASH, CHR ''*'']"
    by (rule utf8_valid_ascii, simp add: is_ascii_def)+
  fix pre t m assume t: "starts (\<lambda>c. \<not> is_atom_char c) t"
  from assms consider (atom) "is_atom f" | (system) a where "f = BACKSLASH # a" "is_atom a"
    | (star) "f = [BACKSLASH, CHR ''*'']" unfolding is_flag_def by blast
  then show "parse_flag_or_atom (at pre (f @ t) (0 + m)) = Inr (f, at (pre @ f) t m)"
  proof cases
    case atom
    then obtain c cs where "f = c # cs" "c \<noteq> BACKSLASH" by (cases f) (auto simp: is_atom_def is_atom_char_def)
    moreover have "flag_rest (length pre) (at (pre @ []) (f @ t) m) = Inr ([] @ f, at (pre @ [] @ f) t m)"
      by (rule at_flag_rest) (use atom t in \<open>auto simp: is_atom_def\<close>)
    ultimately show ?thesis by (simp add: parse_flag_or_atom_start andthen_def ret_def at_peek)
  next
    case (system a)
    then obtain c cs where "a = c # cs" "c \<noteq> CHR ''*''" by (cases a) (auto simp: is_atom_def is_atom_char_def)
    moreover have "flag_rest (length pre) (at (pre @ [BACKSLASH]) (a @ t) m)
        = Inr ([BACKSLASH] @ a, at (pre @ [BACKSLASH] @ a) t m)"
      by (rule at_flag_rest) (use system t utf8_valid_append [OF esc(1)] in \<open>auto simp: is_atom_def\<close>)
    ultimately show ?thesis using system(1)
      by (simp add: parse_flag_or_atom_start andthen_def at_peek at_try at_skip)
  next
    case star
    have "slice (length pre) (Suc (Suc (length pre))) (pre @ f @ t) = f" using slice_at [of pre f t] star by simp
    with star esc(2) show ?thesis
      by (simp add: parse_flag_or_atom_start andthen_def here_def at_peek at_try at_skip)
  qed
qed

definition print_literal :: "bytes \<Rightarrow> bytes" where
  "print_literal d = [LBRACE] @ dec (length d) @ [RBRACE] @ CRLF @ d"

lemma reads_literal:
  assumes "length d \<le> MAX_LITERAL_SIZE"
  shows "reads 0 parse_literal (print_literal d) d anything"
proof -
  let ?n = "of_nat (length d) :: u32"
  have n: "unat ?n = length d"
    using assms by (simp add: MAX_LITERAL_SIZE_def unat_of_nat)
  have data: "reads 0 (andthen here (\<lambda>s.
       case usize_checked_add (pos s) (length d) of
         None \<Rightarrow> fail Incomplete
       | Some e \<Rightarrow>
           if e > length (input s) then fail Incomplete
           else andthen (skip (length d)) (\<lambda>_. ret (slice (pos s) e (input s))))) d d anything"
    by (auto simp: reads_def andthen_def here_def skip_def ret_def at_forward split: option.splits)
  have "reads 0 parse_literal ([LBRACE] @ print_u32 ?n @ [RBRACE] @ CRLF @ d) d anything"
    unfolding parse_literal_def
  proof (rule reads_then [OF reads_consume_byte reads_then [OF reads_number]])
    show "reads 0 (let n = unat ?n in andthen (consume_byte RBRACE) (\<lambda>_. andthen consume_crlf (\<lambda>_.
        if MAX_LITERAL_SIZE < n then fail (LiteralTooLarge n MAX_LITERAL_SIZE)
        else andthen here (\<lambda>s.
          case usize_checked_add (pos s) n of
            None \<Rightarrow> fail Incomplete
          | Some e \<Rightarrow>
              if length (input s) < e then fail Incomplete
              else andthen (skip n) (\<lambda>_. ret (slice (pos s) e (input s)))))))
        ([RBRACE] @ CRLF @ d) d anything"
      unfolding Let_def n
      by (rule reads_then [OF reads_consume_byte reads_then [OF reads_crlf]])
        (use assms in \<open>simp only: if_False data not_less [symmetric]\<close>, simp_all)
  qed (simp_all add: is_ascii_digit_def)
  then show ?thesis by (simp add: print_literal_def print_u32_def n)
qed

lemma reads_nil: "reads 0 expect_nil ''NIL'' () (starts is_keyword_boundary)"
proof -
  have "expect_nil (at pre (''NIL'' @ t) m) = Inr ((), at (pre @ ''NIL'') t m)"
    if "starts is_keyword_boundary t" "length (pre @ ''NIL'' @ t) < 2 ^ 64" for pre t m
  proof -
    have "kw_hit ''NIL'' (''NIL'' @ t)" using that(1) by (cases t) (auto simp: kw_hit_def zip_all_ci_def)
    then show ?thesis using that(2) at_forward [of pre "''NIL''" t m] by (subst expect_nil_eq) simp_all
  qed
  then show ?thesis by (simp add: reads_def)
qed

text \<open>The section of a body: any text without a closing bracket and without a line break.\<close>

definition is_section :: "bytes \<Rightarrow> bool" where
  "is_section sec \<longleftrightarrow> RBRACK \<notin> set sec \<and> CR \<notin> set sec \<and> LF \<notin> set sec \<and> utf8_valid sec"

lemma at_scan_in_line:
  assumes "list_all (\<lambda>c. \<not> stop c \<and> c \<noteq> CR \<and> c \<noteq> LF) bs" "starts stop t"
  shows "scan_in_line stop msg (at pre (bs @ t) m) = Inr ((), at (pre @ bs) t m)"
  using assms
proof (induction bs arbitrary: pre)
  case Nil
  then show ?case by (cases t) (auto simp: scan_in_line.simps [of _ _ "at _ _ _"] at_peek)
next
  case (Cons b bs)
  then show ?case by (simp add: scan_in_line.simps [of stop msg "at pre (b # bs @ t) m"] at_peek at_step)
qed

lemma reads_section:
  assumes "is_section sec"
  shows "reads 0 (read_until_byte RBRACK) sec sec (starts (\<lambda>c. c = RBRACK))"
  unfolding reads_def
proof (intro allI impI)
  fix pre t m assume t: "starts (\<lambda>c. c = RBRACK) t"
  have scan: "scan_in_line (\<lambda>c. c = RBRACK) msg (at pre (sec @ t) m) = Inr ((), at (pre @ sec) t m)" for msg
    by (rule at_scan_in_line) (use assms t in \<open>auto simp: is_section_def list_all_iff\<close>)
  show "read_until_byte RBRACK (at pre (sec @ t) (0 + m)) = Inr (sec, at (pre @ sec) t m)"
    unfolding read_until_byte_def andthen_here andthen_def [of "scan_in_line _ _"] add_0 scan
    using at_scanned_text [OF _ t, of sec pre m] assms by (simp add: is_section_def)
qed

lemma reads_att_name:
  assumes "list_all (\<lambda>c. \<not> (c = SP \<or> c = LBRACK \<or> c = RPAREN)) nm" "nm \<noteq> []" "utf8_valid nm"
  shows "reads 0 parse_fetch_att_name nm nm (starts (\<lambda>c. c = SP \<or> c = LBRACK \<or> c = RPAREN))"
  unfolding reads_def
proof (intro allI impI)
  fix pre t m assume t: "starts (\<lambda>c. c = SP \<or> c = LBRACK \<or> c = RPAREN) t"
  have scan: "scan_while (\<lambda>c. \<not> (c = SP \<or> c = LBRACK \<or> c = RPAREN)) (at pre (nm @ t) m) = Inr ((), at (pre @ nm) t m)"
    using assms(1) t by (intro at_scan) simp_all
  show "parse_fetch_att_name (at pre (nm @ t) (0 + m)) = Inr (nm, at (pre @ nm) t m)"
    unfolding parse_fetch_att_name_def andthen_here andthen_def [of "scan_while _"] add_0 scan
    using assms(2,3) at_not_eof [OF t] by (simp add: andthen_here)
qed

subsection \<open>Lists\<close>

abbreviation att_end :: "bytes \<Rightarrow> bool" where
  "att_end \<equiv> starts (\<lambda>c. c = SP \<or> c = RPAREN)"

lemma att_end_not_digit: "att_end t \<Longrightarrow> starts (\<lambda>c. \<not> is_ascii_digit c) t"
  and att_end_boundary: "att_end t \<Longrightarrow> starts is_keyword_boundary t"
  and att_end_not_atom: "att_end t \<Longrightarrow> starts (\<lambda>c. \<not> is_atom_char c) t"
  by (cases t; auto simp: is_ascii_digit_def is_keyword_boundary_def is_atom_char_def)+

text \<open>A loop reads what one turn of it reads.\<close>

lemma reads_unroll: "(\<And>s. p s = run s q) \<Longrightarrow> reads k q bs x F \<Longrightarrow> reads k p bs x F"
  by (simp add: reads_def run_def)

lemma reads_peek_if:
  "reads k (q c) bs y F \<Longrightarrow> starts (\<lambda>d. d = c) bs \<Longrightarrow> reads k (andthen peek q) bs y F"
  by (cases bs) (auto simp: reads_def andthen_def at_peek)

text \<open>
  The three list loops of the parser have one shape: an item, the charge for it, then a blank and another item or the
  closing parenthesis.
\<close>

definition list_turn :: "'a parse \<Rightarrow> string \<Rightarrow> ('a list \<Rightarrow> 'a list parse) \<Rightarrow> 'a list \<Rightarrow> 'a list parse" where
  "list_turn item msg loop acc =
     andthen item (\<lambda>x.
     andthen (push_item acc x) (\<lambda>xs.
     andthen peek (\<lambda>c.
     if c = SP then andthen (skip 1) (\<lambda>_. loop xs)
     else if c = RPAREN then andthen (skip 1) (\<lambda>_. ret xs)
     else fail (Malformed msg))))"

lemma reads_list:
  assumes loop: "\<And>acc s. loop acc s = run s (list_turn item msg loop acc)"
    and item: "\<And>x. x \<in> set xs \<Longrightarrow> reads (cost x) item (pr x) x att_end"
  shows "xs \<noteq> [] \<Longrightarrow> reads (length xs + sum_list (map cost xs)) (loop acc) (join [SP] (map pr xs) @ [RPAREN]) (acc @ xs) anything"
  using item
proof (induction xs arbitrary: acc rule: induct_list012)
  case (2 x)
  have close: "reads 0 (andthen (skip 1) (\<lambda>_. ret (acc @ [x]))) [RPAREN] (acc @ [x]) anything"
    by (rule reads_andthen [OF reads_skip reads_ret]) simp_all
  have "reads (cost x + 1) (list_turn item msg loop acc) (pr x @ [RPAREN]) (acc @ [x]) anything"
    unfolding list_turn_def
  proof (rule reads_andthen)
    show "reads (cost x) item (pr x) x att_end" by (rule 2) simp
    show "reads 1 (andthen (push_item acc x) (\<lambda>xs. andthen peek (\<lambda>c.
        if c = SP then andthen (skip 1) (\<lambda>_. loop xs)
        else if c = RPAREN then andthen (skip 1) (\<lambda>_. ret xs)
        else fail (Malformed msg)))) [RPAREN] (acc @ [x]) anything"
      by (rule reads_andthen [OF reads_push_item reads_peek_if [where c = RPAREN]])
        (use close in simp_all)
  qed simp_all
  then show ?case by (auto intro: reads_unroll [OF loop])
next
  case (3 x y xs)
  let ?bs = "join [SP] (map pr (y # xs)) @ [RPAREN]" and ?k = "length (y # xs) + sum_list (map cost (y # xs))"
  have IH: "reads ?k (loop (acc @ [x])) ?bs ((acc @ [x]) @ y # xs) anything" by (rule 3) (simp_all add: 3)
  have "reads (cost x + (1 + ?k)) (list_turn item msg loop acc) (pr x @ [SP] @ ?bs) (acc @ x # y # xs) anything"
    unfolding list_turn_def
  proof (rule reads_andthen)
    show "reads (cost x) item (pr x) x att_end" by (rule 3) simp
    show "reads (1 + ?k) (andthen (push_item acc x) (\<lambda>xs. andthen peek (\<lambda>c.
        if c = SP then andthen (skip 1) (\<lambda>_. loop xs)
        else if c = RPAREN then andthen (skip 1) (\<lambda>_. ret xs)
        else fail (Malformed msg)))) ([SP] @ ?bs) (acc @ x # y # xs) anything"
      by (rule reads_andthen [OF reads_push_item reads_peek_if [where c = SP]])
        (use reads_andthen [OF reads_skip IH] in auto)
  qed simp_all
  then show ?case by (auto intro: reads_unroll [OF loop] simp: add_ac)
qed simp

lemma flag_start: "is_flag f \<Longrightarrow> starts (\<lambda>c. c \<noteq> RPAREN) f"
  by (cases f) (auto simp: is_flag_def is_atom_def is_atom_char_def)

lemma starts_append: "starts P a \<Longrightarrow> starts P (a @ t)"
  by (cases a) auto

lemma starts_join: "xs \<noteq> [] \<Longrightarrow> starts P (hd xs) \<Longrightarrow> starts P (join sep xs)"
  by (induction sep xs rule: join.induct) (auto intro: starts_append)

text \<open>A parenthesised list: empty, or what its loop reads.\<close>

lemma reads_parens:
  assumes "xs \<noteq> [] \<Longrightarrow> reads k (loop []) (join [SP] (map pr xs) @ [RPAREN]) xs anything"
    and "xs \<noteq> [] \<Longrightarrow> starts (\<lambda>c. c \<noteq> RPAREN) (pr (hd xs))" and "xs = [] \<Longrightarrow> k = 0"
  shows "reads k (andthen (consume_byte LPAREN) (\<lambda>_. andthen (try_consume_byte RPAREN) (\<lambda>closed.
     if closed then ret [] else loop []))) ([LPAREN] @ join [SP] (map pr xs) @ [RPAREN]) xs anything"
proof (cases "xs = []")
  case True
  have "reads 0 (andthen (try_consume_byte RPAREN) (\<lambda>closed. if closed then ret [] else loop [])) ([RPAREN] @ []) xs anything"
    by (rule reads_then [OF reads_try]) (simp_all add: True reads_ret)
  with True assms(3) show ?thesis by (intro reads_then [OF reads_consume_byte]) simp_all
next
  case False
  have "reads k (andthen (try_consume_byte RPAREN) (\<lambda>closed. if closed then ret [] else loop []))
      ([] @ join [SP] (map pr xs) @ [RPAREN]) xs anything"
    by (rule reads_then [OF reads_try_not])
      (use False assms(1,2) in \<open>auto intro!: starts_append starts_join simp: hd_map\<close>)
  then show ?thesis by (intro reads_then [OF reads_consume_byte]) simp_all
qed

lemma paren_atom_loop_turn:
  "paren_atom_loop acc s = run s (list_turn parse_flag_or_atom ''expected SP or ) in list'' paren_atom_loop acc)"
  unfolding list_turn_def by (rule paren_atom_loop.simps)

lemma reads_flags:
  assumes "list_all is_flag fs"
  shows "reads (length fs) parse_paren_atom_list ([LPAREN] @ join [SP] fs @ [RPAREN]) fs anything"
proof -
  have "reads (length fs) (paren_atom_loop []) (join [SP] (map id fs) @ [RPAREN]) fs anything" if "fs \<noteq> []"
    using reads_list [OF paren_atom_loop_turn, of fs "\<lambda>_. 0" id "[]"] that assms att_end_not_atom
    by (auto simp: list_all_iff intro: reads_weaken [OF reads_flag])
  moreover have "starts (\<lambda>c. c \<noteq> RPAREN) (id (hd fs))" if "fs \<noteq> []"
    using flag_start that assms by (simp add: list_all_iff)
  ultimately show ?thesis
    unfolding parse_paren_atom_list_def using reads_parens [of fs "length fs" paren_atom_loop id] by simp
qed

subsection \<open>Strings\<close>

lemma reads_map:
  "reads k p bs x F \<Longrightarrow> reads k (andthen p (\<lambda>y. ret (f y))) bs (f x) F"
  by (auto simp: reads_def andthen_def ret_def)

text \<open>A quoted string whose contents need no escape.\<close>

definition quotable :: "bytes \<Rightarrow> bool" where
  "quotable t \<longleftrightarrow> list_all (\<lambda>c. c \<noteq> DQUOTE \<and> c \<noteq> BACKSLASH \<and> c \<noteq> CR \<and> c \<noteq> LF \<and> c \<noteq> NUL) t"

lemma at_quoted_loop:
  assumes "quotable u" "utf8_valid (v @ u)"
  shows "quoted_loop (length pre) (at (pre @ v) (u @ DQUOTE # r) m) = Inr (v @ u, at (pre @ v @ u @ [DQUOTE]) r m)"
  using assms
proof (induction u arbitrary: v)
  case Nil
  have "slice (length pre) (length pre + length v) (pre @ v @ DQUOTE # r) = v" by simp
  with Nil show ?case
    by (subst quoted_loop.simps) (simp add: run_def andthen_def at_peek here_def at_skip ret_def utf8_str_def)
next
  case (Cons c u)
  from Cons.IH [of "v @ [c]"] Cons.prems show ?case
    by (subst quoted_loop.simps) (simp add: run_def andthen_def at_peek at_skip quotable_def)
qed

lemma reads_quoted:
  assumes "quotable t" "utf8_valid t"
  shows "reads 0 parse_quoted ([DQUOTE] @ t @ [DQUOTE]) t anything"
proof -
  have "reads 0 (andthen here (\<lambda>s. quoted_loop (pos s))) (t @ [DQUOTE]) t anything"
    using at_quoted_loop [of t "[]"] assms by (simp add: reads_def andthen_def here_def)
  then show ?thesis unfolding parse_quoted_def by (rule reads_then [OF reads_consume_byte]) simp
qed

text \<open>A string, quoted where that is possible.\<close>

definition is_string :: "bytes \<Rightarrow> bool" where
  "is_string t \<longleftrightarrow> utf8_valid t \<and> length t \<le> MAX_LITERAL_SIZE"

definition print_string :: "bytes \<Rightarrow> bytes" where
  "print_string t = (if quotable t then [DQUOTE] @ t @ [DQUOTE] else print_literal t)"

lemma reads_utf8_str: "utf8_valid t \<Longrightarrow> reads 0 (utf8_str t) [] t anything"
  by (simp add: reads_def utf8_str_def)

lemma reads_astring:
  assumes "is_string t"
  shows "reads 0 parse_astring (print_string t) t anything"
proof (cases "quotable t")
  case True
  with assms show ?thesis
    unfolding parse_astring_def
    by (intro reads_peek_if [where c = DQUOTE]) (simp_all add: print_string_def is_string_def reads_quoted [simplified])
next
  case False
  have "reads 0 (andthen parse_literal utf8_str) (print_literal t @ []) t anything"
    by (rule reads_then [OF reads_literal reads_utf8_str]) (use assms in \<open>simp_all add: is_string_def\<close>)
  with False show ?thesis
    unfolding parse_astring_def
    by (intro reads_peek_if [where c = LBRACE]) (simp_all add: print_string_def, simp add: print_literal_def)
qed

definition print_nstring :: "bytes option \<Rightarrow> bytes" where
  "print_nstring d = (case d of None \<Rightarrow> ''NIL'' | Some t \<Rightarrow> print_string t)"

lemma reads_nstring:
  assumes "case d of None \<Rightarrow> True | Some t \<Rightarrow> is_string t"
  shows "reads 0 parse_nstring (print_nstring d) d (starts is_keyword_boundary)"
proof (cases d)
  case None
  have "reads 0 (andthen expect_nil (\<lambda>_. ret None)) ''NIL'' None (starts is_keyword_boundary)"
    by (rule reads_map [OF reads_nil])
  then show ?thesis
    unfolding parse_nstring_def None print_nstring_def by (intro reads_peek_if [where c = "CHR ''N''"]) simp_all
next
  case (Some t)
  then have t: "utf8_valid t" "length t \<le> MAX_LITERAL_SIZE" using assms by (simp_all add: is_string_def)
  have "reads 0 parse_nstring (print_string t) (Some t) anything"
  proof (cases "quotable t")
    case True
    have "reads 0 (andthen parse_quoted (\<lambda>t. ret (Some t))) ([DQUOTE] @ t @ [DQUOTE]) (Some t) anything"
      by (rule reads_map [OF reads_quoted [OF True t(1)]])
    with True show ?thesis
      unfolding parse_nstring_def by (intro reads_peek_if [where c = DQUOTE]) (simp_all add: print_string_def)
  next
    case False
    have "reads 0 (andthen parse_literal (\<lambda>bs. andthen (utf8_str bs) (\<lambda>t. ret (Some t)))) (print_literal t @ []) (Some t) anything"
    proof (rule reads_then [OF reads_literal [OF t(2)]])
      show "reads 0 (andthen (utf8_str t) (\<lambda>t. ret (Some t))) [] (Some t) anything"
        by (rule reads_map [OF reads_utf8_str [OF t(1)]])
    qed simp
    with False show ?thesis
      unfolding parse_nstring_def
      by (intro reads_peek_if [where c = LBRACE]) (simp_all add: print_string_def, simp add: print_literal_def)
  qed
  then show ?thesis using Some by (auto simp: print_nstring_def intro: reads_weaken)
qed

end
