(* ===== verification/Parser_Values.thy ===== *)
theory Parser_Values
  imports Parser_Reads
begin

text \<open>
  Structured values.  An envelope or a body structure is a parenthesised list of words, strings and lists again; the parser does not look into it and keeps
  its bytes.  It must find the closing parenthesis all the same, with parentheses in quoted strings and in literals on the way: here it is shown
  to consume exactly the value.
\<close>

datatype "value" = WordV bytes | StringV bytes | ListV "value list"

fun print_value :: "value \<Rightarrow> bytes" where
  "print_value (WordV w) = w"
| "print_value (StringV t) = print_string t"
| "print_value (ListV vs) = [LPAREN] @ join [SP] (map print_value vs) @ [RPAREN]"

fun nesting :: "value \<Rightarrow> nat" where
  "nesting (ListV vs) = Suc (fold max (map nesting vs) 0)"
| "nesting _ = 0"

definition is_word :: "bytes \<Rightarrow> bool" where
  "is_word w \<longleftrightarrow> list_all (\<lambda>c. c \<notin> {LPAREN, RPAREN, DQUOTE, LBRACE, CR, LF}) w"

fun plain_value :: "value \<Rightarrow> bool" where
  "plain_value (WordV w) = is_word w"
| "plain_value (StringV t) = is_string t"
| "plain_value (ListV vs) = list_all plain_value vs"

text \<open>At depth \<open>d\<close> the loop passes over the bytes \<open>bs\<close> and is at depth \<open>d\<close> again.\<close>

definition passes :: "u32 \<Rightarrow> bytes \<Rightarrow> bool" where
  "passes d bs \<longleftrightarrow> (\<forall>pre t m. length (pre @ bs @ t) < 2 ^ 64 \<longrightarrow>
     balanced_loop d (at pre (bs @ t) m) = balanced_loop d (at (pre @ bs) t m))"

lemma passes_Nil: "passes d []"
  by (simp add: passes_def)

lemma passes_append: "passes d a \<Longrightarrow> passes d b \<Longrightarrow> passes d (a @ b)"
proof -
  assume a: "passes d a" and b: "passes d b"
  have "balanced_loop d (at pre (a @ b @ t) m) = balanced_loop d (at ((pre @ a) @ b) t m)"
    if "length (pre @ a @ b @ t) < 2 ^ 64" for pre t m
  proof -
    have "balanced_loop d (at pre (a @ b @ t) m) = balanced_loop d (at (pre @ a) (b @ t) m)"
      using a that unfolding passes_def by blast
    also have "\<dots> = balanced_loop d (at ((pre @ a) @ b) t m)"
      using b that unfolding passes_def by (metis append_assoc)
    finally show ?thesis .
  qed
  then show ?thesis by (simp add: passes_def)
qed

lemma passes_byte:
  assumes "c \<notin> {LPAREN, RPAREN, DQUOTE, LBRACE, CR, LF}" "0 < d"
  shows "passes d [c]"
proof -
  have "balanced_loop d (at pre (c # t) m) = balanced_loop d (at (pre @ [c]) t m)" for pre t m
    by (subst balanced_loop.simps) (use assms in \<open>simp add: run_def andthen_def at_peek at_skip\<close>)
  then show ?thesis by (simp add: passes_def)
qed

lemma passes_word: "is_word w \<Longrightarrow> 0 < d \<Longrightarrow> passes d w"
proof (induction w)
  case (Cons c w)
  then show ?case using passes_append [OF passes_byte [of c d], of w] by (simp add: is_word_def)
qed (rule passes_Nil)

lemma passes_read:
  assumes "0 < d" "starts (\<lambda>c. c = b) bs" "b = DQUOTE \<and> reads 0 parse_quoted bs x anything \<or> b = LBRACE \<and> reads 0 parse_literal bs x anything"
  shows "passes d bs"
  unfolding passes_def
proof (intro allI impI)
  fix pre t m assume len: "length (pre @ bs @ t) < 2 ^ 64"
  from assms(2) obtain cs where bs: "bs = b # cs" by (cases bs) auto
  have "reads 0 (if b = DQUOTE then parse_quoted else parse_literal) bs x anything" using assms(3) by auto
  from readsD [OF this _ len, of m] have
    "(if b = DQUOTE then parse_quoted else parse_literal) (at pre (bs @ t) m) = Inr (x, at (pre @ bs) t m)" by simp
  then show "balanced_loop d (at pre (bs @ t) m) = balanced_loop d (at (pre @ bs) t m)"
    using assms(1,3) bs by (subst balanced_loop.simps) (auto simp: run_def andthen_def at_peek split: if_splits)
qed

lemma passes_string: "is_string t \<Longrightarrow> 0 < d \<Longrightarrow> passes d (print_string t)"
proof (cases "quotable t")
  case True
  assume t: "is_string t" "0 < d"
  with True have "reads 0 parse_quoted (print_string t) t anything"
    using reads_quoted [of t] by (simp add: print_string_def is_string_def)
  with t True show ?thesis by (intro passes_read [of d DQUOTE]) (auto simp: print_string_def)
next
  case False
  assume t: "is_string t" "0 < d"
  with False have "reads 0 parse_literal (print_string t) t anything"
    using reads_literal [of t] by (simp add: print_string_def is_string_def)
  with t False show ?thesis by (intro passes_read [of d LBRACE]) (auto simp: print_string_def, simp add: print_literal_def)
qed

lemma passes_list:
  assumes "0 < d" "unat d + 1 < 2 ^ 32" "passes (d + 1) bs"
  shows "passes d ([LPAREN] @ bs @ [RPAREN])"
  unfolding passes_def
proof (intro allI impI)
  fix pre t m assume len: "length (pre @ ([LPAREN] @ bs @ [RPAREN]) @ t) < 2 ^ 64"
  have pos: "0 < d + 1" using assms(1,2) by (simp add: word_less_nat_alt unat_add_lem [THEN iffD1])
  have "balanced_loop d (at pre (LPAREN # bs @ RPAREN # t) m) = balanced_loop (d + 1) (at (pre @ [LPAREN]) (bs @ RPAREN # t) m)"
    by (subst balanced_loop.simps) (use assms(1,2) in \<open>simp add: run_def andthen_def at_peek at_skip u32_checked_add_def\<close>)
  also have "\<dots> = balanced_loop (d + 1) (at ((pre @ [LPAREN]) @ bs) (RPAREN # t) m)"
    using assms(3) len unfolding passes_def by auto
  also have "\<dots> = balanced_loop d (at (pre @ [LPAREN] @ bs @ [RPAREN]) t m)"
    by (subst balanced_loop.simps) (use pos in \<open>simp add: run_def andthen_def at_peek at_skip\<close>)
  finally show "balanced_loop d (at pre (([LPAREN] @ bs @ [RPAREN]) @ t) m) = balanced_loop d (at (pre @ [LPAREN] @ bs @ [RPAREN]) t m)"
    by simp
qed

lemma passes_join: "0 < d \<Longrightarrow> list_all (passes d) bss \<Longrightarrow> passes d (join [SP] bss)"
proof (induction "[SP]" bss rule: join.induct)
  case (3 x y zs)
  then have "passes d ([SP] @ join [SP] (y # zs))" by (intro passes_append passes_byte) simp_all
  with 3 show ?case by (auto intro: passes_append)
qed (simp_all add: passes_Nil)

lemma fold_max_ge: "x \<in> set xs \<Longrightarrow> x \<le> fold max xs (a :: nat)" "a \<le> fold max xs a"
  by (induction xs arbitrary: a) (auto intro: order_trans [OF max.cobounded2] order_trans [OF max.cobounded1])

lemma passes_value:
  "plain_value v \<Longrightarrow> 0 < d \<Longrightarrow> unat d + nesting v < 2 ^ 32 \<Longrightarrow> passes d (print_value v)"
proof (induction v arbitrary: d rule: print_value.induct)
  case (3 vs)
  let ?d = "d + 1"
  have d: "unat ?d = unat d + 1" "0 < ?d"
    using 3(3,4) by (simp_all add: word_less_nat_alt unat_add_lem [THEN iffD1])
  have "passes ?d (print_value v)" if "v \<in> set vs" for v
    using 3(1) [OF that] 3(2,4) fold_max_ge(1) [of "nesting v" "map nesting vs" 0] that d by (simp add: list_all_iff)
  then have "passes ?d (join [SP] (map print_value vs))"
    by (intro passes_join d) (simp add: list_all_iff)
  then show ?case using 3(3,4) by (simp only: print_value.simps) (rule passes_list; simp)
qed (simp_all add: passes_word passes_string)

text \<open>A value that is kept as its bytes, nested no deeper than the parser counts.\<close>

definition is_value :: "bytes \<Rightarrow> bool" where
  "is_value bs \<longleftrightarrow> (\<exists>vs. bs = print_value (ListV vs) \<and> list_all plain_value vs \<and> nesting (ListV vs) < 2 ^ 32)"

lemma reads_value:
  assumes "is_value bs"
  shows "reads 0 parse_balanced_parens bs bs anything"
proof -
  obtain vs where vs: "bs = [LPAREN] @ join [SP] (map print_value vs) @ [RPAREN]" "list_all plain_value vs"
    "nesting (ListV vs) < 2 ^ 32" using assms by (auto simp: is_value_def)
  let ?b = "join [SP] (map print_value vs)"
  have "passes 1 (print_value v)" if "v \<in> set vs" for v
    using vs(2,3) fold_max_ge(1) [of "nesting v" "map nesting vs" 0] that by (intro passes_value) (auto simp: list_all_iff)
  then have body: "passes 1 ?b" by (intro passes_join) (simp_all add: list_all_iff)
  have "parse_balanced_parens (at pre (bs @ t) m) = Inr (bs, at (pre @ bs) t m)" if "length (pre @ bs @ t) < 2 ^ 64" for pre t m
  proof -
    have open_paren: "consume_byte LPAREN (at pre (bs @ t) m) = Inr ((), at (pre @ [LPAREN]) (?b @ RPAREN # t) m)"
      using readsD [OF reads_consume_byte [of LPAREN], of "?b @ RPAREN # t" pre m] that vs(1) by simp
    have "balanced_loop 1 (at (pre @ [LPAREN]) (?b @ RPAREN # t) m) = balanced_loop 1 (at ((pre @ [LPAREN]) @ ?b) (RPAREN # t) m)"
      using body that vs(1) unfolding passes_def by auto
    also have "\<dots> = balanced_loop 0 (at (pre @ bs) t m)"
      by (subst balanced_loop.simps) (simp add: run_def andthen_def at_peek at_skip vs(1))
    also have "\<dots> = Inr ((), at (pre @ bs) t m)"
      by (subst balanced_loop.simps) (simp add: run_def ret_def)
    finally show ?thesis
      unfolding parse_balanced_parens_def andthen_here andthen_def [of "consume_byte LPAREN"] open_paren
      by (simp add: andthen_def ret_def)
  qed
  then show ?thesis by (simp add: reads_def)
qed

end
