(* ===== verification/Parser_Print.thy ===== *)
theory Parser_Print
  imports Parser_Values
begin

text \<open>
  Reading back FETCH data.  The grammar of FETCH attributes is given as a printer, from the
  abstract attributes to the bytes on the wire; the parser is its inverse.  Message data are literals, so they may
  hold any bytes at all, line ends and parentheses included; envelopes and body structures are printed values.
\<close>

subsection \<open>FETCH attributes\<close>

fun print_data :: "bytes option \<Rightarrow> bytes" where
  "print_data None = ''NIL''"
| "print_data (Some d) = print_literal d"

fun print_att :: "fetch_attribute \<Rightarrow> bytes" where
  "print_att (UidAtt n) = ''UID'' @ [SP] @ print_u32 n"
| "print_att (Rfc822SizeAtt n) = ''RFC822.SIZE'' @ [SP] @ print_u32 n"
| "print_att (FlagsAtt fs) = ''FLAGS'' @ [SP] @ [LPAREN] @ join [SP] fs @ [RPAREN]"
| "print_att (Rfc822Att d) = ''RFC822'' @ [SP] @ print_literal d"
| "print_att (Rfc822HeaderAtt d) = ''RFC822.HEADER'' @ [SP] @ print_literal d"
| "print_att (Rfc822TextAtt d) = ''RFC822.TEXT'' @ [SP] @ print_literal d"
| "print_att (BodySectionAtt sec org d) =
     ''BODY'' @ [LBRACK] @ (case sec of None \<Rightarrow> [] | Some x \<Rightarrow> x) @ [RBRACK] @
     (case org of None \<Rightarrow> [] | Some n \<Rightarrow> [CHR ''<''] @ print_u32 n @ [CHR ''>'']) @ [SP] @ print_data d"
| "print_att (InternalDateAtt t) = ''INTERNALDATE'' @ [SP] @ [DQUOTE] @ t @ [DQUOTE]"
| "print_att (EnvelopeAtt bs) = ''ENVELOPE'' @ [SP] @ bs"
| "print_att (BodyAtt bs) = ''BODY'' @ [SP] @ bs"
| "print_att (BodyStructureAtt bs) = ''BODYSTRUCTURE'' @ [SP] @ bs"

text \<open>The attributes a server may send.\<close>

fun plain_att :: "fetch_attribute \<Rightarrow> bool" where
  "plain_att (UidAtt n) = True"
| "plain_att (Rfc822SizeAtt n) = True"
| "plain_att (FlagsAtt fs) = list_all is_flag fs"
| "plain_att (Rfc822Att d) = (length d \<le> MAX_LITERAL_SIZE)"
| "plain_att (Rfc822HeaderAtt d) = (length d \<le> MAX_LITERAL_SIZE)"
| "plain_att (Rfc822TextAtt d) = (length d \<le> MAX_LITERAL_SIZE)"
| "plain_att (BodySectionAtt sec org d) =
     ((case sec of None \<Rightarrow> True | Some x \<Rightarrow> x \<noteq> [] \<and> is_section x)
      \<and> (case d of None \<Rightarrow> True | Some x \<Rightarrow> length x \<le> MAX_LITERAL_SIZE))"
| "plain_att (InternalDateAtt t) = (quotable t \<and> utf8_valid t)"
| "plain_att (EnvelopeAtt bs) = is_value bs"
| "plain_att (BodyAtt bs) = is_value bs"
| "plain_att (BodyStructureAtt bs) = is_value bs"

lemmas att_name_simps = fetch_att_for_def eq_ignore_ascii_case_def byte_eq_ci_def to_ascii_lowercase_def
  is_ascii_uppercase_def

lemma fetch_att_for_names:
  "fetch_att_for ''INTERNALDATE'' = andthen consume_sp (\<lambda>_. andthen parse_quoted (\<lambda>t. ret (InternalDateAtt t)))"
  "fetch_att_for ''ENVELOPE'' = andthen consume_sp (\<lambda>_. andthen parse_balanced_parens (\<lambda>b. ret (EnvelopeAtt b)))"
  "fetch_att_for ''BODYSTRUCTURE'' = andthen consume_sp (\<lambda>_. andthen parse_balanced_parens (\<lambda>b. ret (BodyStructureAtt b)))"
  "fetch_att_for ''UID'' = andthen consume_sp (\<lambda>_. andthen parse_number (\<lambda>n. ret (UidAtt n)))"
  "fetch_att_for ''FLAGS'' = andthen consume_sp (\<lambda>_. andthen parse_paren_atom_list (\<lambda>fs. ret (FlagsAtt fs)))"
  "fetch_att_for ''RFC822.SIZE'' = andthen consume_sp (\<lambda>_. andthen parse_number (\<lambda>n. ret (Rfc822SizeAtt n)))"
  "fetch_att_for ''RFC822'' = andthen consume_sp (\<lambda>_. andthen parse_nstring_bytes (\<lambda>b. ret (Rfc822Att b)))"
  "fetch_att_for ''RFC822.HEADER'' = andthen consume_sp (\<lambda>_. andthen parse_nstring_bytes (\<lambda>b. ret (Rfc822HeaderAtt b)))"
  "fetch_att_for ''RFC822.TEXT'' = andthen consume_sp (\<lambda>_. andthen parse_nstring_bytes (\<lambda>b. ret (Rfc822TextAtt b)))"
  "fetch_att_for ''BODY'' = andthen (try_consume_byte LBRACK) (\<lambda>bracket.
        if bracket then parse_body_section
        else andthen consume_sp (\<lambda>_. andthen parse_balanced_parens (\<lambda>b. ret (BodyAtt b))))"
  by (simp_all add: att_name_simps)

lemma reads_nstring_literal:
  "length d \<le> MAX_LITERAL_SIZE \<Longrightarrow> reads 0 parse_nstring_bytes (print_literal d) d anything"
  unfolding parse_nstring_bytes_def
  by (rule reads_peek_if [where c = LBRACE]) (simp_all add: reads_literal, simp add: print_literal_def)

lemma reads_data:
  assumes "case d of None \<Rightarrow> True | Some x \<Rightarrow> length x \<le> MAX_LITERAL_SIZE"
  shows "reads 0 parse_nstring_bytes_optional (print_data d) d att_end"
proof (cases d)
  case None
  have "reads 0 (andthen expect_nil (\<lambda>_. ret None)) ''NIL'' None att_end"
    by (rule reads_map, rule reads_weaken [OF reads_nil]) (rule att_end_boundary)
  then show ?thesis
    unfolding parse_nstring_bytes_optional_def None by (intro reads_peek_if [where c = "CHR ''N''"]) simp_all
next
  case (Some x)
  then have "reads 0 (andthen parse_literal (\<lambda>d. ret (Some d))) (print_literal x) (Some x) att_end"
    using assms by (intro reads_map reads_weaken [OF reads_literal]) simp_all
  then show ?thesis
    unfolding parse_nstring_bytes_optional_def Some
    by (intro reads_peek_if [where c = LBRACE]) (simp_all, simp add: print_literal_def)
qed

definition print_origin :: "u32 option \<Rightarrow> bytes" where
  "print_origin org = (case org of None \<Rightarrow> [] | Some n \<Rightarrow> [CHR ''<''] @ print_u32 n @ [CHR ''>''])"

lemma reads_origin:
  "reads 0 (andthen (try_consume_byte (CHR ''<'')) (\<lambda>partial.
     if partial then andthen parse_number (\<lambda>n. andthen (consume_byte (CHR ''>'')) (\<lambda>_. ret (Some n)))
     else ret None)) (print_origin org) org (starts (\<lambda>c. c = SP))"
proof (cases org)
  case None
  show ?thesis
    unfolding None print_origin_def by (rule reads_andthen [OF reads_try_not reads_weaken]) (auto intro: reads_ret simp: starts_def)
next
  case (Some n)
  have "reads 0 (andthen parse_number (\<lambda>n. andthen (consume_byte (CHR ''>'')) (\<lambda>_. ret (Some n))))
      (print_u32 n @ [CHR ''>'']) (Some n) (starts (\<lambda>c. c = SP))"
    by (rule reads_then [OF reads_number reads_weaken [OF reads_map [OF reads_consume_byte]]])
      (simp_all add: is_ascii_digit_def)
  then show ?thesis
    unfolding Some print_origin_def option.case by (intro reads_then [OF reads_try]) simp_all
qed

lemma parse_body_section_assoc:
  "parse_body_section =
     andthen (read_until_byte RBRACK) (\<lambda>section.
     andthen (consume_byte RBRACK) (\<lambda>_.
     andthen (andthen (try_consume_byte (CHR ''<'')) (\<lambda>partial.
        if partial then andthen parse_number (\<lambda>n. andthen (consume_byte (CHR ''>'')) (\<lambda>_. ret (Some n)))
        else ret None)) (\<lambda>origin.
     andthen consume_sp (\<lambda>_.
     andthen parse_nstring_bytes_optional (\<lambda>data.
     ret (BodySectionAtt (if section = [] then None else Some section) origin data))))))"
  unfolding parse_body_section_def andthen_assoc ..

lemma reads_body_section:
  assumes "is_section sec" "case d of None \<Rightarrow> True | Some x \<Rightarrow> length x \<le> MAX_LITERAL_SIZE"
  shows "reads 0 parse_body_section (sec @ [RBRACK] @ print_origin org @ [SP] @ print_data d)
    (BodySectionAtt (if sec = [] then None else Some sec) org d) att_end"
  unfolding parse_body_section_assoc
  by (rule reads_then [OF reads_section [OF assms(1)] reads_then [OF reads_consume_byte
        reads_then [OF reads_origin reads_then [OF reads_consume_sp reads_map [OF reads_data [OF assms(2)]]]]]])
    simp_all

lemma reads_one_fetch_att:
  assumes "reads k (fetch_att_for nm) bs a att_end" "list_all (\<lambda>c. \<not> (c = SP \<or> c = LBRACK \<or> c = RPAREN)) nm"
    "nm \<noteq> []" "is_ascii nm" "starts (\<lambda>c. c = SP \<or> c = LBRACK) bs"
  shows "reads k parse_one_fetch_att (nm @ bs) a att_end"
  unfolding parse_one_fetch_att_def
proof (rule reads_then)
  show "reads 0 parse_fetch_att_name nm nm (starts (\<lambda>c. c = SP \<or> c = LBRACK \<or> c = RPAREN))"
    by (rule reads_att_name) (use assms in auto)
  show "starts (\<lambda>c. c = SP \<or> c = LBRACK \<or> c = RPAREN) (bs @ t)" for t using assms(5) by (cases bs) auto
qed (rule assms(1))

lemma reads_att:
  assumes "plain_att a"
  shows "reads (att_items a) parse_one_fetch_att (print_att a) a att_end"
proof -
  have sp: "reads k (andthen consume_sp (\<lambda>_. p)) ([SP] @ bs) x att_end" if "reads k p bs x att_end" for k p bs and x :: fetch_attribute
    by (rule reads_then [OF reads_consume_sp that]) simp
  have num: "reads 0 (andthen consume_sp (\<lambda>_. andthen parse_number (\<lambda>n. ret (f n)))) ([SP] @ print_u32 n) (f n) att_end"
    for n and f :: "u32 \<Rightarrow> fetch_attribute"
    by (rule sp, rule reads_map, rule reads_weaken [OF reads_number]) (rule att_end_not_digit)
  have lit: "reads 0 (andthen consume_sp (\<lambda>_. andthen parse_nstring_bytes (\<lambda>n. ret (f n)))) ([SP] @ print_literal d) (f d) att_end"
    if "length d \<le> MAX_LITERAL_SIZE" for d and f :: "bytes \<Rightarrow> fetch_attribute"
    by (rule sp, rule reads_map, rule reads_weaken [OF reads_nstring_literal [OF that]]) simp
  have val: "reads 0 (andthen consume_sp (\<lambda>_. andthen parse_balanced_parens (\<lambda>n. ret (f n)))) ([SP] @ bs) (f bs) att_end"
    if "is_value bs" for bs and f :: "bytes \<Rightarrow> fetch_attribute"
    by (rule sp, rule reads_map, rule reads_weaken [OF reads_value [OF that]]) simp
  have date: "reads 0 (andthen consume_sp (\<lambda>_. andthen parse_quoted (\<lambda>n. ret (f n)))) ([SP] @ [DQUOTE] @ t @ [DQUOTE]) (f t) att_end"
    if "quotable t" "utf8_valid t" for t and f :: "bytes \<Rightarrow> fetch_attribute"
    by (rule sp, rule reads_map, rule reads_weaken [OF reads_quoted [OF that]]) simp
  note rule = reads_one_fetch_att [unfolded is_ascii_def]
  show ?thesis
  proof (cases a)
    case (FlagsAtt fs)
    have "reads (length fs) (fetch_att_for ''FLAGS'') ([SP] @ [LPAREN] @ join [SP] fs @ [RPAREN]) (FlagsAtt fs) att_end"
      unfolding fetch_att_for_names
      by (rule sp, rule reads_map, rule reads_weaken [OF reads_flags]) (use assms FlagsAtt in simp_all)
    then show ?thesis by (simp only: FlagsAtt print_att.simps att_items.simps) (rule rule; simp)
  next
    case (BodySectionAtt sec org d)
    let ?s = "case sec of None \<Rightarrow> [] | Some x \<Rightarrow> x"
    have s: "is_section ?s" "sec = (if ?s = [] then None else Some ?s)"
      using assms BodySectionAtt by (auto simp: is_section_def split: option.splits)
    have "reads 0 (fetch_att_for ''BODY'') ([LBRACK] @ ?s @ [RBRACK] @ print_origin org @ [SP] @ print_data d)
        (BodySectionAtt sec org d) att_end"
      unfolding fetch_att_for_names
      by (rule reads_then [OF reads_try], use s reads_body_section [OF s(1), of d org] assms BodySectionAtt in simp_all)
    then show ?thesis
      by (simp only: BodySectionAtt print_att.simps att_items.simps print_origin_def) (rule rule; simp)
  next
    case (BodyAtt bs)
    have "reads 0 (andthen (try_consume_byte LBRACK) (\<lambda>bracket. if bracket then parse_body_section
        else andthen consume_sp (\<lambda>_. andthen parse_balanced_parens (\<lambda>b. ret (BodyAtt b))))) ([] @ [SP] @ bs) (BodyAtt bs) att_end"
      by (rule reads_then [OF reads_try_not]) (use val [of bs BodyAtt] assms BodyAtt in simp_all)
    then have "reads 0 (fetch_att_for ''BODY'') ([SP] @ bs) (BodyAtt bs) att_end" by (simp add: fetch_att_for_names)
    then show ?thesis by (simp only: BodyAtt print_att.simps att_items.simps) (rule rule; simp)
  qed (use assms in \<open>simp_all only: plain_att.simps print_att.simps att_items.simps\<close>,
      (rule rule; simp add: fetch_att_for_names num [simplified] lit [simplified] val [simplified] date [simplified])+)
qed

subsection \<open>FETCH data\<close>

lemma fetch_att_loop_turn:
  "fetch_att_loop acc s = run s (list_turn parse_one_fetch_att ''expected SP or ) in FETCH atts'' fetch_att_loop acc)"
  unfolding list_turn_def by (rule fetch_att_loop.simps)

lemma att_start: "plain_att a \<Longrightarrow> starts (\<lambda>c. c \<noteq> RPAREN) (print_att a)"
  by (cases a) auto

lemma reads_msg_att:
  assumes "list_all plain_att atts"
  shows "reads (data_items (FetchData n atts)) parse_fetch_msg_att
    ([LPAREN] @ join [SP] (map print_att atts) @ [RPAREN]) atts anything"
proof -
  have "reads (data_items (FetchData n atts)) (fetch_att_loop []) (join [SP] (map print_att atts) @ [RPAREN]) atts anything"
    if "atts \<noteq> []"
    using reads_list [OF fetch_att_loop_turn, of atts att_items print_att "[]"] that assms
    by (auto simp: list_all_iff intro: reads_att)
  moreover have "starts (\<lambda>c. c \<noteq> RPAREN) (print_att (hd atts))" if "atts \<noteq> []"
    using that assms by (intro att_start) (simp add: list_all_iff)
  ultimately show ?thesis
    unfolding parse_fetch_msg_att_def by (intro reads_parens) simp_all
qed

lemma is_atom_fetch: "is_atom ''FETCH''"
  by (auto simp: is_atom_def is_atom_char_def intro!: utf8_valid_ascii simp: is_ascii_def)

lemma reads_numeric_fetch:
  assumes "list_all plain_att atts"
  shows "reads (data_items (FetchData n atts)) parse_numeric_data_response
    (print_u32 n @ [SP] @ ''FETCH'' @ [SP] @ ([LPAREN] @ join [SP] (map print_att atts) @ [RPAREN]) @ CRLF)
    (DataResp (FetchData n atts)) anything" (is "reads ?k _ (_ @ _ @ _ @ _ @ ?atts @ CRLF) _ _")
proof -
  have is_fetch: "eq_ignore_ascii_case ''FETCH'' ''EXISTS'' = False" "eq_ignore_ascii_case ''FETCH'' ''RECENT'' = False"
    "eq_ignore_ascii_case ''FETCH'' ''EXPUNGE'' = False" "eq_ignore_ascii_case ''FETCH'' ''FETCH'' = True"
    by (simp_all add: eq_ignore_ascii_case_def byte_eq_ci_def)
  have body: "reads ?k (andthen parse_fetch_msg_att (\<lambda>as. andthen consume_crlf (\<lambda>_. ret (DataResp (FetchData n as)))))
      (?atts @ CRLF) (DataResp (FetchData n atts)) anything"
    by (rule reads_andthen [OF reads_msg_att [OF assms] reads_map [OF reads_crlf]]) simp_all
  show ?thesis
    unfolding parse_numeric_data_response_def
  proof (rule reads_then [OF reads_number reads_then [OF reads_consume_sp reads_then [OF reads_atom [OF is_atom_fetch]]]])
    show "reads ?k (if eq_ignore_ascii_case ''FETCH'' ''EXISTS'' then andthen consume_crlf (\<lambda>_. ret (DataResp (ExistsData n)))
       else if eq_ignore_ascii_case ''FETCH'' ''RECENT'' then andthen consume_crlf (\<lambda>_. ret (DataResp (RecentData n)))
       else if eq_ignore_ascii_case ''FETCH'' ''EXPUNGE'' then andthen consume_crlf (\<lambda>_. ret (DataResp (ExpungeData n)))
       else if eq_ignore_ascii_case ''FETCH'' ''FETCH'' then
         andthen consume_sp (\<lambda>_. andthen parse_fetch_msg_att (\<lambda>attributes.
           andthen consume_crlf (\<lambda>_. ret (DataResp (FetchData n attributes)))))
       else finish_other_data_with_prefix n ''FETCH'') ([SP] @ ?atts @ CRLF) (DataResp (FetchData n atts)) anything"
      unfolding is_fetch if_False if_True
      by (rule reads_then [OF reads_consume_sp body]) simp
  qed (simp_all add: is_ascii_digit_def is_atom_char_def)
qed

end
