(* ===== verification/Framing.thy ===== *)
theory Framing
  imports Parser_Props
begin

text \<open>
  The interface between the parser and the loops that read a connection.  A reader keeps a
  buffer, cuts whole responses off its front and waits for more bytes when the parser says
  \<open>Incomplete\<close>.  The locale states what such a reader needs of its parser; from it follows that
  the responses cut off depend on the bytes received and not on how they were cut into reads.
  The parser of \<^verbatim>\<open>imap-core\<close> provides the interface.
\<close>

text \<open>
  All responses at the front of a buffer with the bytes they were cut from, what is left, and
  the error that stopped it, if any.
\<close>

function split_frames ::
  "(bytes \<Rightarrow> parse_error + bytes \<times> 'r) \<Rightarrow> bytes \<Rightarrow> (bytes \<times> 'r) list \<times> bytes \<times> parse_error option" where
  "split_frames parse buf =
     (case parse buf of
        Inl e \<Rightarrow> ([], buf, if hard e then Some e else None)
      | Inr (rest, r) \<Rightarrow>
          if length rest < length buf then
            (case split_frames parse rest of
               (fs, left, err) \<Rightarrow> ((take (length buf - length rest) buf, r) # fs, left, err))
          else ([], buf, None))"
  by pat_completeness auto
termination
  by (relation "measure (\<lambda>(parse, buf). length buf)") auto

declare split_frames.simps [simp del]

text \<open>One read: the new bytes are appended and everything complete is cut off.\<close>

definition feed ::
  "(bytes \<Rightarrow> parse_error + bytes \<times> 'r) \<Rightarrow> bytes \<Rightarrow> (bytes \<times> 'r) list \<times> bytes \<times> parse_error option
     \<Rightarrow> (bytes \<times> 'r) list \<times> bytes \<times> parse_error option" where
  "feed parse chunk st =
     (case st of
        (fs, buf, Some e) \<Rightarrow> (fs, buf, Some e)
      | (fs, buf, None) \<Rightarrow>
          (case split_frames parse (buf @ chunk) of (gs, left, err) \<Rightarrow> (fs @ gs, left, err)))"

lemma feed_simps:
  "feed parse chunk (fs, buf, Some e) = (fs, buf, Some e)"
  "split_frames parse (buf @ chunk) = (gs, left, err) \<Longrightarrow>
   feed parse chunk (fs, buf, None) = (fs @ gs, left, err)"
  by (simp_all add: feed_def)

locale incremental_parser =
  fixes parse :: "bytes \<Rightarrow> parse_error + bytes \<times> 'r"
  assumes stable: "parse b = Inr (rest, r) \<Longrightarrow> parse (b @ t) = Inr (rest @ t, r)"
    and reject: "parse b = Inl e \<Longrightarrow> hard e \<Longrightarrow> \<exists>e'. parse (b @ t) = Inl e' \<and> hard e'"
    and progress: "parse b = Inr (rest, r) \<Longrightarrow> \<exists>f. f \<noteq> [] \<and> b = f @ rest"
    and empty: "parse [] = Inl Incomplete"
begin

lemma shorter: "parse b = Inr (rest, r) \<Longrightarrow> length rest < length b"
  using progress by fastforce

lemma split_stop: "parse b = Inl e \<Longrightarrow> split_frames parse b = ([], b, if hard e then Some e else None)"
  by (subst split_frames.simps) simp

lemma split_frame:
  "parse b = Inr (rest, r) \<Longrightarrow> split_frames parse b =
     (case split_frames parse rest of
        (fs, left, err) \<Rightarrow> ((take (length b - length rest) b, r) # fs, left, err))"
  by (subst split_frames.simps) (simp add: shorter)

text \<open>The frames and the remainder are the buffer, cut into pieces.\<close>

lemma split_concat: "split_frames parse b = (fs, left, err) \<Longrightarrow> concat (map fst fs) @ left = b"
proof (induction b arbitrary: fs rule: length_induct)
  case (1 b)
  show ?case
  proof (cases "parse b")
    case (Inl e)
    with 1 show ?thesis by (simp add: split_stop)
  next
    case (Inr p)
    then obtain rest r where p: "parse b = Inr (rest, r)" by (cases p) auto
    obtain f where f: "b = f @ rest" using progress [OF p] by blast
    obtain gs where gs: "split_frames parse rest = (gs, left, err)" "fs = (f, r) # gs"
      using "1.prems" split_frame [OF p] f by (auto split: prod.splits)
    with "1.IH" shorter [OF p] have "concat (map fst gs) @ left = rest" by blast
    with gs f show ?thesis by simp
  qed
qed

text \<open>What is left has no complete response at its front.\<close>

lemma split_left: "split_frames parse b = (fs, left, None) \<Longrightarrow> \<exists>e. parse left = Inl e \<and> \<not> hard e"
proof (induction b arbitrary: fs rule: length_induct)
  case (1 b)
  show ?case
  proof (cases "parse b")
    case (Inl e)
    with "1.prems" show ?thesis by (auto simp: split_stop split: if_splits)
  next
    case (Inr p)
    then obtain rest r where p: "parse b = Inr (rest, r)" by (cases p) auto
    with "1.prems" "1.IH" shorter [OF p] show ?thesis
      by (auto simp: split_frame split: prod.splits)
  qed
qed

text \<open>More bytes: the frames found before stay, and the search goes on in what was left.\<close>

lemma split_extend:
  "split_frames parse b = (fs, left, None) \<Longrightarrow>
   split_frames parse (b @ t) =
     (case split_frames parse (left @ t) of (gs, left', err) \<Rightarrow> (fs @ gs, left', err))"
proof (induction b arbitrary: fs rule: length_induct)
  case (1 b)
  show ?case
  proof (cases "parse b")
    case (Inl e)
    with "1.prems" show ?thesis by (auto simp: split_stop split: if_splits prod.splits)
  next
    case (Inr p)
    then obtain rest r where p: "parse b = Inr (rest, r)" by (cases p) auto
    obtain gs where gs: "split_frames parse rest = (gs, left, None)"
      "fs = (take (length b - length rest) b, r) # gs"
      using "1.prems" split_frame [OF p] by (auto split: prod.splits)
    from "1.IH" shorter [OF p] gs(1)
    have "split_frames parse (rest @ t) =
        (case split_frames parse (left @ t) of (hs, left', err) \<Rightarrow> (gs @ hs, left', err))" by blast
    with gs(2) shorter [OF p] split_frame [OF stable [OF p]] show ?thesis
      by (simp split: prod.splits)
  qed
qed

text \<open>After a rejection the frames before it stay the same and the rejection stands.\<close>

lemma split_reject:
  "split_frames parse b = (fs, left, Some e) \<Longrightarrow>
   \<exists>left' e'. split_frames parse (b @ t) = (fs, left', Some e')"
proof (induction b arbitrary: fs rule: length_induct)
  case (1 b)
  show ?case
  proof (cases "parse b")
    case (Inl e1)
    with "1.prems" have "hard e1" "fs = []" by (auto simp: split_stop split: if_splits)
    with reject [OF Inl, of t] show ?thesis by (auto simp: split_stop)
  next
    case (Inr p)
    then obtain rest r where p: "parse b = Inr (rest, r)" by (cases p) auto
    obtain gs where gs: "split_frames parse rest = (gs, left, Some e)"
      "fs = (take (length b - length rest) b, r) # gs"
      using "1.prems" split_frame [OF p] by (auto split: prod.splits)
    from "1.IH" shorter [OF p] gs(1) obtain left' e' where
      "split_frames parse (rest @ t) = (gs, left', Some e')" by blast
    with gs(2) shorter [OF p] split_frame [OF stable [OF p]] show ?thesis by simp
  qed
qed

text \<open>
  Reading in chunks: as long as nothing was rejected the state of the reader is what one read of
  everything gives; after a rejection the frames are still those of one read of everything.
\<close>

lemma feed_chunks:
  "case fold (feed parse) chunks ([], [], None) of
     (fs, left, None) \<Rightarrow> split_frames parse (concat chunks) = (fs, left, None)
   | (fs, left, Some e) \<Rightarrow> \<exists>left' e'. split_frames parse (concat chunks) = (fs, left', Some e')"
proof (induction chunks rule: rev_induct)
  case Nil
  show ?case using split_stop [OF empty] by (simp add: hard_def)
next
  case (snoc c chunks)
  obtain fs left err where st: "fold (feed parse) chunks ([], [], None) = (fs, left, err)"
    by (cases "fold (feed parse) chunks ([], [], None)") auto
  show ?case
  proof (cases err)
    case None
    with snoc st have whole: "split_frames parse (concat chunks) = (fs, left, None)" by simp
    obtain gs left' err' where more: "split_frames parse (left @ c) = (gs, left', err')"
      by (cases "split_frames parse (left @ c)") auto
    with split_extend [OF whole, of c] st None show ?thesis
      by (cases err') (simp_all add: feed_simps(2))
  next
    case (Some e)
    with snoc st obtain left1 e1 where "split_frames parse (concat chunks) = (fs, left1, Some e1)"
      by auto
    from split_reject [OF this, of c] st Some show ?thesis by (auto simp: feed_simps(1))
  qed
qed

end

interpretation imap: incremental_parser parse_response
proof
  fix b rest t :: bytes and r :: response and e :: parse_error
  show "parse_response b = Inr (rest, r) \<Longrightarrow> parse_response (b @ t) = Inr (rest @ t, r)"
    by (rule parse_response_extend)
  show "parse_response b = Inl e \<Longrightarrow> hard e \<Longrightarrow> \<exists>e'. parse_response (b @ t) = Inl e' \<and> hard e'"
    by (rule parse_response_reject)
  show "parse_response b = Inr (rest, r) \<Longrightarrow> \<exists>f. f \<noteq> [] \<and> b = f @ rest"
    by (erule parse_response_frame) (metis append_assoc append_is_Nil_conv list.distinct(1))
  show "parse_response [] = Inl Incomplete"
    by (rule parse_response_Nil)
qed

end
