(* ===== verification/Response_Print.thy ===== *)
theory Response_Print
  imports Parser_Print Framing
begin

text \<open>
  Reading back whole responses.  The printer of FETCH data is extended to status responses with their
  response codes, to continuation requests and to the other data responses; the parser inverts it.
\<close>

subsection \<open>Tags and texts\<close>

definition is_tag :: "bytes \<Rightarrow> bool" where
  "is_tag t \<longleftrightarrow> starts (\<lambda>c. c \<noteq> CHR ''+'' \<and> c \<noteq> CHR ''*'') t \<and> list_all (\<lambda>c. \<not> (c = SP \<or> c = CR \<or> c = LF)) t \<and> utf8_valid t"

lemma reads_tag: "is_tag t \<Longrightarrow> reads 0 parse_tag t t (starts (\<lambda>c. c = SP))"
proof -
  assume tag: "is_tag t"
  have "parse_tag (at pre (t @ r) m) = Inr (t, at (pre @ t) r m)" if r: "starts (\<lambda>c. c = SP) r" for pre r m
  proof -
    have scan: "scan_while (\<lambda>c. \<not> (c = SP \<or> c = CR \<or> c = LF)) (at pre (t @ r) m) = Inr ((), at (pre @ t) r m)"
      by (rule at_scan) (use tag r in \<open>auto simp: is_tag_def starts_def\<close>)
    show ?thesis
      unfolding parse_tag_def andthen_here andthen_def [of "scan_while _"] scan
      using tag at_scanned_text [OF _ r, of t pre m] by (auto simp: is_tag_def andthen_here)
  qed
  then show ?thesis by (simp add: reads_def)
qed

definition is_text :: "bytes \<Rightarrow> bool" where
  "is_text t \<longleftrightarrow> list_all (\<lambda>c. \<not> (c = CR \<or> c = LF)) t \<and> utf8_valid t"

abbreviation line_end :: "bytes \<Rightarrow> bool" where
  "line_end \<equiv> starts (\<lambda>c. c = CR)"

lemma reads_text: "is_text t \<Longrightarrow> reads 0 parse_text t t line_end"
proof -
  assume line: "is_text t"
  have "parse_text (at pre (t @ r) m) = Inr (t, at (pre @ t) r m)" if r: "line_end r" for pre r m
  proof -
    have scan: "scan_while (\<lambda>c. \<not> (c = CR \<or> c = LF)) (at pre (t @ r) m) = Inr ((), at (pre @ t) r m)"
      by (rule at_scan) (use line r in \<open>auto simp: is_text_def starts_def\<close>)
    show ?thesis
      unfolding parse_text_def andthen_here andthen_def [of "scan_while _"] scan
      using line at_scanned_text [OF _ r, of t pre m] by (simp add: is_text_def)
  qed
  then show ?thesis by (simp add: reads_def)
qed

subsection \<open>Status keywords\<close>

fun print_status :: "status \<Rightarrow> bytes" where
  "print_status PreAuth = ''PREAUTH''"
| "print_status Ok = ''OK''"
| "print_status No = ''NO''"
| "print_status Bad = ''BAD''"
| "print_status Bye = ''BYE''"

lemma kw_hit_self: "starts is_keyword_boundary t \<Longrightarrow> kw_hit kw (kw @ t)"
  by (cases t) (auto simp: kw_hit_def zip_all_ci_iff nth_append byte_eq_ci_def)

lemma reads_keyword: "reads 0 (try_consume_keyword_ci kw) kw True (starts (\<lambda>c. c = SP))"
proof -
  have "try_consume_keyword_ci kw (at pre (kw @ t) m) = Inr (True, at (pre @ kw) t m)"
    if "starts (\<lambda>c. c = SP) t" "length (pre @ kw @ t) < 2 ^ 64" for pre t m
  proof -
    have "kw_hit kw (kw @ t)" using that(1) by (intro kw_hit_self) (auto simp: starts_def is_keyword_boundary_def)
    then show ?thesis using that(2) at_forward [of pre kw t m] by (subst try_consume_keyword_ci_eq) simp_all
  qed
  then show ?thesis by (simp add: reads_def)
qed

lemma reads_other_keyword:
  assumes "\<And>t. \<not> kw_hit kw (w @ SP # t)"
  shows "reads 0 (try_consume_keyword_ci kw) [] False (\<lambda>t. \<exists>r. t = w @ SP # r)"
proof -
  have "try_consume_keyword_ci kw (at pre (w @ SP # r) m) = Inr (False, at pre (w @ SP # r) m)" for pre r m
    by (subst try_consume_keyword_ci_eq) (use assms in simp_all)
  then show ?thesis by (auto simp: reads_def)
qed

lemma kw_miss:
  "\<not> kw_hit ''PREAUTH'' (''OK'' @ SP # t)" "\<not> kw_hit ''PREAUTH'' (''NO'' @ SP # t)" "\<not> kw_hit ''OK'' (''NO'' @ SP # t)"
  "\<not> kw_hit ''PREAUTH'' (''BAD'' @ SP # t)" "\<not> kw_hit ''OK'' (''BAD'' @ SP # t)" "\<not> kw_hit ''NO'' (''BAD'' @ SP # t)"
  "\<not> kw_hit ''PREAUTH'' (''BYE'' @ SP # t)" "\<not> kw_hit ''OK'' (''BYE'' @ SP # t)" "\<not> kw_hit ''NO'' (''BYE'' @ SP # t)"
  "\<not> kw_hit ''BAD'' (''BYE'' @ SP # t)"
  by (simp_all add: kw_hit_def zip_all_ci_def byte_eq_ci_def to_ascii_lowercase_def is_ascii_uppercase_def)

lemma reads_status: "reads 0 try_parse_status_keyword (print_status st) (Some st) (starts (\<lambda>c. c = SP))"
proof -
  have miss: "reads 0 (andthen (try_consume_keyword_ci kw) (\<lambda>b. if b then q else p)) w y (starts (\<lambda>c. c = SP))"
    if "\<And>t. \<not> kw_hit kw (w @ SP # t)" "reads 0 p w y (starts (\<lambda>c. c = SP))" for kw w p q and y :: "status option"
  proof -
    have "\<exists>r. w @ t = w @ SP # r" if "starts (\<lambda>c. c = SP) t" for t using that by (cases t) auto
    then show ?thesis by (intro reads_andthen [OF reads_other_keyword [OF that(1)]]) (use that(2) in auto)
  qed
  have hit: "reads 0 (andthen (try_consume_keyword_ci kw) (\<lambda>b. if b then ret x else p)) kw x (starts (\<lambda>c. c = SP))"
    for kw p and x :: "status option"
    by (rule reads_andthen [OF reads_keyword]) (auto simp: reads_def ret_def)
  show ?thesis
    unfolding try_parse_status_keyword_def
    by (cases st; simp only: print_status.simps; ((rule miss, rule kw_miss)+)?; rule hit)
qed

subsection \<open>Response codes\<close>

definition print_words :: "bytes list \<Rightarrow> bytes" where
  "print_words ws = concat (map (\<lambda>w. SP # w) ws)"

fun print_code :: "response_code \<Rightarrow> bytes" where
  "print_code AlertCode = ''ALERT''"
| "print_code ParseCode = ''PARSE''"
| "print_code ReadOnlyCode = ''READ-ONLY''"
| "print_code ReadWriteCode = ''READ-WRITE''"
| "print_code TryCreateCode = ''TRYCREATE''"
| "print_code (UidNextCode n) = ''UIDNEXT'' @ [SP] @ print_u32 n"
| "print_code (UidValidityCode n) = ''UIDVALIDITY'' @ [SP] @ print_u32 n"
| "print_code (UnseenCode n) = ''UNSEEN'' @ [SP] @ print_u32 n"
| "print_code (CapabilityCode caps) = ''CAPABILITY'' @ print_words caps"
| "print_code (PermanentFlagsCode fs) = ''PERMANENTFLAGS'' @ [SP] @ [LPAREN] @ join [SP] fs @ [RPAREN]"
| "print_code (BadCharsetCode cs) = ''BADCHARSET'' @ [SP] @ [LPAREN] @ join [SP] cs @ [RPAREN]"
| "print_code (OtherCode a extra) = a @ (case extra of None \<Rightarrow> [] | Some t \<Rightarrow> [SP] @ t)"

text \<open>A code the parser keeps as text has a name of its own and a text that does not close the bracket.\<close>

definition other_code :: "bytes \<Rightarrow> bool" where
  "other_code a \<longleftrightarrow> a \<noteq> [] \<and> list_all (\<lambda>c. \<not> (c = RBRACK \<or> c = SP) \<and> c \<noteq> CR \<and> c \<noteq> LF) a \<and> utf8_valid a
     \<and> list_all (\<lambda>name. \<not> eq_ignore_ascii_case a name)
         [''ALERT'', ''PARSE'', ''READ-ONLY'', ''READ-WRITE'', ''TRYCREATE'', ''UIDNEXT'', ''UIDVALIDITY'', ''UNSEEN'',
          ''CAPABILITY'', ''PERMANENTFLAGS'', ''BADCHARSET'']"

fun plain_code :: "response_code \<Rightarrow> bool" where
  "plain_code (CapabilityCode caps) = list_all is_atom caps"
| "plain_code (PermanentFlagsCode fs) = list_all is_flag fs"
| "plain_code (BadCharsetCode cs) = list_all is_flag cs"
| "plain_code (OtherCode a extra) = (other_code a \<and> (case extra of None \<Rightarrow> True | Some t \<Rightarrow> is_section t))"
| "plain_code _ = True"

abbreviation code_end :: "bytes \<Rightarrow> bool" where
  "code_end \<equiv> starts (\<lambda>c. c = RBRACK)"

lemma not_atom_chars: "\<not> is_atom_char SP" "\<not> is_atom_char RBRACK" "\<not> is_atom_char CR"
  by (simp_all add: is_atom_char_def)

lemma reads_capabilities:
  assumes "list_all is_atom caps"
  shows "reads (length caps) (capability_loop acc) (print_words caps) (acc @ caps) (starts (\<lambda>c. c = RBRACK \<or> c = CR))"
  using assms
proof (induction caps arbitrary: acc)
  case Nil
  have "reads 0 (andthen (try_consume_byte SP) (\<lambda>b. if \<not> b then ret acc
      else andthen parse_atom (\<lambda>cap. andthen (push_item acc cap) capability_loop))) [] acc (starts (\<lambda>c. c = RBRACK \<or> c = CR))"
    by (rule reads_andthen [OF reads_try_not reads_weaken]) (auto simp: reads_ret starts_def)
  from reads_unroll [OF capability_loop.simps this] show ?case by (simp add: print_words_def)
next
  case (Cons w ws)
  have IH: "reads (length ws) (capability_loop (acc @ [w])) (print_words ws) (acc @ w # ws) (starts (\<lambda>c. c = RBRACK \<or> c = CR))"
    using Cons.IH [of "acc @ [w]"] Cons.prems by simp
  have push: "reads (Suc (length ws)) (andthen (push_item acc w) capability_loop) (print_words ws) (acc @ w # ws)
      (starts (\<lambda>c. c = RBRACK \<or> c = CR))"
    by (rule reads_andthen [where bs' = "print_words ws", OF reads_push_item]) (use IH in simp_all)
  have fin: "starts (\<lambda>c. \<not> is_atom_char c) (print_words ws @ t)" if "starts (\<lambda>c. c = RBRACK \<or> c = CR) t" for t
    using that by (cases ws; cases t) (auto simp: print_words_def not_atom_chars)
  have w: "is_atom w" using Cons.prems by simp
  have item: "reads (Suc (length ws)) (andthen parse_atom (\<lambda>cap. andthen (push_item acc cap) capability_loop))
      (w @ print_words ws) (acc @ w # ws) (starts (\<lambda>c. c = RBRACK \<or> c = CR))"
    by (rule reads_then [OF reads_atom [OF w]]) (use push fin in simp_all)
  have "reads (Suc (length ws)) (andthen (try_consume_byte SP) (\<lambda>b. if \<not> b then ret acc
      else andthen parse_atom (\<lambda>cap. andthen (push_item acc cap) capability_loop)))
      ([SP] @ w @ print_words ws) (acc @ w # ws) (starts (\<lambda>c. c = RBRACK \<or> c = CR))"
    by (rule reads_then [OF reads_try]) (use item in simp_all)
  from reads_unroll [OF capability_loop.simps this] show ?case by (simp add: print_words_def)
qed

lemma reads_code_for_other:
  assumes "other_code a" "case extra of None \<Rightarrow> True | Some t \<Rightarrow> is_section t"
  shows "reads 0 (resp_text_code_for a) (case extra of None \<Rightarrow> [] | Some t \<Rightarrow> [SP] @ t) (OtherCode a extra) code_end"
proof -
  have names: "resp_text_code_for a = andthen (try_consume_byte SP) (\<lambda>b.
        andthen (if b then andthen (read_until_byte RBRACK) (\<lambda>t. ret (Some t)) else ret None)
          (\<lambda>extra. ret (OtherCode a extra)))"
    using assms(1) by (simp add: resp_text_code_for_def other_code_def)
  show ?thesis
  proof (cases extra)
    case None
    have "reads 0 (andthen (ret None) (\<lambda>extra. ret (OtherCode a extra))) [] (OtherCode a None) code_end"
      by (rule reads_map, rule reads_weaken [OF reads_ret]) simp
    then show ?thesis
      unfolding names None by (intro reads_andthen [OF reads_try_not]) (auto simp: starts_def)
  next
    case (Some t)
    have "reads 0 (andthen (andthen (read_until_byte RBRACK) (\<lambda>t. ret (Some t))) (\<lambda>extra. ret (OtherCode a extra))) t
        (OtherCode a (Some t)) code_end"
      by (intro reads_map reads_section) (use assms(2) Some in simp)
    then show ?thesis
      unfolding names Some option.case by (intro reads_then [OF reads_try]) simp_all
  qed
qed

lemmas code_names = resp_text_code_for_def eq_ignore_ascii_case_def byte_eq_ci_def to_ascii_lowercase_def
  is_ascii_uppercase_def

lemma resp_text_code_for_names:
  "resp_text_code_for ''ALERT'' = ret AlertCode"
  "resp_text_code_for ''PARSE'' = ret ParseCode"
  "resp_text_code_for ''READ-ONLY'' = ret ReadOnlyCode"
  "resp_text_code_for ''READ-WRITE'' = ret ReadWriteCode"
  "resp_text_code_for ''TRYCREATE'' = ret TryCreateCode"
  "resp_text_code_for ''UIDNEXT'' = andthen consume_sp (\<lambda>_. andthen parse_number (\<lambda>n. ret (UidNextCode n)))"
  "resp_text_code_for ''UIDVALIDITY'' = andthen consume_sp (\<lambda>_. andthen parse_number (\<lambda>n. ret (UidValidityCode n)))"
  "resp_text_code_for ''UNSEEN'' = andthen consume_sp (\<lambda>_. andthen parse_number (\<lambda>n. ret (UnseenCode n)))"
  "resp_text_code_for ''CAPABILITY'' = andthen (capability_loop []) (\<lambda>caps. ret (CapabilityCode caps))"
  "resp_text_code_for ''PERMANENTFLAGS'' = andthen consume_sp (\<lambda>_.
        andthen parse_paren_atom_list (\<lambda>fs. ret (PermanentFlagsCode fs)))"
  "resp_text_code_for ''BADCHARSET'' = andthen (try_consume_byte SP) (\<lambda>b.
        andthen (if b then parse_paren_atom_list else ret []) (\<lambda>cs. ret (BadCharsetCode cs)))"
  by (simp_all add: code_names)

text \<open>A response code is its name and then what the parser for that name reads.\<close>

lemma reads_code_name:
  assumes "reads k (resp_text_code_for a) bs code code_end"
    and "a \<noteq> []" "list_all (\<lambda>c. \<not> (c = RBRACK \<or> c = SP) \<and> c \<noteq> CR \<and> c \<noteq> LF) a" "utf8_valid a"
    and "bs = [] \<or> starts (\<lambda>c. c = SP) bs"
  shows "reads k parse_resp_text_code (a @ bs) code code_end"
  unfolding reads_def
proof (intro allI impI)
  fix pre t m assume t: "code_end t" and len: "length (pre @ (a @ bs) @ t) < 2 ^ 64"
  have stop: "starts (\<lambda>c. c = RBRACK \<or> c = SP) (bs @ t)" using assms(5) t by (cases bs; cases t) auto
  have scan: "scan_in_line (\<lambda>c. c = RBRACK \<or> c = SP) msg (at pre (a @ bs @ t) (k + m)) = Inr ((), at (pre @ a) (bs @ t) (k + m))"
    for msg by (rule at_scan_in_line [OF _ stop]) (use assms(3) in simp)
  have "resp_text_code_for a (at (pre @ a) (bs @ t) (k + m)) = Inr (code, at ((pre @ a) @ bs) t m)"
    by (rule readsD [OF assms(1) t]) (use len in simp)
  then show "parse_resp_text_code (at pre ((a @ bs) @ t) (k + m)) = Inr (code, at (pre @ a @ bs) t m)"
    unfolding parse_resp_text_code_def andthen_here andthen_def [of "scan_in_line _ _"] append_assoc scan
    using at_not_eof [OF stop] assms(2,4) by (simp add: andthen_here andthen_def utf8_str_def)
qed

lemma code_end_facts: "code_end t \<Longrightarrow> starts (\<lambda>c. \<not> is_ascii_digit c) t"
  "code_end t \<Longrightarrow> starts (\<lambda>c. c = RBRACK \<or> c = CR) t"
  by (cases t; simp add: is_ascii_digit_def)+

lemma reads_code:
  assumes "plain_code code"
  shows "reads (code_items code) parse_resp_text_code (print_code code) code code_end"
proof -
  have found: ?thesis if "print_code code = a @ bs" "reads (code_items code) (resp_text_code_for a) bs code code_end"
    "a \<noteq> []" "list_all (\<lambda>c. \<not> (c = RBRACK \<or> c = SP) \<and> c \<noteq> CR \<and> c \<noteq> LF) a" "utf8_valid a" "bs = [] \<or> starts (\<lambda>c. c = SP) bs"
    for a bs using reads_code_name [OF that(2-)] by (simp only: that(1))
  have ascii: "utf8_valid a" if "is_ascii a" for a using that by (rule utf8_valid_ascii)
  have ret: "reads 0 (ret x) [] x code_end" for x :: response_code by (rule reads_weaken [OF reads_ret]) simp
  have num: "reads 0 (andthen consume_sp (\<lambda>_. andthen parse_number (\<lambda>n. ret (f n)))) ([SP] @ print_u32 n) (f n) code_end"
    for n and f :: "u32 \<Rightarrow> response_code"
    by (rule reads_then [OF reads_consume_sp reads_map [OF reads_weaken [OF reads_number]]]) (auto intro: code_end_facts)
  have flags: "reads (length fs) (andthen parse_paren_atom_list (\<lambda>fs. ret (f fs))) ([LPAREN] @ join [SP] fs @ [RPAREN]) (f fs) code_end"
    if "list_all is_flag fs" for fs and f :: "str list \<Rightarrow> response_code"
    by (rule reads_map, rule reads_weaken [OF reads_flags [OF that]]) simp
  show ?thesis
  proof (cases code)
    case (OtherCode a extra)
    show ?thesis
      by (rule found [of a]) (use assms OtherCode reads_code_for_other [of a extra] in \<open>auto simp: other_code_def split: option.splits\<close>)
  next
    case (CapabilityCode caps)
    have "reads (length caps) (andthen (capability_loop []) (\<lambda>caps. ret (CapabilityCode caps))) (print_words caps) (CapabilityCode caps) code_end"
      by (rule reads_map, rule reads_weaken [OF reads_capabilities [of caps "[]", simplified]])
        (use assms CapabilityCode code_end_facts(2) in auto)
    then show ?thesis
      by (intro found [of "''CAPABILITY''" "print_words caps"])
        (simp_all add: CapabilityCode resp_text_code_for_names ascii is_ascii_def,
          cases caps, simp_all add: print_words_def)
  next
    case (PermanentFlagsCode fs)
    have "reads (length fs) (resp_text_code_for ''PERMANENTFLAGS'') ([SP] @ [LPAREN] @ join [SP] fs @ [RPAREN]) (PermanentFlagsCode fs) code_end"
      unfolding resp_text_code_for_names by (rule reads_then [OF reads_consume_sp flags]) (use assms PermanentFlagsCode in simp_all)
    then show ?thesis
      by (intro found [of "''PERMANENTFLAGS''" "[SP] @ [LPAREN] @ join [SP] fs @ [RPAREN]"]) (simp_all add: PermanentFlagsCode ascii is_ascii_def)
  next
    case (BadCharsetCode fs)
    have "reads (length fs) (resp_text_code_for ''BADCHARSET'') ([SP] @ [LPAREN] @ join [SP] fs @ [RPAREN]) (BadCharsetCode fs) code_end"
      unfolding resp_text_code_for_names by (rule reads_then [OF reads_try]) (use flags [of fs BadCharsetCode] assms BadCharsetCode in simp_all)
    then show ?thesis
      by (intro found [of "''BADCHARSET''" "[SP] @ [LPAREN] @ join [SP] fs @ [RPAREN]"]) (simp_all add: BadCharsetCode ascii is_ascii_def)
  next
    case (UidNextCode n)
    then show ?thesis by (intro found [of "''UIDNEXT''" "[SP] @ print_u32 n"]) (simp_all add: resp_text_code_for_names num [simplified] ascii is_ascii_def)
  next
    case (UidValidityCode n)
    then show ?thesis by (intro found [of "''UIDVALIDITY''" "[SP] @ print_u32 n"]) (simp_all add: resp_text_code_for_names num [simplified] ascii is_ascii_def)
  next
    case (UnseenCode n)
    then show ?thesis by (intro found [of "''UNSEEN''" "[SP] @ print_u32 n"]) (simp_all add: resp_text_code_for_names num [simplified] ascii is_ascii_def)
  qed (rule found [of "print_code code" "[]"]; simp add: resp_text_code_for_names ret ascii is_ascii_def)+
qed


subsection \<open>Status responses and continuation requests\<close>

definition print_resp_text :: "response_code option \<Rightarrow> bytes \<Rightarrow> bytes" where
  "print_resp_text code msg = (case code of None \<Rightarrow> [] | Some c \<Rightarrow> [LBRACK] @ print_code c @ [RBRACK] @ [SP]) @ msg"

text \<open>Without a code, a text that begins with a bracket would be read as one.\<close>

definition plain_resp_text :: "response_code option \<Rightarrow> bytes \<Rightarrow> bool" where
  "plain_resp_text code msg \<longleftrightarrow>
     is_text msg \<and> (case code of None \<Rightarrow> \<not> starts (\<lambda>c. c = LBRACK) msg | Some c \<Rightarrow> plain_code c)"

lemma reads_bracketed:
  assumes "plain_code c"
  shows "reads (code_items c) (andthen parse_resp_text_code (\<lambda>c.
     andthen (consume_byte RBRACK) (\<lambda>_. andthen (try_consume_byte SP) (\<lambda>_. ret (Some c)))))
     (print_code c @ [RBRACK] @ [SP]) (Some c) anything"
proof (rule reads_andthen [OF reads_code [OF assms]])
  show "reads 0 (andthen (consume_byte RBRACK) (\<lambda>_. andthen (try_consume_byte SP) (\<lambda>_. ret (Some c)))) ([RBRACK] @ [SP]) (Some c) anything"
    by (rule reads_then [OF reads_consume_byte reads_map [OF reads_try]]) simp
qed simp_all

lemma reads_resp_text:
  assumes "plain_resp_text code msg"
  shows "reads (opt_items code) parse_resp_text (print_resp_text code msg) (code, msg) line_end"
proof -
  have msg: "reads 0 (andthen parse_text (\<lambda>t. ret (code, t))) msg (code, msg) line_end"
    by (rule reads_map [OF reads_text]) (use assms in \<open>simp add: plain_resp_text_def\<close>)
  show ?thesis
  proof (cases code)
    case None
    have "reads 0 (andthen (ret None) (\<lambda>code. andthen parse_text (\<lambda>t. ret (code, t)))) ([] @ msg) (code, msg) line_end"
      by (rule reads_then [OF reads_ret]) (use msg None in simp_all)
    moreover have "starts (\<lambda>c. c \<noteq> LBRACK) (msg @ t)" if "line_end t" for t
      using assms None that by (cases msg; cases t) (auto simp: plain_resp_text_def)
    ultimately show ?thesis
      unfolding parse_resp_text_def None print_resp_text_def
      by (intro reads_andthen [OF reads_try_not]) (auto simp: opt_items_def)
  next
    case (Some c)
    then have c: "plain_code c" using assms by (simp add: plain_resp_text_def)
    have "reads (code_items c) (andthen (andthen parse_resp_text_code (\<lambda>c.
        andthen (consume_byte RBRACK) (\<lambda>_. andthen (try_consume_byte SP) (\<lambda>_. ret (Some c)))))
        (\<lambda>code. andthen parse_text (\<lambda>t. ret (code, t)))) ((print_code c @ [RBRACK] @ [SP]) @ msg) (code, msg) line_end"
      by (rule reads_andthen [OF reads_bracketed [OF c]]) (use msg Some in simp_all)
    then have "reads (code_items c) parse_resp_text ([LBRACK] @ (print_code c @ [RBRACK] @ [SP]) @ msg) (code, msg) line_end"
      unfolding parse_resp_text_def by (intro reads_then [OF reads_try]) simp_all
    then show ?thesis by (simp add: Some print_resp_text_def opt_items_def)
  qed
qed

lemma reads_resp_text_line:
  assumes "plain_resp_text code msg"
  shows "reads (opt_items code) (andthen parse_resp_text (\<lambda>ct. andthen consume_crlf (\<lambda>_. ret (f ct))))
    (print_resp_text code msg @ CRLF) (f (code, msg)) anything"
  by (rule reads_andthen [OF reads_resp_text [OF assms] reads_map [OF reads_crlf]]) simp_all

definition print_rest :: "status \<Rightarrow> response_code option \<Rightarrow> bytes \<Rightarrow> bytes" where
  "print_rest st code msg = print_status st @ [SP] @ print_resp_text code msg @ CRLF"

lemma reads_status_rest:
  assumes "plain_resp_text code msg"
  shows "reads (opt_items code) (andthen try_parse_status_keyword (\<lambda>st. case st of
       Some status \<Rightarrow> andthen parse_resp_text_after_keyword (\<lambda>ct. andthen consume_crlf (\<lambda>_. ret (f status ct)))
     | None \<Rightarrow> p)) (print_rest st code msg) (f st (code, msg)) anything"
  unfolding print_rest_def
proof (rule reads_then [OF reads_status])
  have "reads (opt_items code) (andthen (andthen (try_consume_byte SP) (\<lambda>b. if b then parse_resp_text else ret (None, [])))
      (\<lambda>ct. andthen consume_crlf (\<lambda>_. ret (f st ct)))) ([SP] @ print_resp_text code msg @ CRLF) (f st (code, msg)) anything"
    unfolding andthen_assoc
    by (rule reads_then [OF reads_try]) (use reads_resp_text_line [OF assms, of "f st"] in simp_all)
  then show "reads (opt_items code) (case Some st of
       Some status \<Rightarrow> andthen parse_resp_text_after_keyword (\<lambda>ct. andthen consume_crlf (\<lambda>_. ret (f status ct)))
     | None \<Rightarrow> p) ([SP] @ print_resp_text code msg @ CRLF) (f st (code, msg)) anything"
    by (simp add: parse_resp_text_after_keyword_def)
qed simp

subsection \<open>Named data\<close>

fun print_status_item :: "status_item \<Rightarrow> bytes" where
  "print_status_item (MessagesItem n) = ''MESSAGES'' @ [SP] @ print_u32 n"
| "print_status_item (RecentItem n) = ''RECENT'' @ [SP] @ print_u32 n"
| "print_status_item (UidNextItem n) = ''UIDNEXT'' @ [SP] @ print_u32 n"
| "print_status_item (UidValidityItem n) = ''UIDVALIDITY'' @ [SP] @ print_u32 n"
| "print_status_item (UnseenItem n) = ''UNSEEN'' @ [SP] @ print_u32 n"
| "print_status_item (OtherItem n) = ''SIZE'' @ [SP] @ print_u32 n"

lemma is_atom_upper: "a \<noteq> [] \<Longrightarrow> list_all is_ascii_uppercase a \<Longrightarrow> is_atom a"
  by (fastforce simp: is_atom_def is_atom_char_def is_ascii_uppercase_def list_all_iff is_ascii_def intro!: utf8_valid_ascii)

lemma reads_status_item: "reads 0 parse_status_item (print_status_item i) i att_end"
proof -
  have item: "reads 0 parse_status_item (key @ [SP] @ print_u32 n) (status_item_for key n) att_end" if "is_atom key" for key n
    unfolding parse_status_item_def
    by (rule reads_then [OF reads_atom [OF that] reads_then [OF reads_consume_sp reads_map [OF reads_weaken [OF reads_number]]]])
      (auto simp: not_atom_chars intro: att_end_not_digit)
  have eq: "status_item_for ''MESSAGES'' n = MessagesItem n" "status_item_for ''RECENT'' n = RecentItem n"
    "status_item_for ''UIDNEXT'' n = UidNextItem n" "status_item_for ''UIDVALIDITY'' n = UidValidityItem n"
    "status_item_for ''UNSEEN'' n = UnseenItem n" "status_item_for ''SIZE'' n = OtherItem n" for n
    by (simp_all add: status_item_for_def eq_ignore_ascii_case_def byte_eq_ci_def to_ascii_lowercase_def is_ascii_uppercase_def)
  show ?thesis
    by (cases i) (use item [of "''MESSAGES''"] item [of "''RECENT''"] item [of "''UIDNEXT''"] item [of "''UIDVALIDITY''"]
      item [of "''UNSEEN''"] item [of "''SIZE''"] in \<open>simp_all add: eq is_atom_upper is_ascii_uppercase_def\<close>)
qed

lemma status_item_loop_turn:
  "status_item_loop acc s = run s (list_turn parse_status_item ''expected SP or ) in STATUS items'' status_item_loop acc)"
  unfolding list_turn_def by (rule status_item_loop.simps)

lemma reads_status_items:
  "reads (length items) parse_status_items ([LPAREN] @ join [SP] (map print_status_item items) @ [RPAREN]) items anything"
proof -
  have "reads (length items) (status_item_loop []) (join [SP] (map print_status_item items) @ [RPAREN]) items anything" if "items \<noteq> []"
    using reads_list [OF status_item_loop_turn, of items "\<lambda>_. 0" print_status_item "[]"] that reads_status_item by simp
  moreover have "starts (\<lambda>c. c \<noteq> RPAREN) (print_status_item (hd items))" if "items \<noteq> []"
    by (cases "hd items") simp_all
  ultimately show ?thesis unfolding parse_status_items_def by (intro reads_parens) simp_all
qed

lemma reads_search:
  "reads 0 (search_loop acc) (print_words (map print_u32 ns)) (acc @ ns) line_end"
proof (induction ns arbitrary: acc)
  case Nil
  have "reads 0 (andthen (try_consume_byte SP) (\<lambda>b. if \<not> b then ret acc
      else andthen parse_number (\<lambda>n. search_loop (acc @ [n])))) [] acc line_end"
    by (rule reads_andthen [OF reads_try_not reads_weaken]) (auto simp: reads_ret starts_def)
  from reads_unroll [OF search_loop.simps this] show ?case by (simp add: print_words_def)
next
  case (Cons n ns)
  have fin: "starts (\<lambda>c. \<not> is_ascii_digit c) (print_words (map print_u32 ns) @ t)" if "line_end t" for t
    using that by (cases ns; cases t) (auto simp: print_words_def is_ascii_digit_def)
  have item: "reads 0 (andthen parse_number (\<lambda>n. search_loop (acc @ [n]))) (print_u32 n @ print_words (map print_u32 ns))
      (acc @ n # ns) line_end"
    by (rule reads_then [OF reads_number]) (use Cons.IH [of "acc @ [n]"] fin in simp_all)
  have "reads 0 (andthen (try_consume_byte SP) (\<lambda>b. if \<not> b then ret acc
      else andthen parse_number (\<lambda>n. search_loop (acc @ [n])))) ([SP] @ print_u32 n @ print_words (map print_u32 ns)) (acc @ n # ns) line_end"
    by (rule reads_then [OF reads_try]) (use item in simp_all)
  from reads_unroll [OF search_loop.simps this] show ?case by (simp add: print_words_def)
qed

definition print_list_body :: "bytes list \<Rightarrow> bytes option \<Rightarrow> bytes \<Rightarrow> bytes" where
  "print_list_body fs d n = ([LPAREN] @ join [SP] fs @ [RPAREN]) @ [SP] @ print_nstring d @ [SP] @ print_string n"

lemma reads_list_body:
  assumes "list_all is_flag fs" "case d of None \<Rightarrow> True | Some t \<Rightarrow> is_string t" "is_string n"
  shows "reads (length fs) (andthen parse_list_lsub_body (\<lambda>(fs, d, n). ret (f fs d n))) (print_list_body fs d n) (f fs d n) anything"
proof -
  have name: "reads 0 (andthen consume_sp (\<lambda>_. andthen parse_astring (\<lambda>n. ret (fs, d, n)))) ([SP] @ print_string n) (fs, d, n) anything"
    by (rule reads_then [OF reads_consume_sp reads_map [OF reads_astring [OF assms(3)]]]) simp
  have delim: "reads 0 (andthen parse_nstring (\<lambda>d. andthen consume_sp (\<lambda>_. andthen parse_astring (\<lambda>n. ret (fs, d, n)))))
      (print_nstring d @ [SP] @ print_string n) (fs, d, n) anything"
    by (rule reads_then [OF reads_nstring [OF assms(2)]]) (use name in \<open>simp_all add: is_keyword_boundary_def\<close>)
  have sp: "reads 0 (andthen consume_sp (\<lambda>_. andthen parse_nstring (\<lambda>d. andthen consume_sp (\<lambda>_. andthen parse_astring (\<lambda>n. ret (fs, d, n))))))
      ([SP] @ print_nstring d @ [SP] @ print_string n) (fs, d, n) anything"
    by (rule reads_then [OF reads_consume_sp delim]) simp
  have "reads (length fs) parse_list_lsub_body (print_list_body fs d n) (fs, d, n) anything"
    unfolding parse_list_lsub_body_def print_list_body_def
    by (rule reads_andthen [OF reads_flags [OF assms(1)]]) (use sp in simp_all)
  from reads_map [OF this, of "\<lambda>(fs, d, n). f fs d n"] show ?thesis by (simp add: case_prod_unfold)
qed

lemma named_data_for_names:
  "named_data_for ''CAPABILITY'' = Some (andthen (capability_loop []) (\<lambda>caps. ret (CapabilityData caps)))"
  "named_data_for ''LIST'' = Some (andthen consume_sp (\<lambda>_. andthen parse_list_lsub_body (\<lambda>(fs, d, n). ret (ListData fs d n))))"
  "named_data_for ''LSUB'' = Some (andthen consume_sp (\<lambda>_. andthen parse_list_lsub_body (\<lambda>(fs, d, n). ret (LsubData fs d n))))"
  "named_data_for ''STATUS'' = Some (andthen consume_sp (\<lambda>_. andthen parse_astring (\<lambda>mailbox.
      andthen consume_sp (\<lambda>_. andthen parse_status_items (\<lambda>items. ret (StatusData mailbox items))))))"
  "named_data_for ''SEARCH'' = Some (andthen (search_loop []) (\<lambda>ids. ret (SearchData ids)))"
  "named_data_for ''FLAGS'' = Some (andthen consume_sp (\<lambda>_. andthen parse_paren_atom_list (\<lambda>fs. ret (FlagsData fs))))"
  by (simp_all add: named_data_for_def eq_ignore_ascii_case_def byte_eq_ci_def to_ascii_lowercase_def is_ascii_uppercase_def)

text \<open>The name of a data response and what follows it, up to the line end.\<close>

lemma reads_named:
  assumes "named_data_for name = Some p" "is_atom name" "reads k p bs d line_end" "bs = [] \<or> starts (\<lambda>c. c = SP) bs"
  shows "reads k parse_named_data_response (name @ bs @ CRLF) (DataResp d) anything"
proof -
  have follows: "starts (\<lambda>c. \<not> is_atom_char c) ((bs @ CRLF) @ t)" for t
    using assms(4) not_atom_chars by (cases bs) auto
  have body: "reads k (andthen p (\<lambda>r. andthen consume_crlf (\<lambda>_. ret (DataResp r)))) (bs @ CRLF) (DataResp d) anything"
    by (rule reads_andthen [OF assms(3) reads_map [OF reads_crlf]]) simp_all
  have parts: "reads k (andthen parse_atom (\<lambda>nm. case named_data_for nm of
       Some body \<Rightarrow> andthen body (\<lambda>resp. andthen consume_crlf (\<lambda>_. ret (DataResp resp)))
     | None \<Rightarrow> q nm)) (name @ bs @ CRLF) (DataResp d) anything" for q
    by (rule reads_then [OF reads_atom [OF assms(2)]]) (use body follows assms(1) in simp_all)
  show ?thesis
    unfolding reads_def parse_named_data_response_def andthen_here by (intro allI impI, rule readsD [OF parts]) simp_all
qed

fun print_data_resp :: "data_response \<Rightarrow> bytes" where
  "print_data_resp (CapabilityData caps) = ''CAPABILITY'' @ print_words caps @ CRLF"
| "print_data_resp (ListData fs d n) = ''LIST'' @ ([SP] @ print_list_body fs d n) @ CRLF"
| "print_data_resp (LsubData fs d n) = ''LSUB'' @ ([SP] @ print_list_body fs d n) @ CRLF"
| "print_data_resp (StatusData m items) =
     ''STATUS'' @ ([SP] @ print_string m @ [SP] @ [LPAREN] @ join [SP] (map print_status_item items) @ [RPAREN]) @ CRLF"
| "print_data_resp (SearchData ns) = ''SEARCH'' @ print_words (map print_u32 ns) @ CRLF"
| "print_data_resp (FlagsData fs) = ''FLAGS'' @ ([SP] @ [LPAREN] @ join [SP] fs @ [RPAREN]) @ CRLF"
| "print_data_resp (ExistsData n) = print_u32 n @ [SP] @ ''EXISTS'' @ CRLF"
| "print_data_resp (RecentData n) = print_u32 n @ [SP] @ ''RECENT'' @ CRLF"
| "print_data_resp (ExpungeData n) = print_u32 n @ [SP] @ ''EXPUNGE'' @ CRLF"
| "print_data_resp (FetchData n atts) =
     print_u32 n @ [SP] @ ''FETCH'' @ [SP] @ ([LPAREN] @ join [SP] (map print_att atts) @ [RPAREN]) @ CRLF"
| "print_data_resp (OtherData bs) = []"

text \<open>The data the printer covers: every kind but the lines the parser does not know and keeps as they are.\<close>

fun plain_data :: "data_response \<Rightarrow> bool" where
  "plain_data (CapabilityData caps) = list_all is_atom caps"
| "plain_data (ListData fs d n) =
     (list_all is_flag fs \<and> (case d of None \<Rightarrow> True | Some t \<Rightarrow> is_string t) \<and> is_string n)"
| "plain_data (LsubData fs d n) =
     (list_all is_flag fs \<and> (case d of None \<Rightarrow> True | Some t \<Rightarrow> is_string t) \<and> is_string n)"
| "plain_data (StatusData m items) = is_string m"
| "plain_data (FlagsData fs) = list_all is_flag fs"
| "plain_data (FetchData n atts) = list_all plain_att atts"
| "plain_data (OtherData bs) = False"
| "plain_data _ = True"

lemma reads_status_data:
  assumes "is_string m"
  shows "reads (length items) (andthen consume_sp (\<lambda>_. andthen parse_astring (\<lambda>mailbox.
      andthen consume_sp (\<lambda>_. andthen parse_status_items (\<lambda>items. ret (StatusData mailbox items))))))
    ([SP] @ print_string m @ [SP] @ [LPAREN] @ join [SP] (map print_status_item items) @ [RPAREN]) (StatusData m items) line_end"
proof -
  have rest: "reads (length items) (andthen consume_sp (\<lambda>_. andthen parse_status_items (\<lambda>items. ret (StatusData m items))))
      ([SP] @ [LPAREN] @ join [SP] (map print_status_item items) @ [RPAREN]) (StatusData m items) line_end"
    by (rule reads_then [OF reads_consume_sp reads_map [OF reads_weaken [OF reads_status_items]]]) simp_all
  have "reads (length items) (andthen parse_astring (\<lambda>mailbox.
      andthen consume_sp (\<lambda>_. andthen parse_status_items (\<lambda>items. ret (StatusData mailbox items)))))
    (print_string m @ [SP] @ [LPAREN] @ join [SP] (map print_status_item items) @ [RPAREN]) (StatusData m items) line_end"
    by (rule reads_then [OF reads_astring [OF assms]]) (use rest in simp_all)
  then show ?thesis by (rule reads_then [OF reads_consume_sp]) simp
qed

definition numbered :: "data_response \<Rightarrow> bool" where
  "numbered d \<longleftrightarrow> (case d of ExistsData n \<Rightarrow> True | RecentData n \<Rightarrow> True | ExpungeData n \<Rightarrow> True | FetchData n as \<Rightarrow> True | _ \<Rightarrow> False)"

lemma reads_named_data:
  assumes "plain_data d" "\<not> numbered d"
  shows "reads (data_items d) parse_named_data_response (print_data_resp d) (DataResp d) anything"
proof -
  have sp: "reads k (andthen consume_sp (\<lambda>_. p)) ([SP] @ bs) x line_end" if "reads k p bs x anything" for k p bs and x :: data_response
    by (rule reads_then [OF reads_consume_sp reads_weaken [OF that]]) simp_all
  note atom = is_atom_upper is_ascii_uppercase_def
  show ?thesis
  proof (cases d)
    case (CapabilityData caps)
    have "reads (length caps) (andthen (capability_loop []) (\<lambda>caps. ret (CapabilityData caps))) (print_words caps) (CapabilityData caps) line_end"
      by (rule reads_map, rule reads_weaken [OF reads_capabilities [of caps "[]", simplified]])
        (use assms CapabilityData in \<open>auto simp: starts_def\<close>)
    from reads_named [OF named_data_for_names(1) _ this] show ?thesis
      by (cases caps) (simp_all add: CapabilityData atom print_words_def)
  next
    case (ListData fs m n)
    have "reads (length fs) (andthen consume_sp (\<lambda>_. andthen parse_list_lsub_body (\<lambda>(fs, d, n). ret (ListData fs d n))))
        ([SP] @ print_list_body fs m n) (ListData fs m n) line_end"
      by (rule sp [OF reads_list_body]) (use assms ListData in simp_all)
    from reads_named [OF named_data_for_names(2) _ this] show ?thesis by (simp add: ListData atom)
  next
    case (LsubData fs m n)
    have "reads (length fs) (andthen consume_sp (\<lambda>_. andthen parse_list_lsub_body (\<lambda>(fs, d, n). ret (LsubData fs d n))))
        ([SP] @ print_list_body fs m n) (LsubData fs m n) line_end"
      by (rule sp [OF reads_list_body]) (use assms LsubData in simp_all)
    from reads_named [OF named_data_for_names(3) _ this] show ?thesis by (simp add: LsubData atom)
  next
    case (StatusData m items)
    then have "is_string m" using assms by simp
    from reads_named [OF named_data_for_names(4) _ reads_status_data [OF this]] show ?thesis by (simp add: StatusData atom)
  next
    case (SearchData ns)
    have "reads 0 (andthen (search_loop []) (\<lambda>ids. ret (SearchData ids))) (print_words (map print_u32 ns)) (SearchData ns) line_end"
      by (rule reads_map [OF reads_search [of "[]", simplified]])
    from reads_named [OF named_data_for_names(5) _ this] show ?thesis
      by (cases ns) (simp_all add: SearchData atom print_words_def)
  next
    case (FlagsData fs)
    have "reads (length fs) (andthen consume_sp (\<lambda>_. andthen parse_paren_atom_list (\<lambda>fs. ret (FlagsData fs))))
        ([SP] @ [LPAREN] @ join [SP] fs @ [RPAREN]) (FlagsData fs) line_end"
      by (rule sp [OF reads_map [OF reads_flags]]) (use assms FlagsData in simp)
    from reads_named [OF named_data_for_names(6) _ this] show ?thesis by (simp add: FlagsData atom)
  qed (use assms in \<open>simp_all add: numbered_def\<close>)
qed

subsection \<open>Numbered data\<close>

lemma reads_numeric_data:
  assumes "plain_data d" "numbered d"
  shows "reads (data_items d) parse_numeric_data_response (print_data_resp d) (DataResp d) anything"
proof -
  have kind: "reads 0 parse_numeric_data_response (print_u32 n @ [SP] @ kw @ CRLF) (DataResp (f n)) anything"
    if "is_atom kw" "\<And>q. (if eq_ignore_ascii_case kw ''EXISTS'' then andthen consume_crlf (\<lambda>_. ret (DataResp (ExistsData n)))
       else if eq_ignore_ascii_case kw ''RECENT'' then andthen consume_crlf (\<lambda>_. ret (DataResp (RecentData n)))
       else if eq_ignore_ascii_case kw ''EXPUNGE'' then andthen consume_crlf (\<lambda>_. ret (DataResp (ExpungeData n)))
       else q) = andthen consume_crlf (\<lambda>_. ret (DataResp (f n)))" for n kw f
    unfolding parse_numeric_data_response_def
    by (rule reads_then [OF reads_number reads_then [OF reads_consume_sp reads_then [OF reads_atom [OF that(1)]]]])
      (use that(2) reads_map [OF reads_crlf] in \<open>simp_all add: is_ascii_digit_def not_atom_chars\<close>)
  note atom = is_atom_upper is_ascii_uppercase_def eq_ignore_ascii_case_def byte_eq_ci_def to_ascii_lowercase_def
  show ?thesis
  proof (cases d)
    case (FetchData n atts)
    then show ?thesis using reads_numeric_fetch [of atts n] assms(1) by simp
  next
    case (ExistsData n)
    then show ?thesis using kind [of "''EXISTS''" n ExistsData] by (simp add: atom)
  next
    case (RecentData n)
    then show ?thesis using kind [of "''RECENT''" n RecentData] by (simp add: atom)
  next
    case (ExpungeData n)
    then show ?thesis using kind [of "''EXPUNGE''" n ExpungeData] by (simp add: atom)
  qed (use assms(2) in \<open>simp_all add: numbered_def\<close>)
qed

subsection \<open>Whole responses\<close>

text \<open>The first byte of a data response rules out a status keyword and tells whether a number comes first.\<close>

definition no_status_letter :: "byte \<Rightarrow> bool" where
  "no_status_letter c \<longleftrightarrow> list_all (\<lambda>k. \<not> byte_eq_ci c k) ''PONB''"

lemma reads_not_status: "reads 0 try_parse_status_keyword [] None (starts no_status_letter)"
proof -
  have miss: "reads 0 (try_consume_keyword_ci (k # kw)) [] False (starts no_status_letter)" if "k \<in> set ''PONB''" for k kw
    unfolding reads_def
  proof (intro allI impI)
    fix pre t m assume "starts no_status_letter t"
    with that have "\<not> kw_hit (k # kw) t"
      by (cases t) (auto simp: kw_hit_def zip_all_ci_def no_status_letter_def)
    then show "try_consume_keyword_ci (k # kw) (at pre ([] @ t) (0 + m)) = Inr (False, at (pre @ []) t m)"
      by (subst try_consume_keyword_ci_eq) simp_all
  qed
  have skip: "reads 0 (andthen (try_consume_keyword_ci (k # kw)) (\<lambda>b. if b then ret x else p)) [] None (starts no_status_letter)"
    if "k \<in> set ''PONB''" "reads 0 p [] None (starts no_status_letter)" for k kw x and p :: "status option parse"
    by (rule reads_andthen [OF miss [OF that(1)]]) (use that(2) in auto)
  have "reads 0 (ret None) [] None (starts no_status_letter)" by (rule reads_weaken [OF reads_ret]) simp
  then show ?thesis unfolding try_parse_status_keyword_def by (intro skip) simp_all
qed

lemma print_u32_start: "starts is_ascii_digit (print_u32 n)"
  using dec_nonempty [of "unat n"] dec_digits [of "unat n"] by (cases "print_u32 n") (auto simp: print_u32_def)

lemma print_data_start:
  assumes "plain_data d"
  shows "starts (\<lambda>c. no_status_letter c \<and> is_ascii_digit c = numbered d) (print_data_resp d)"
proof -
  have digit: "starts (\<lambda>c. no_status_letter c \<and> is_ascii_digit c) (print_u32 n @ t)" for n t
  proof -
    obtain c cs where c: "print_u32 n = c # cs" "is_ascii_digit c" using print_u32_start [of n] by (cases "print_u32 n") auto
    then have "no_status_letter c"
      using ci_letter(3) by (auto simp: no_status_letter_def is_ascii_uppercase_def)
    with c show ?thesis by simp
  qed
  show ?thesis
    using assms digit by (cases d)
      (simp_all add: numbered_def no_status_letter_def byte_eq_ci_def to_ascii_lowercase_def is_ascii_uppercase_def is_ascii_digit_def)
qed

lemma reads_data_line:
  assumes "plain_data d"
  shows "reads (data_items d) parse_untagged (''*'' @ [SP] @ print_data_resp d) (DataResp d) anything"
  unfolding parse_untagged_def
proof (rule reads_then [OF reads_consume_byte reads_then [OF reads_consume_sp]])
  obtain c cs where c: "print_data_resp d = c # cs" "no_status_letter c" "is_ascii_digit c = numbered d"
    using print_data_start [OF assms] by (cases "print_data_resp d") auto
  have "reads (data_items d) (andthen peek (\<lambda>c. if is_ascii_digit c then parse_numeric_data_response
      else parse_named_data_response)) (print_data_resp d) (DataResp d) anything"
    using reads_numeric_data [OF assms] reads_named_data [OF assms] c by (intro reads_peek_if [where c = c]) simp_all
  then show "reads (data_items d) (andthen try_parse_status_keyword (\<lambda>st. case st of
       Some status \<Rightarrow>
         andthen parse_resp_text_after_keyword (\<lambda>ct.
         andthen consume_crlf (\<lambda>_.
         ret (StatusResp \<lparr>sr_tag = None, sr_status = status, sr_code = fst ct, sr_text = snd ct\<rparr>)))
     | None \<Rightarrow>
         andthen peek (\<lambda>c. if is_ascii_digit c then parse_numeric_data_response else parse_named_data_response)))
     (print_data_resp d) (DataResp d) anything"
    by (intro reads_andthen [OF reads_not_status]) (use c in simp_all)
qed simp_all

definition print_response :: "response \<Rightarrow> bytes" where
  "print_response r =
     (case r of
        StatusResp s \<Rightarrow> (case sr_tag s of None \<Rightarrow> ''*'' | Some tag \<Rightarrow> tag) @ [SP] @ print_rest (sr_status s) (sr_code s) (sr_text s)
      | DataResp d \<Rightarrow> ''*'' @ [SP] @ print_data_resp d
      | ContinueResp c \<Rightarrow> ''+'' @ [SP] @ print_resp_text (cr_code c) (cr_text c) @ CRLF)"

definition plain_response :: "response \<Rightarrow> bool" where
  "plain_response r \<longleftrightarrow>
     (case r of
        StatusResp s \<Rightarrow> (case sr_tag s of None \<Rightarrow> True | Some tag \<Rightarrow> is_tag tag) \<and> plain_resp_text (sr_code s) (sr_text s)
      | DataResp d \<Rightarrow> plain_data d
      | ContinueResp c \<Rightarrow> plain_resp_text (cr_code c) (cr_text c))"

lemma reads_status_line:
  assumes "plain_resp_text (sr_code s) (sr_text s)"
  shows "sr_tag s = None \<Longrightarrow> reads (opt_items (sr_code s)) parse_untagged
      (''*'' @ [SP] @ print_rest (sr_status s) (sr_code s) (sr_text s)) (StatusResp s) anything"
    and "sr_tag s = Some tag \<Longrightarrow> is_tag tag \<Longrightarrow> reads (opt_items (sr_code s)) parse_tagged
      (tag @ [SP] @ print_rest (sr_status s) (sr_code s) (sr_text s)) (StatusResp s) anything"
proof -
  let ?f = "\<lambda>tag st ct. StatusResp \<lparr>sr_tag = tag, sr_status = st, sr_code = fst ct, sr_text = snd ct\<rparr>"
  note rest = reads_status_rest [OF assms, where st = "sr_status s"]
  have eta: "\<lparr>sr_tag = t, sr_status = sr_status s, sr_code = sr_code s, sr_text = sr_text s\<rparr> = s" if "sr_tag s = t" for t
    using that by (cases s) simp
  show "reads (opt_items (sr_code s)) parse_untagged
      (''*'' @ [SP] @ print_rest (sr_status s) (sr_code s) (sr_text s)) (StatusResp s) anything" if "sr_tag s = None"
    unfolding parse_untagged_def
    by (rule reads_then [OF reads_consume_byte reads_then [OF reads_consume_sp]])
      (use rest [where f = "?f None"] eta [OF that] in simp_all)
  show "reads (opt_items (sr_code s)) parse_tagged
      (tag @ [SP] @ print_rest (sr_status s) (sr_code s) (sr_text s)) (StatusResp s) anything"
    if "sr_tag s = Some tag" "is_tag tag"
  proof -
    have tail: "reads (opt_items (sr_code s)) (andthen consume_sp (\<lambda>_. andthen try_parse_status_keyword (\<lambda>st. case st of
        None \<Rightarrow> andthen here (\<lambda>s.
          if could_be_status_keyword_prefix (drop (pos s) (input s)) then fail Incomplete
          else fail (Malformed ''expected tagged status keyword''))
      | Some status \<Rightarrow> andthen parse_resp_text_after_keyword (\<lambda>ct. andthen consume_crlf (\<lambda>_. ret (?f (Some tag) status ct))))))
      ([SP] @ print_rest (sr_status s) (sr_code s) (sr_text s)) (StatusResp s) anything"
      by (rule reads_then [OF reads_consume_sp]) (use rest [where f = "?f (Some tag)"] eta [OF that(1)] in simp_all)
    show ?thesis
      unfolding parse_tagged_def by (rule reads_then [OF reads_tag [OF that(2)]]) (use tail in simp_all)
  qed
qed

lemma continue_eta: "\<lparr>cr_code = cr_code c, cr_text = cr_text c\<rparr> = c"
  by (cases c) simp

lemma reads_continue:
  assumes "plain_resp_text (cr_code c) (cr_text c)"
  shows "reads (opt_items (cr_code c)) parse_continue_req
    (''+'' @ [SP] @ print_resp_text (cr_code c) (cr_text c) @ CRLF) (ContinueResp c) anything"
  unfolding parse_continue_req_def
  by (rule reads_then [OF reads_consume_byte reads_then [OF reads_consume_sp]])
    (use reads_resp_text_line [OF assms, of "\<lambda>ct. ContinueResp \<lparr>cr_code = fst ct, cr_text = snd ct\<rparr>"]
      continue_eta in simp_all)

lemma reads_first_byte:
  assumes "reads k (if c = CHR ''+'' then parse_continue_req else if c = CHR ''*'' then parse_untagged else parse_tagged) bs r anything"
    and "starts (\<lambda>d. d = c) bs"
  shows "reads k parser_response bs r anything"
proof -
  have "reads k (andthen peek (\<lambda>c. if c = CHR ''+'' then parse_continue_req
      else if c = CHR ''*'' then parse_untagged else parse_tagged)) bs r anything"
    using assms by (intro reads_peek_if [where c = c])
  moreover have "bs \<noteq> []" using assms(2) by auto
  ultimately show ?thesis unfolding reads_def parser_response_def andthen_here by (simp add: is_eof_def)
qed

lemma reads_response:
  assumes "plain_response r"
  shows "reads (response_items r) parser_response (print_response r) r anything"
proof (cases r)
  case (DataResp d)
  then show ?thesis
    using reads_first_byte [OF _, of "data_items d" "CHR ''*''"] reads_data_line [of d] assms
    by (simp add: print_response_def plain_response_def)
next
  case (ContinueResp c)
  then show ?thesis
    using reads_first_byte [OF _, of "opt_items (cr_code c)" "CHR ''+''"] reads_continue [of c] assms
    by (simp add: print_response_def plain_response_def)
next
  case (StatusResp s)
  then have line: "plain_resp_text (sr_code s) (sr_text s)" using assms by (simp add: plain_response_def)
  show ?thesis
  proof (cases "sr_tag s")
    case None
    then show ?thesis
      using reads_first_byte [OF _, of "opt_items (sr_code s)" "CHR ''*''"] reads_status_line(1) [OF line] StatusResp
      by (simp add: print_response_def)
  next
    case (Some tag)
    then have "is_tag tag" using assms StatusResp by (simp add: plain_response_def)
    moreover obtain c cs where "tag = c # cs" "c \<noteq> CHR ''+''" "c \<noteq> CHR ''*''"
      using \<open>is_tag tag\<close> by (cases tag) (auto simp: is_tag_def)
    ultimately show ?thesis
      using reads_first_byte [OF _, of "opt_items (sr_code s)" c] reads_status_line(2) [OF line Some] StatusResp Some
      by (simp add: print_response_def)
  qed
qed

text \<open>The parser inverts the printer, whatever follows in the buffer.\<close>

lemma parse_print_response:
  assumes "plain_response r" "response_items r \<le> MAX_ITEMS_PER_RESPONSE" "length (print_response r @ rest) < 2 ^ 64"
  shows "parse_response (print_response r @ rest) = Inr (rest, r)"
proof -
  let ?k = "response_items r"
  have "parser_new (print_response r @ rest) = at [] (print_response r @ rest) (?k + (MAX_ITEMS_PER_RESPONSE - ?k))"
    using assms(2) by (simp add: parser_new_def at_def)
  with readsD [OF reads_response [OF assms(1)], where t = rest and pre = "[]" and m = "MAX_ITEMS_PER_RESPONSE - ?k"] assms(3)
  show ?thesis by (simp add: parse_response_def)
qed

subsection \<open>What a server may print\<close>

text \<open>A response within the limits of the parser.\<close>

definition printable_response :: "response \<Rightarrow> bool" where
  "printable_response r \<longleftrightarrow> plain_response r \<and> response_items r \<le> MAX_ITEMS_PER_RESPONSE"

text \<open>A sequence of printed responses is cut where they were printed.\<close>

lemma split_printed:
  "list_all printable_response rs \<Longrightarrow> length (concat (map print_response rs)) < 2 ^ 64 \<Longrightarrow>
   split_frames parse_response (concat (map print_response rs)) = (map (\<lambda>r. (print_response r, r)) rs, [], None)"
proof (induction rs)
  case Nil
  show ?case using imap.split_stop [OF imap.empty] by (simp add: hard_def)
next
  case (Cons r rs)
  then have "parse_response (print_response r @ concat (map print_response rs)) = Inr (concat (map print_response rs), r)"
    by (intro parse_print_response) (simp_all add: printable_response_def)
  from imap.split_frame [OF this] Cons show ?case by simp
qed

abbreviation print_fetch :: "u32 \<Rightarrow> fetch_attribute list \<Rightarrow> bytes" where
  "print_fetch n atts \<equiv> print_response (DataResp (FetchData n atts))"

end
