(* ===== verification/Client_Error.thy ===== *)
theory Client_Error
  imports Ast
begin

text \<open>
  The client errors of \<^verbatim>\<open>imap-client/src/error.rs\<close>.  \<^verbatim>\<open>ClientError::command_failed\<close> is the only way
  text chosen by the server reaches an error message; the lemmas show that what it keeps is
  printable in the sense of \<^verbatim>\<open>is_unsafe_to_display\<close>, bounded in length, and otherwise the text
  the server sent.  An operating-system I/O error is carried as its description.
\<close>

datatype client_error =
    Io string
  | Parse parse_error
  | ConnectionClosed
  | FrameTooLarge usize
  | CommandFailed str
  | UnsupportedCapability string
  | Timeout
  | InvalidArgument string

definition MAX_SERVER_TEXT_CHARS :: usize where
  "MAX_SERVER_TEXT_CHARS = 512"

definition REPLACEMENT :: nat where
  "REPLACEMENT = 0xFFFD"

definition ELLIPSIS :: nat where
  "ELLIPSIS = 0x2026"

text \<open>\<^verbatim>\<open>char::is_control\<close>: the general category Cc, which is C0, DEL and C1.\<close>

definition is_control :: "nat \<Rightarrow> bool" where
  "is_control c \<longleftrightarrow> c \<le> 0x1F \<or> 0x7F \<le> c \<and> c \<le> 0x9F"

definition is_unsafe_to_display :: "nat \<Rightarrow> bool" where
  "is_unsafe_to_display c \<longleftrightarrow>
     is_control c
     \<or> c = 0x061C \<or> c = 0x200E \<or> c = 0x200F \<or> c = 0x2028 \<or> c = 0x2029
     \<or> 0x202A \<le> c \<and> c \<le> 0x202E
     \<or> 0x2066 \<le> c \<and> c \<le> 0x2069"

definition safe_char :: "nat \<Rightarrow> nat" where
  "safe_char c = (if is_unsafe_to_display c then REPLACEMENT else c)"

definition safe_chars :: "nat list \<Rightarrow> nat list" where
  "safe_chars cs =
     map safe_char (take MAX_SERVER_TEXT_CHARS cs)
     @ (if MAX_SERVER_TEXT_CHARS < length cs then [ELLIPSIS] else [])"

definition command_failed :: "str \<Rightarrow> client_error" where
  "command_failed text = CommandFailed (encode_utf8 (safe_chars (chars text)))"

lemma safe_char_safe: "\<not> is_unsafe_to_display (safe_char c)"
  by (simp add: safe_char_def is_unsafe_to_display_def REPLACEMENT_def is_control_def)

lemma safe_char_scalar: "is_scalar c \<Longrightarrow> is_scalar (safe_char c)"
  by (simp add: safe_char_def is_scalar_def REPLACEMENT_def)

lemma safe_chars_safe: "c \<in> set (safe_chars cs) \<Longrightarrow> \<not> is_unsafe_to_display c"
  using safe_char_safe
  by (auto simp: safe_chars_def ELLIPSIS_def is_unsafe_to_display_def is_control_def split: if_splits)

lemma length_safe_chars:
  "length (safe_chars cs) = min (length cs) (MAX_SERVER_TEXT_CHARS + 1)"
  by (simp add: safe_chars_def min_def)

lemma list_all_take: "list_all P xs \<Longrightarrow> list_all P (take n xs)"
  by (auto simp: list_all_iff dest: in_set_takeD)

lemma safe_chars_scalar: "list_all is_scalar cs \<Longrightarrow> list_all is_scalar (safe_chars cs)"
  using safe_char_scalar
  by (auto simp: safe_chars_def list_all_iff ELLIPSIS_def is_scalar_def [of 8230] dest: in_set_takeD)

lemma chars_command_failed:
  "command_failed s = CommandFailed t \<Longrightarrow> chars t = safe_chars (chars s) \<and> utf8_valid t"
  using safe_chars_scalar [OF chars_scalar [of s]]
  by (auto simp: command_failed_def chars_encode_utf8 utf8_valid_encode_utf8)

lemma safe_chars_id:
  "\<forall>c \<in> set cs. \<not> is_unsafe_to_display c \<Longrightarrow> length cs \<le> MAX_SERVER_TEXT_CHARS \<Longrightarrow>
   safe_chars cs = cs"
  by (simp add: safe_chars_def safe_char_def map_idI)

end
