(* ===== verification/Flags.thy ===== *)
theory Flags
  imports Rust_Std
begin

text \<open>
  Message flags and STORE actions of \<^verbatim>\<open>imap-client/src/flags.rs\<close>, with their wire form.  The
  constructors carry the suffix \<open>Flag\<close> or \<open>Action\<close>.
\<close>

datatype flag =
    SeenFlag
  | AnsweredFlag
  | FlaggedFlag
  | DeletedFlag
  | DraftFlag
  | RecentFlag
  | CustomFlag str

fun flag_to_string :: "flag \<Rightarrow> str" where
  "flag_to_string SeenFlag = BACKSLASH # ''Seen''"
| "flag_to_string AnsweredFlag = BACKSLASH # ''Answered''"
| "flag_to_string FlaggedFlag = BACKSLASH # ''Flagged''"
| "flag_to_string DeletedFlag = BACKSLASH # ''Deleted''"
| "flag_to_string DraftFlag = BACKSLASH # ''Draft''"
| "flag_to_string RecentFlag = BACKSLASH # ''Recent''"
| "flag_to_string (CustomFlag s) = s"

datatype store_action = AddAction | RemoveAction | SetAction

fun to_imap_prefix :: "store_action \<Rightarrow> bool \<Rightarrow> str" where
  "to_imap_prefix AddAction silent = (if silent then ''+FLAGS.SILENT'' else ''+FLAGS'')"
| "to_imap_prefix RemoveAction silent = (if silent then ''-FLAGS.SILENT'' else ''-FLAGS'')"
| "to_imap_prefix SetAction silent = (if silent then ''FLAGS.SILENT'' else ''FLAGS'')"

text \<open>The six STORE item names are pairwise different.\<close>

lemma to_imap_prefix_inject: "to_imap_prefix a s = to_imap_prefix b t \<longleftrightarrow> a = b \<and> s = t"
  by (cases a; cases b; cases s; cases t) simp_all

end
