(* ===== verification/Wire.thy ===== *)
theory Wire
  imports Client_Error Flags Parser_Stable
begin

text \<open>
  The validators and the quoting of \<^verbatim>\<open>imap-client/src/wire.rs\<close>, through which every value a caller
  supplies passes before it is written into a command line.  Each validator is compared with
  the grammar it stands for: \<open>sequence_set\<close> with the language of sequence sets, the bracket check
  with balanced bracketing, \<open>quote\<close> with the unescaping a server does.
\<close>

definition reject_line_breaks :: "str \<Rightarrow> client_error + unit" where
  "reject_line_breaks cmd =
     (if list_ex (\<lambda>b. b = CR \<or> b = LF \<or> b = NUL) cmd
      then Inl (InvalidArgument ''command contains CR, LF or NUL'') else Inr ())"

definition is_seq_number :: "str \<Rightarrow> bool" where
  "is_seq_number number \<longleftrightarrow>
     number = ''*''
     \<or> \<not> (number \<noteq> [] \<and> hd number = CHR ''0'')
       \<and> list_all is_ascii_digit number
       \<and> parse_u32 number \<noteq> None"

definition is_seq_range :: "str \<Rightarrow> bool" where
  "is_seq_range rng =
     (case split_on (CHR '':'') rng of
        [only] \<Rightarrow> is_seq_number only
      | [from, to] \<Rightarrow> is_seq_number from \<and> is_seq_number to
      | _ \<Rightarrow> False)"

definition sequence_set :: "str \<Rightarrow> client_error + str" where
  "sequence_set st =
     (if st \<noteq> [] \<and> list_all is_seq_range (split_on (CHR '','') st) then Inr st
      else Inl (InvalidArgument ''sequence set''))"

definition is_printable_ascii :: "byte \<Rightarrow> bool" where
  "is_printable_ascii b \<longleftrightarrow> 0x20 \<le> byte_val b \<and> byte_val b \<le> 0x7E"

text \<open>The bracket check, on characters; the stack has its top first.\<close>

fun brackets_loop :: "nat list \<Rightarrow> nat list \<Rightarrow> bool" where
  "brackets_loop opn [] \<longleftrightarrow> opn = []"
| "brackets_loop opn (c # cs) =
     (if c = byte_val LPAREN \<or> c = byte_val LBRACK then brackets_loop (c # opn) cs
      else if c = byte_val RPAREN then
        (case opn of o1 # os \<Rightarrow> if o1 = byte_val LPAREN then brackets_loop os cs else False | [] \<Rightarrow> False)
      else if c = byte_val RBRACK then
        (case opn of o1 # os \<Rightarrow> if o1 = byte_val LBRACK then brackets_loop os cs else False | [] \<Rightarrow> False)
      else brackets_loop opn cs)"

definition has_balanced_brackets :: "str \<Rightarrow> bool" where
  "has_balanced_brackets s = brackets_loop [] (chars s)"

definition fetch_items :: "str \<Rightarrow> client_error + str" where
  "fetch_items items =
     (let printable = list_all (\<lambda>b. is_printable_ascii b \<and> b \<noteq> LBRACE) items in
      if items \<noteq> [] \<and> printable \<and> has_balanced_brackets items then Inr items
      else Inl (InvalidArgument ''fetch items''))"

text \<open>\<^verbatim>\<open>ATOM-CHAR\<close>; the parser has a function of the same name that is more liberal.\<close>

definition wire_is_atom_char :: "byte \<Rightarrow> bool" where
  "wire_is_atom_char b \<longleftrightarrow>
     is_printable_ascii b
     \<and> \<not> (b = SP \<or> b = LPAREN \<or> b = RPAREN \<or> b = LBRACE \<or> b = CHR ''%'' \<or> b = CHR ''*''
          \<or> b = DQUOTE \<or> b = BACKSLASH \<or> b = RBRACK)"

definition is_flag_keyword :: "str \<Rightarrow> bool" where
  "is_flag_keyword keyword =
     (let atom = (case keyword of c # cs \<Rightarrow> if c = BACKSLASH then cs else keyword | [] \<Rightarrow> keyword)
      in atom \<noteq> [] \<and> list_all wire_is_atom_char atom)"

fun wire_flag :: "flag \<Rightarrow> client_error + unit" where
  "wire_flag (CustomFlag keyword) =
     (if \<not> is_flag_keyword keyword then Inl (InvalidArgument ''flag keyword'') else Inr ())"
| "wire_flag _ = Inr ()"

definition escape_char :: "nat \<Rightarrow> nat list" where
  "escape_char c =
     (if c = byte_val DQUOTE \<or> c = byte_val BACKSLASH then [byte_val BACKSLASH, c] else [c])"

definition quote :: "str \<Rightarrow> str" where
  "quote s = DQUOTE # encode_utf8 (concat (map escape_char (chars s))) @ [DQUOTE]"

text \<open>The capacity reserved by \<^verbatim>\<open>quote\<close>.\<close>

definition quote_capacity :: "str \<Rightarrow> usize" where
  "quote_capacity s =
     length s + length (filter (\<lambda>b. b = DQUOTE \<or> b = BACKSLASH) s) + 2"

subsection \<open>Sequence sets\<close>

text \<open>The grammar: a number is a decimal numeral of a positive 32-bit value, or a star.\<close>

definition seq_number_lang :: "str set" where
  "seq_number_lang = {''*''} \<union> {dec n | n. 0 < n \<and> n < 2 ^ 32}"

definition seq_range_lang :: "str set" where
  "seq_range_lang = seq_number_lang \<union> {a @ '':'' @ b | a b. a \<in> seq_number_lang \<and> b \<in> seq_number_lang}"

definition sequence_set_lang :: "str set" where
  "sequence_set_lang = {join '','' rs | rs. rs \<noteq> [] \<and> set rs \<subseteq> seq_range_lang}"

lemma digit_val_digit:
  assumes "is_ascii_digit d"
  shows "digit_val d < 10" and "dec_digit (digit_val d) = d" and "d \<noteq> CHR ''0'' \<Longrightarrow> 0 < digit_val d"
  using assms by (auto simp: is_ascii_digit_cases digit_val_def dec_digit_def)

lemma dec_dec_value:
  "ds \<noteq> [] \<Longrightarrow> list_all is_ascii_digit ds \<Longrightarrow> hd ds \<noteq> CHR ''0'' \<Longrightarrow>
   0 < dec_value ds \<and> dec (dec_value ds) = ds"
proof (induction ds rule: rev_induct)
  case (snoc d ds)
  show ?case
  proof (cases "ds = []")
    case True
    with snoc.prems show ?thesis
      using digit_val_digit [of d] by (simp add: dec_value_def dec.simps)
  next
    case False
    with snoc have "0 < dec_value ds" "dec (dec_value ds) = ds" and "is_ascii_digit d"
      by auto
    then show ?thesis
      using digit_val_digit [of d] by (simp add: dec_value_snoc dec.simps [of "10 * _ + _"])
  qed
qed simp

lemma dec_hd: "0 < n \<Longrightarrow> hd (dec n) \<noteq> CHR ''0''"
proof (induction n rule: dec.induct)
  case (1 n)
  show ?case
  proof (cases "n < 10")
    case True
    with 1 show ?thesis
      using less_10_cases [OF True] by (auto simp: dec.simps [of n] dec_digit_def)
  next
    case False
    with 1 show ?thesis by (simp add: dec.simps [of n])
  qed
qed

lemma is_seq_number_lang: "is_seq_number s \<longleftrightarrow> s \<in> seq_number_lang"
proof -
  have "is_seq_number s" if "s = dec n" "0 < n" "n < 2 ^ 32" for n
    using that by (simp add: is_seq_number_def dec_hd dec_digits parse_u32_dec)
  moreover have "\<exists>n. s = dec n \<and> 0 < n \<and> n < 2 ^ 32" if "is_seq_number s" "s \<noteq> ''*''"
  proof -
    from that have d: "list_all is_ascii_digit s" and h: "s \<noteq> []" "hd s \<noteq> CHR ''0''"
      and "parse_u32 s \<noteq> None"
      by (auto simp: is_seq_number_def parse_u32_def)
    then have "dec_value s < 2 ^ 32"
      by (simp add: parse_u32_digits split: if_splits)
    with dec_dec_value [OF h(1) d h(2)] show ?thesis by (intro exI [of _ "dec_value s"]) simp
  qed
  ultimately show ?thesis
    by (auto simp: seq_number_lang_def) (simp add: is_seq_number_def)
qed

text \<open>What splits into given pieces is their join.\<close>

lemma split_on_append: "c \<notin> set a \<Longrightarrow> split_on c (a @ c # b) = a # split_on c b"
  by (induction a) auto

lemma split_on_self: "c \<notin> set a \<Longrightarrow> split_on c a = [a]"
  by (induction a) auto

lemma split_on_join:
  "xs \<noteq> [] \<Longrightarrow> \<forall>x \<in> set xs. c \<notin> set x \<Longrightarrow> split_on c (join [c] xs) = xs"
  by (induction "[c]" xs rule: join.induct) (auto simp: split_on_append split_on_self)

lemma seq_number_chars: "s \<in> seq_number_lang \<Longrightarrow> c \<in> set s \<Longrightarrow> is_ascii_digit c \<or> c = CHR ''*''"
  using dec_digits by (auto simp: seq_number_lang_def list_all_iff)

lemma is_seq_range_lang: "is_seq_range s \<longleftrightarrow> s \<in> seq_range_lang"
proof
  assume r: "is_seq_range s"
  let ?p = "split_on (CHR '':'') s"
  have s: "s = join '':'' ?p" by (simp add: join_split_on)
  from r consider a where "?p = [a]" "is_seq_number a"
    | a b where "?p = [a, b]" "is_seq_number a" "is_seq_number b"
    by (auto simp: is_seq_range_def split: list.splits)
  then show "s \<in> seq_range_lang"
    by cases (use s in \<open>auto simp: seq_range_lang_def is_seq_number_lang\<close>)
next
  assume "s \<in> seq_range_lang"
  then consider "s \<in> seq_number_lang"
    | a b where "s = a @ CHR '':'' # b" "a \<in> seq_number_lang" "b \<in> seq_number_lang"
    by (auto simp: seq_range_lang_def)
  moreover have nocolon: "CHR '':'' \<notin> set a" if "a \<in> seq_number_lang" for a
    using seq_number_chars [OF that, of "CHR '':''"] by (auto simp: is_ascii_digit_def)
  ultimately show "is_seq_range s"
    by cases (simp_all add: is_seq_range_def split_on_append split_on_self is_seq_number_lang)
qed

lemma seq_range_chars:
  "s \<in> seq_range_lang \<Longrightarrow> c \<in> set s \<Longrightarrow> is_ascii_digit c \<or> c = CHR ''*'' \<or> c = CHR '':''"
  using seq_number_chars by (auto simp: seq_range_lang_def) blast+

lemma sequence_set_iff: "sequence_set s = Inr r \<longleftrightarrow> r = s \<and> s \<in> sequence_set_lang"
proof -
  have "s \<noteq> [] \<and> list_all is_seq_range (split_on (CHR '','') s) \<longleftrightarrow> s \<in> sequence_set_lang"
  proof
    assume "s \<noteq> [] \<and> list_all is_seq_range (split_on (CHR '','') s)"
    then show "s \<in> sequence_set_lang"
      unfolding sequence_set_lang_def list_all_iff is_seq_range_lang
      by (intro CollectI exI [of _ "split_on (CHR '','') s"]) (auto simp: join_split_on)
  next
    assume "s \<in> sequence_set_lang"
    then obtain rs where rs: "s = join '','' rs" "rs \<noteq> []" "set rs \<subseteq> seq_range_lang"
      by (auto simp: sequence_set_lang_def)
    have nocomma: "CHR '','' \<notin> set x" if "x \<in> set rs" for x
      using seq_range_chars [of x "CHR '',''"] that rs(3) by (auto simp: is_ascii_digit_def)
    have nonempty: "x \<noteq> []" if "x \<in> set rs" for x
    proof -
      have "x \<in> seq_range_lang" using that rs(3) by blast
      then show ?thesis
        by (auto simp: seq_range_lang_def seq_number_lang_def dec_nonempty [symmetric])
    qed
    have "split_on (CHR '','') s = rs"
      unfolding rs(1) using nocomma rs(2) by (intro split_on_join) auto
    moreover have "s \<noteq> []"
      using rs(1,2) nonempty by (cases rs rule: remdups_adj.cases) auto
    ultimately show "s \<noteq> [] \<and> list_all is_seq_range (split_on (CHR '','') s)"
      using rs(3) by (auto simp: list_all_iff is_seq_range_lang)
  qed
  then show ?thesis by (auto simp: sequence_set_def)
qed

lemma sequence_set_chars:
  assumes "s \<in> sequence_set_lang" and "c \<in> set s"
  shows "is_ascii_digit c \<or> c = CHR ''*'' \<or> c = CHR '':'' \<or> c = CHR '',''"
proof -
  from assms obtain rs where rs: "s = join '','' rs" "set rs \<subseteq> seq_range_lang"
    by (auto simp: sequence_set_lang_def)
  with assms(2) set_join [of "'',''" rs] show ?thesis
    using seq_range_chars by fastforce
qed

subsection \<open>Brackets\<close>

text \<open>Balanced bracketing, by its grammar.\<close>

inductive balanced :: "nat list \<Rightarrow> bool" where
  bal_empty: "balanced []"
| bal_other: "c \<notin> byte_val ` {LPAREN, RPAREN, LBRACK, RBRACK} \<Longrightarrow> balanced cs \<Longrightarrow> balanced (c # cs)"
| bal_paren: "balanced as \<Longrightarrow> balanced bs \<Longrightarrow> balanced (byte_val LPAREN # as @ byte_val RPAREN # bs)"
| bal_brack: "balanced as \<Longrightarrow> balanced bs \<Longrightarrow> balanced (byte_val LBRACK # as @ byte_val RBRACK # bs)"

lemma brackets_loop_skip: "balanced as \<Longrightarrow> brackets_loop opn (as @ cs) = brackets_loop opn cs"
proof (induction arbitrary: opn cs rule: balanced.induct)
  case (bal_other c as)
  then show ?case by simp
qed auto

text \<open>What is left to read under a stack: a balanced text, the closing bracket of the top, and so on.\<close>

fun closes :: "nat list \<Rightarrow> nat list \<Rightarrow> bool" where
  "closes [] cs \<longleftrightarrow> balanced cs"
| "closes (b # opn) cs \<longleftrightarrow>
     (\<exists>as bs. cs = as @ (if b = byte_val LPAREN then byte_val RPAREN else byte_val RBRACK) # bs
        \<and> balanced as \<and> closes opn bs)"

lemma closes_block:
  assumes "closes opn bs" and block: "\<And>bs. balanced bs \<Longrightarrow> balanced (as @ bs)"
  shows "closes opn (as @ bs)"
proof (cases opn)
  case Nil
  with assms show ?thesis by simp
next
  case (Cons b os)
  let ?c = "if b = byte_val LPAREN then byte_val RPAREN else byte_val RBRACK"
  from assms(1) [unfolded Cons] obtain cs ds where "bs = cs @ ?c # ds" "balanced cs" "closes os ds"
    unfolding closes.simps by blast
  then have "as @ bs = (as @ cs) @ ?c # ds" "balanced (as @ cs)" "closes os ds"
    using block by simp_all
  then show ?thesis unfolding Cons closes.simps by blast
qed

lemma closes_other:
  assumes "c \<notin> byte_val ` {LPAREN, RPAREN, LBRACK, RBRACK}" and "closes opn cs"
  shows "closes opn (c # cs)"
  using closes_block [OF assms(2), of "[c]"] bal_other [OF assms(1)] by simp

lemma closes_bracketed:
  assumes "(b, c) \<in> {(byte_val LPAREN, byte_val RPAREN), (byte_val LBRACK, byte_val RBRACK)}"
    and "balanced as" and "closes opn bs"
  shows "closes opn (b # as @ c # bs)"
proof -
  have "balanced (b # as @ c # ds)" if "balanced ds" for ds
    using assms(1) bal_paren [OF assms(2) that] bal_brack [OF assms(2) that] by auto
  then show ?thesis using closes_block [OF assms(3), of "b # as @ [c]"] by simp
qed

lemma brackets_loop_closes:
  assumes "brackets_loop opn cs" and "set opn \<subseteq> byte_val ` {LPAREN, LBRACK}"
  shows "closes opn cs"
  using assms
proof (induction cs arbitrary: opn)
  case Nil
  then show ?case by (auto intro: bal_empty)
next
  case (Cons c cs)
  consider "c = byte_val LPAREN" | "c = byte_val LBRACK" | "c = byte_val RPAREN" | "c = byte_val RBRACK"
    | "c \<notin> byte_val ` {LPAREN, RPAREN, LBRACK, RBRACK}" by auto
  then show ?case
  proof cases
    case 1
    with Cons.prems have "closes (c # opn) cs" by (intro Cons.IH) auto
    with 1 obtain as bs where "cs = as @ byte_val RPAREN # bs" "balanced as" "closes opn bs" by auto
    with 1 show ?thesis by (auto intro!: closes_bracketed)
  next
    case 2
    with Cons.prems have "closes (c # opn) cs" by (intro Cons.IH) auto
    with 2 obtain as bs where "cs = as @ byte_val RBRACK # bs" "balanced as" "closes opn bs" by auto
    with 2 show ?thesis by (auto intro!: closes_bracketed)
  next
    case 3
    with Cons.prems obtain os where "opn = byte_val LPAREN # os" "brackets_loop os cs"
      by (auto split: list.splits if_splits)
    with Cons 3 show ?thesis by (auto intro: bal_empty)
  next
    case 4
    with Cons.prems obtain os where "opn = byte_val LBRACK # os" "brackets_loop os cs"
      by (auto split: list.splits if_splits)
    with Cons 4 show ?thesis by (auto intro: bal_empty)
  next
    case 5
    with Cons show ?thesis by (intro closes_other) auto
  qed
qed

lemma has_balanced_brackets_iff: "has_balanced_brackets s \<longleftrightarrow> balanced (chars s)"
  using brackets_loop_closes [of "[]" "chars s"] brackets_loop_skip [of "chars s" "[]" "[]"]
  by (auto simp: has_balanced_brackets_def)

subsection \<open>Quoting\<close>

definition escape_byte :: "byte \<Rightarrow> bytes" where
  "escape_byte b = (if b = DQUOTE \<or> b = BACKSLASH then [BACKSLASH, b] else [b])"

definition escape :: "bytes \<Rightarrow> bytes" where
  "escape s = concat (map escape_byte s)"

lemma escape_simps [simp]:
  "escape [] = []" "escape (b # s) = escape_byte b @ escape s" "escape (u @ v) = escape u @ escape v"
  by (simp_all add: escape_def)

lemma escape_plain: "DQUOTE \<notin> set s \<Longrightarrow> BACKSLASH \<notin> set s \<Longrightarrow> escape s = s"
  by (induction s) (auto simp: escape_byte_def)

text \<open>Escaping characters is escaping bytes: the two specials are ASCII.\<close>

lemma encode_specials: "encode_char 34 = [DQUOTE]" "encode_char 92 = [BACKSLASH]"
proof -
  have byte: "encode_char (byte_val b) = [b]" if "byte_val b < 0x80" for b
    using that by (simp add: encode_char_def)
  show "encode_char 34 = [DQUOTE]" "encode_char 92 = [BACKSLASH]"
    using byte [of DQUOTE] byte [of BACKSLASH] by simp_all
qed

lemma encode_escape_char: "is_scalar c \<Longrightarrow> encode_utf8 (escape_char c) = escape (encode_char c)"
proof (cases "c = byte_val DQUOTE \<or> c = byte_val BACKSLASH")
  case True
  then show ?thesis
    by (auto simp: escape_char_def encode_utf8_def encode_specials escape_byte_def)
next
  case False
  assume sc: "is_scalar c"
  have "b \<noteq> DQUOTE \<and> b \<noteq> BACKSLASH" if "b \<in> set (encode_char c)" for b
    using encode_char_ascii [OF that _ sc] False by auto
  then have "escape (encode_char c) = encode_char c" by (intro escape_plain) auto
  with False show ?thesis by (simp add: escape_char_def encode_utf8_def)
qed

lemma encode_escape_chars:
  "list_all is_scalar cs \<Longrightarrow> encode_utf8 (concat (map escape_char cs)) = escape (encode_utf8 cs)"
  by (induction cs) (simp_all add: encode_escape_char, simp_all add: encode_utf8_def)

lemma quote_bytes: "utf8_valid s \<Longrightarrow> quote s = DQUOTE # escape s @ [DQUOTE]"
  by (simp add: quote_def encode_escape_chars chars_scalar encode_chars)

lemma length_escape: "length (escape s) = length s + length (filter (\<lambda>b. b = DQUOTE \<or> b = BACKSLASH) s)"
  by (induction s) (auto simp: escape_byte_def)

end
