(* ===== verification/Raw_Client.thy ===== *)
theory Raw_Client
  imports Wire
begin

text \<open>
  The caller's side of \<^verbatim>\<open>imap-client/src/client.rs\<close>: tags, command lines and the requests handed to
  the write loop.  A channel is known by a number, drawn from \<open>fresh\<close>.  The queue to the write loop is
  the list of requests accepted so far (the theory on the dispatcher takes them off again).

  What a caller gets back by awaiting is decided by the rest of the system and by the clock.
  For the operations that await it is a parameter, the record \<open>env\<close>; every outcome the code
  distinguishes is a value of \<open>awaited\<close>.
\<close>

type_synonym chan = nat
type_synonym frame_filter = "response \<Rightarrow> bool"
type_synonym reply = "client_error + bytes"
type_synonym seconds = nat

definition EVENT_CHANNEL_CAP :: usize where
  "EVENT_CHANNEL_CAP = 256"

definition STREAM_CHANNEL_CAP :: usize where
  "STREAM_CHANNEL_CAP = 32"

definition WRITE_CHANNEL_CAP :: usize where
  "WRITE_CHANNEL_CAP = 32"

definition MAX_FRAME_SIZE :: usize where
  "MAX_FRAME_SIZE = MAX_LITERAL_SIZE + 64 * 1024"

datatype write_request =
    CommandReq (req_bytes: bytes) (req_tag: str) (req_reply: chan)
      (req_collector: "(frame_filter \<times> chan) option")
  | RawReq (req_bytes: bytes)

definition command_line :: "str \<Rightarrow> str \<Rightarrow> bytes" where
  "command_line tag cmd = ((tag @ [SP]) @ cmd) @ CRLF"

text \<open>The capacity \<^verbatim>\<open>command_line\<close> reserves.\<close>

definition command_line_capacity :: "str \<Rightarrow> str \<Rightarrow> usize" where
  "command_line_capacity tag cmd = length tag + 1 + length cmd + length CRLF"

record raw_client =
  queued :: "write_request list"
  tag_counter :: u64
  fresh :: chan
  default_timeout :: seconds

definition raw_client_new :: raw_client where
  "raw_client_new = \<lparr>queued = [], tag_counter = 1, fresh = 0, default_timeout = 30\<rparr>"

definition next_tag :: "raw_client \<Rightarrow> str \<times> raw_client" where
  "next_tag self =
     (CHR ''A'' # dec_pad 4 (unat (tag_counter self)), self\<lparr>tag_counter := tag_counter self + 1\<rparr>)"

text \<open>\<^verbatim>\<open>oneshot::channel()\<close> and \<^verbatim>\<open>mpsc::channel(cap)\<close>: a channel nobody has yet.\<close>

definition new_chan :: "raw_client \<Rightarrow> chan \<times> raw_client" where
  "new_chan self = (fresh self, self\<lparr>fresh := fresh self + 1\<rparr>)"

text \<open>\<^verbatim>\<open>self.write_tx.send(req).await\<close>; it fails when the write loop is gone.\<close>

definition send_request :: "bool \<Rightarrow> write_request \<Rightarrow> raw_client \<Rightarrow> (client_error + unit) \<times> raw_client" where
  "send_request alive req self =
     (if alive then (Inr (), self\<lparr>queued := queued self @ [req]\<rparr>) else (Inl ConnectionClosed, self))"

definition enqueue_command ::
  "bool \<Rightarrow> str \<Rightarrow> (frame_filter \<times> chan) option \<Rightarrow> raw_client \<Rightarrow> (client_error + str \<times> chan) \<times> raw_client" where
  "enqueue_command alive cmd collector self =
     (case reject_line_breaks cmd of
        Inl e \<Rightarrow> (Inl e, self)
      | Inr _ \<Rightarrow>
          let (tag, self) = next_tag self;
              bytes = command_line tag cmd;
              (reply_tx, self) = new_chan self
          in case send_request alive (CommandReq bytes tag reply_tx collector) self of
               (Inl e, self) \<Rightarrow> (Inl e, self)
             | (Inr _, self) \<Rightarrow> (Inr (tag, reply_tx), self))"

definition send_command_async :: "bool \<Rightarrow> str \<Rightarrow> raw_client \<Rightarrow> (client_error + str \<times> chan) \<times> raw_client" where
  "send_command_async alive cmd self = enqueue_command alive cmd None self"

record command_stream =
  frames :: chan
  reply :: chan

definition send_command_streaming ::
  "bool \<Rightarrow> str \<Rightarrow> frame_filter \<Rightarrow> raw_client \<Rightarrow> (client_error + command_stream) \<times> raw_client" where
  "send_command_streaming alive cmd wants self =
     (let (frames_tx, self) = new_chan self in
      case enqueue_command alive cmd (Some (wants, frames_tx)) self of
        (Inl e, self) \<Rightarrow> (Inl e, self)
      | (Inr (_, r), self) \<Rightarrow> (Inr \<lparr>frames = frames_tx, reply = r\<rparr>, self))"

definition send_secret :: "bool \<Rightarrow> bytes \<Rightarrow> raw_client \<Rightarrow> (client_error + unit) \<times> raw_client" where
  "send_secret alive bs self = send_request alive (RawReq bs) self"

definition send_raw :: "bool \<Rightarrow> bytes \<Rightarrow> raw_client \<Rightarrow> (client_error + unit) \<times> raw_client" where
  "send_raw alive bs self = send_secret alive bs self"

text \<open>\<^verbatim>\<open>WriterHandle\<close> is a clone of the sending half, so sending through it is sending on the queue.\<close>

definition writer_send_raw :: "bool \<Rightarrow> bytes \<Rightarrow> raw_client \<Rightarrow> (client_error + unit) \<times> raw_client" where
  "writer_send_raw alive bs self = send_request alive (RawReq bs) self"

subsection \<open>Awaiting\<close>

text \<open>
  The result of \<^verbatim>\<open>tokio::time::timeout(d, rx)\<close>: a value, the sender dropped without sending, or the
  deadline passed.
\<close>

datatype 'a awaited = Arrived 'a | SenderGone | Elapsed

text \<open>
  What the rest of the system does: whether the write loop takes the next request, given how many
  it has taken; the outcome of a reply channel within a time; the frames of a stream passed to
  the caller before the reply, and that reply, all within a time; the first frame of a stream within
  a time (\<open>SenderGone\<close> when the stream ends without one); and a reply awaited without a deadline
  (\<open>None\<close> when its sender is gone).
\<close>

record env =
  env_open :: "nat \<Rightarrow> bool"
  env_reply :: "chan \<Rightarrow> seconds \<Rightarrow> reply awaited"
  env_exchange :: "chan \<Rightarrow> chan \<Rightarrow> seconds \<Rightarrow> bytes list \<times> reply awaited"
  env_first :: "chan \<Rightarrow> seconds \<Rightarrow> bytes awaited"
  env_wait :: "chan \<Rightarrow> reply option"

definition alive :: "env \<Rightarrow> raw_client \<Rightarrow> bool" where
  "alive e self = env_open e (length (queued self))"

fun await_reply :: "reply awaited \<Rightarrow> reply" where
  "await_reply (Arrived res) = res"
| "await_reply SenderGone = Inl ConnectionClosed"
| "await_reply Elapsed = Inl Timeout"

definition execute_command_with_timeout :: "env \<Rightarrow> str \<Rightarrow> seconds \<Rightarrow> raw_client \<Rightarrow> reply \<times> raw_client" where
  "execute_command_with_timeout e cmd timeout self =
     (case send_command_async (alive e self) cmd self of
        (Inl err, self) \<Rightarrow> (Inl err, self)
      | (Inr (_, rx), self) \<Rightarrow> (await_reply (env_reply e rx timeout), self))"

definition execute_command :: "env \<Rightarrow> str \<Rightarrow> raw_client \<Rightarrow> reply \<times> raw_client" where
  "execute_command e cmd self = execute_command_with_timeout e cmd (default_timeout self) self"

text \<open>
  \<^verbatim>\<open>execute_streaming\<close>; \<open>on_frame\<close> acts on a state \<open>st\<close> of the caller.  Frames that arrived before the
  deadline have been passed on even when the exchange times out.
\<close>

definition execute_streaming ::
  "env \<Rightarrow> str \<Rightarrow> frame_filter \<Rightarrow> (bytes \<Rightarrow> 's \<Rightarrow> 's) \<Rightarrow> 's \<Rightarrow> raw_client \<Rightarrow> reply \<times> 's \<times> raw_client" where
  "execute_streaming e cmd wants on_frame st self =
     (case send_command_streaming (alive e self) cmd wants self of
        (Inl err, self) \<Rightarrow> (Inl err, st, self)
      | (Inr stream, self) \<Rightarrow>
          (case env_exchange e (frames stream) (reply stream) (default_timeout self) of
             (fs, outcome) \<Rightarrow> (await_reply outcome, fold on_frame fs st, self)))"

subsection \<open>What is written\<close>

lemma length_command_line: "length (command_line tag cmd) = command_line_capacity tag cmd"
  by (simp add: command_line_def command_line_capacity_def)

lemma reject_line_breaks_iff:
  "reject_line_breaks cmd = Inr u \<longleftrightarrow> CR \<notin> set cmd \<and> LF \<notin> set cmd \<and> NUL \<notin> set cmd"
  by (auto simp: reject_line_breaks_def list_ex_iff)

lemma reject_line_breaks_error:
  "reject_line_breaks cmd = Inl e \<longleftrightarrow>
     (CR \<in> set cmd \<or> LF \<in> set cmd \<or> NUL \<in> set cmd)
     \<and> e = InvalidArgument ''command contains CR, LF or NUL''"
  by (auto simp: reject_line_breaks_def list_ex_iff)

text \<open>A request is well formed: a command is its tag, its text and CRLF, with no other line break.\<close>

definition one_line :: "bytes \<Rightarrow> bool" where
  "one_line bs \<longleftrightarrow> (\<exists>l. bs = l @ CRLF \<and> CR \<notin> set l \<and> LF \<notin> set l)"

lemma tag_clean: "CR \<notin> set (fst (next_tag self))" "LF \<notin> set (fst (next_tag self))" "NUL \<notin> set (fst (next_tag self))"
  using dec_pad_digits [of 4 "unat (tag_counter self)"]
  by (auto simp: next_tag_def list_all_iff is_ascii_digit_def)

lemma enqueue_command_cases:
  obtains (refused) "CR \<in> set cmd \<or> LF \<in> set cmd \<or> NUL \<in> set cmd"
    "enqueue_command al cmd col self = (Inl (InvalidArgument ''command contains CR, LF or NUL''), self)"
  | (closed) "\<not> al" "CR \<notin> set cmd" "LF \<notin> set cmd" "NUL \<notin> set cmd"
    "enqueue_command al cmd col self =
       (Inl ConnectionClosed, self\<lparr>tag_counter := tag_counter self + 1, fresh := fresh self + 1\<rparr>)"
  | (sent) al "CR \<notin> set cmd" "LF \<notin> set cmd" "NUL \<notin> set cmd"
    "enqueue_command al cmd col self =
       (Inr (fst (next_tag self), fresh self),
        self\<lparr>tag_counter := tag_counter self + 1, fresh := fresh self + 1,
          queued := queued self
            @ [CommandReq (command_line (fst (next_tag self)) cmd) (fst (next_tag self)) (fresh self) col]\<rparr>)"
  by (cases "reject_line_breaks cmd"; cases al)
    (auto simp: enqueue_command_def reject_line_breaks_iff reject_line_breaks_error Let_def
      next_tag_def new_chan_def send_request_def)

text \<open>What a command that is accepted leaves in the client.\<close>

definition sent :: "str \<Rightarrow> raw_client \<Rightarrow> raw_client" where
  "sent cmd self =
     self\<lparr>tag_counter := tag_counter self + 1, fresh := fresh self + 1,
       queued := queued self
         @ [CommandReq (command_line (fst (next_tag self)) cmd) (fst (next_tag self)) (fresh self) None]\<rparr>"

lemma execute_command_accepted:
  assumes "alive e self" "CR \<notin> set cmd" "LF \<notin> set cmd" "NUL \<notin> set cmd"
  shows "execute_command e cmd self =
    (await_reply (env_reply e (fresh self) (default_timeout self)), sent cmd self)"
  using assms
  by (cases rule: enqueue_command_cases [of cmd "alive e self" None self])
    (simp_all add: execute_command_def execute_command_with_timeout_def send_command_async_def sent_def)

text \<open>All that a client has queued are whole lines.\<close>

definition lines_only :: "raw_client \<Rightarrow> bool" where
  "lines_only self \<longleftrightarrow> (\<forall>req \<in> set (queued self). one_line (req_bytes req))"

lemma command_line_one_line:
  "CR \<notin> set cmd \<Longrightarrow> LF \<notin> set cmd \<Longrightarrow> one_line (command_line (fst (next_tag self)) cmd)"
  using tag_clean [of self] unfolding one_line_def command_line_def
  by (intro exI [of _ "(fst (next_tag self) @ [SP]) @ cmd"]) auto

lemma lines_only_enqueue:
  "lines_only self \<Longrightarrow> lines_only (snd (enqueue_command al cmd col self))"
  by (cases rule: enqueue_command_cases [of cmd al col self]) (auto simp: lines_only_def command_line_one_line)

lemma lines_only_execute:
  "lines_only self \<Longrightarrow> lines_only (snd (execute_command e cmd self))"
  using lines_only_enqueue [of self "alive e self" cmd None]
  by (auto simp: execute_command_def execute_command_with_timeout_def send_command_async_def split: prod.splits sum.splits)

lemma lines_only_send_streaming:
  assumes "lines_only self"
  shows "lines_only (snd (send_command_streaming al cmd wants self))"
proof -
  have "lines_only (self\<lparr>fresh := Suc (fresh self)\<rparr>)" using assms by (simp add: lines_only_def)
  from lines_only_enqueue [OF this, of al cmd "Some (wants, fresh self)"] show ?thesis
    by (auto simp: send_command_streaming_def new_chan_def split: prod.splits sum.splits)
qed

lemma lines_only_streaming:
  "lines_only self \<Longrightarrow> lines_only (snd (snd (execute_streaming e cmd wants on_frame st self)))"
  using lines_only_send_streaming [of self "alive e self" cmd wants]
  by (auto simp: execute_streaming_def split: prod.splits sum.splits)

lemma lines_only_send_request:
  "lines_only self \<Longrightarrow> one_line (req_bytes req) \<Longrightarrow> lines_only (snd (send_request al req self))"
  by (auto simp: send_request_def lines_only_def)

subsection \<open>Tags\<close>

text \<open>The tag of the \<open>n\<close>-th command after a client was made.\<close>

definition nth_tag :: "nat \<Rightarrow> str" where
  "nth_tag n = fst (next_tag (((\<lambda>c. snd (next_tag c)) ^^ n) raw_client_new))"

lemma tag_counter_iterate: "tag_counter (((\<lambda>c. snd (next_tag c)) ^^ n) self) = tag_counter self + of_nat n"
  by (induction n) (simp_all add: next_tag_def)

lemma tag_inject:
  "fst (next_tag a) = fst (next_tag b) \<longleftrightarrow> tag_counter a = tag_counter b"
  by (auto simp: next_tag_def word_unat_eq_iff [of "tag_counter a"] dest: dec_pad_inj)

lemma of_nat_u64_inject:
  assumes "m < 2 ^ 64" "n < 2 ^ 64"
  shows "(of_nat m :: u64) = of_nat n \<longleftrightarrow> m = n"
proof -
  have "unat (of_nat m :: u64) = m" "unat (of_nat n :: u64) = n"
    using assms by (simp_all add: unat_of_nat)
  then show ?thesis by metis
qed

lemma nth_tag_inject: "m < 2 ^ 64 \<Longrightarrow> n < 2 ^ 64 \<Longrightarrow> nth_tag m = nth_tag n \<longleftrightarrow> m = n"
  by (simp add: nth_tag_def tag_inject tag_counter_iterate of_nat_u64_inject)

end
