(* ===== verification/Dispatcher.thy ===== *)
theory Dispatcher
  imports Raw_Client Framing
begin

text \<open>
  The dispatcher of \<^verbatim>\<open>imap-client/src/client.rs\<close>: the table of pending commands, the routing of frames,
  the read loop and the write loop, and the channels between them and their callers.

  The loops are tasks that run concurrently and share the pending table behind a lock.  A state
  of the whole is the record \<open>conn\<close>; each function from \<open>submit\<close> on is what one task does between two points
  where another may run (an \<^verbatim>\<open>await\<close>), and \<open>conn_step\<close> lets any of them go next.  The read loop is at one
  of four places (\<open>reader\<close>): waiting for bytes, at the head of its inner loop, holding a frame that
  has been routed but not delivered, or stopped.

  The last three fields of \<open>conn\<close> are histories the code does not keep: the bytes read from the socket,
  the frames cut off the read buffer, and what was handed out on which channel.
\<close>

record collector =
  col_tag :: str
  col_wants :: frame_filter
  col_tx :: chan

record pending =
  replies :: "(str \<times> chan) list"
  collectors :: "collector list"

definition pending_default :: pending where
  "pending_default = \<lparr>replies = [], collectors = []\<rparr>"

definition collector_for :: "(chan \<Rightarrow> bool) \<Rightarrow> response \<Rightarrow> pending \<Rightarrow> chan option" where
  "collector_for is_closed response self =
     map_option col_tx
       (find (\<lambda>c. \<not> is_closed (col_tx c) \<and> col_wants c response) (collectors self))"

definition complete :: "str \<Rightarrow> pending \<Rightarrow> chan option \<times> pending" where
  "complete tag self =
     (map_of (replies self) tag,
      self\<lparr>collectors := filter (\<lambda>c. col_tag c \<noteq> tag) (collectors self),
           replies := AList.delete tag (replies self)\<rparr>)"

definition register :: "str \<Rightarrow> chan \<Rightarrow> (frame_filter \<times> chan) option \<Rightarrow> pending \<Rightarrow> pending" where
  "register tag reply_tx collector self =
     (let self = (case collector of
                    None \<Rightarrow> self
                  | Some (wants, tx) \<Rightarrow>
                      self\<lparr>collectors := collectors self
                        @ [\<lparr>col_tag = tag, col_wants = wants, col_tx = tx\<rparr>]\<rparr>)
      in self\<lparr>replies := AList.update tag reply_tx (replies self)\<rparr>)"

datatype route =
    TaggedRoute str status str
  | StreamRoute chan
  | BroadcastRoute

definition route_for :: "(chan \<Rightarrow> bool) \<Rightarrow> response \<Rightarrow> pending \<Rightarrow> route" where
  "route_for is_closed response pend =
     (let untagged = (case collector_for is_closed response pend of
                        Some tx \<Rightarrow> StreamRoute tx
                      | None \<Rightarrow> BroadcastRoute)
      in case response of
           StatusResp s \<Rightarrow>
             (case sr_tag s of
                Some tag \<Rightarrow> TaggedRoute tag (sr_status s) (sr_text s)
              | None \<Rightarrow> untagged)
         | _ \<Rightarrow> untagged)"

text \<open>The reply made of a tagged status frame.\<close>

fun tagged_result :: "status \<Rightarrow> str \<Rightarrow> bytes \<Rightarrow> reply" where
  "tagged_result Ok txt frame = Inr frame"
| "tagged_result No txt frame = Inl (command_failed txt)"
| "tagged_result Bad txt frame = Inl (command_failed txt)"
| "tagged_result Bye txt frame = Inl ConnectionClosed"
| "tagged_result PreAuth txt frame = Inl (command_failed txt)"

subsection \<open>The state of a connection\<close>

text \<open>What leaves the dispatcher: a tagged result, a frame of a stream, or a broadcast frame.\<close>

datatype delivery =
    ReplyTo chan reply
  | StreamTo chan bytes
  | BroadcastFrame bytes

record stream_chan =
  sc_buf :: "bytes list"
  sc_closed :: bool

datatype reader =
    AwaitingRead
  | Draining
  | Dispatching route bytes
  | ReaderDone

text \<open>The write loop: waiting for a request, in the middle of writing one, or ended.\<close>

datatype write_state =
    WriterIdle
  | Writing bytes
  | WriterDone

record conn =
  raw :: raw_client
  writer :: write_state
  wire_out :: bytes
  pend :: pending
  streams :: "chan \<Rightarrow> stream_chan"
  buffer :: bytes
  reader :: reader
  received :: bytes
  cut :: "bytes list"
  log :: "delivery list"

definition conn_new :: conn where
  "conn_new =
     \<lparr>raw = raw_client_new, writer = WriterIdle, wire_out = [], pend = pending_default,
      streams = (\<lambda>_. \<lparr>sc_buf = [], sc_closed = False\<rparr>), buffer = [], reader = AwaitingRead,
      received = [], cut = [], log = []\<rparr>"

definition is_closed :: "conn \<Rightarrow> chan \<Rightarrow> bool" where
  "is_closed c tx = sc_closed (streams c tx)"

definition broadcast :: "bytes \<Rightarrow> conn \<Rightarrow> conn" where
  "broadcast frame c = c\<lparr>log := log c @ [BroadcastFrame frame]\<rparr>"

definition oneshot_send :: "chan \<Rightarrow> reply \<Rightarrow> conn \<Rightarrow> conn" where
  "oneshot_send tx res c = c\<lparr>log := log c @ [ReplyTo tx res]\<rparr>"

text \<open>
  Every waiting command is failed and the table is emptied.  The code drains a \<^verbatim>\<open>HashMap\<close>, in no particular order; here it is the order of
  the table.
\<close>

definition fail_all_pending :: "client_error \<Rightarrow> conn \<Rightarrow> conn" where
  "fail_all_pending err c =
     fold (\<lambda>(tag, tx). oneshot_send tx (Inl err)) (replies (pend c))
       (c\<lparr>pend := \<lparr>replies = [], collectors = []\<rparr>\<rparr>)"

text \<open>
  \<^verbatim>\<open>dispatch_frame\<close>.  Sending on a stream that is full waits (\<open>None\<close>); on one whose receiver is gone it
  gives the frame back, which is then broadcast.
\<close>

fun dispatch_frame :: "route \<Rightarrow> bytes \<Rightarrow> conn \<Rightarrow> conn option" where
  "dispatch_frame (TaggedRoute tag st txt) frame c =
     (case complete tag (pend c) of
        (None, p) \<Rightarrow> Some (broadcast frame (c\<lparr>pend := p\<rparr>))
      | (Some tx, p) \<Rightarrow> Some (oneshot_send tx (tagged_result st txt frame) (c\<lparr>pend := p\<rparr>)))"
| "dispatch_frame (StreamRoute tx) frame c =
     (if is_closed c tx then Some (broadcast frame c)
      else if length (sc_buf (streams c tx)) < STREAM_CHANNEL_CAP then
        Some (c\<lparr>streams := (streams c)(tx := (streams c tx)\<lparr>sc_buf := sc_buf (streams c tx) @ [frame]\<rparr>),
                log := log c @ [StreamTo tx frame]\<rparr>)
      else None)"
| "dispatch_frame BroadcastRoute frame c = Some (broadcast frame c)"

subsection \<open>The read loop\<close>

definition read_chunk :: "bytes \<Rightarrow> conn \<Rightarrow> conn" where
  "read_chunk bs c =
     c\<lparr>buffer := buffer c @ bs, received := received c @ bs, reader := Draining\<rparr>"

text \<open>The socket at its end, or failing: \<^verbatim>\<open>Ok(0)\<close> and \<^verbatim>\<open>Err(_)\<close>.\<close>

definition read_end :: "conn \<Rightarrow> conn" where
  "read_end c = (fail_all_pending ConnectionClosed c)\<lparr>reader := ReaderDone\<rparr>"

text \<open>The check after the inner loop.\<close>

definition after_drain :: "usize \<Rightarrow> conn \<Rightarrow> conn" where
  "after_drain max_frame_size c =
     (if length (buffer c) > max_frame_size
      then (fail_all_pending (FrameTooLarge max_frame_size) c)\<lparr>reader := ReaderDone\<rparr>
      else c\<lparr>reader := AwaitingRead\<rparr>)"

text \<open>One turn of \<^verbatim>\<open>while !buffer.is_empty()\<close>, up to the call of \<^verbatim>\<open>dispatch_frame\<close>.\<close>

definition drain_turn :: "usize \<Rightarrow> conn \<Rightarrow> conn" where
  "drain_turn max_frame_size c =
     (if buffer c = [] then after_drain max_frame_size c
      else case parse_response (buffer c) of
        Inr (rem, response) \<Rightarrow>
          let consumed = length (buffer c) - length rem;
              rt = route_for (is_closed c) response (pend c);
              frame = take consumed (buffer c)
          in c\<lparr>buffer := drop consumed (buffer c), cut := cut c @ [frame],
               reader := Dispatching rt frame\<rparr>
      | Inl Incomplete \<Rightarrow> after_drain max_frame_size c
      | Inl e \<Rightarrow> (fail_all_pending (Parse e) c)\<lparr>reader := ReaderDone\<rparr>)"

definition dispatch_turn :: "conn \<Rightarrow> conn option" where
  "dispatch_turn c =
     (case reader c of
        Dispatching rt frame \<Rightarrow> map_option (\<lambda>c'. c'\<lparr>reader := Draining\<rparr>) (dispatch_frame rt frame c)
      | _ \<Rightarrow> None)"

subsection \<open>The write loop\<close>

text \<open>
  The loop takes a request; a command is registered before its bytes are written.  In the code the lock of the table is awaited between the two.  A
  request held there is neither answered nor written, as one at the head of the queue is not, so both are one step here.  The
  loop also ends when every sender is dropped; then the queue is empty and stays so, and there is no step for it.
\<close>

definition write_take :: "conn \<Rightarrow> conn option" where
  "write_take c =
     (case (writer c, queued (raw c)) of
        (WriterIdle, req # rest) \<Rightarrow>
          let c = (case req of
                     CommandReq bs tag tx col \<Rightarrow> c\<lparr>pend := register tag tx col (pend c)\<rparr>
                   | RawReq bs \<Rightarrow> c)
          in Some (c\<lparr>raw := (raw c)\<lparr>queued := rest\<rparr>, writer := Writing (req_bytes req)\<rparr>)
      | _ \<Rightarrow> None)"

text \<open>
  \<^verbatim>\<open>write_all\<close> ends after \<open>n\<close> bytes: with all of them, or with an error.  After an error the loop ends,
  and with it its queue.
\<close>

definition write_finish :: "nat \<Rightarrow> conn \<Rightarrow> conn option" where
  "write_finish n c =
     (case writer c of
        Writing bs \<Rightarrow>
          if length bs \<le> n then Some (c\<lparr>wire_out := wire_out c @ bs, writer := WriterIdle\<rparr>)
          else Some (c\<lparr>wire_out := wire_out c @ take n bs, writer := WriterDone,
                       raw := (raw c)\<lparr>queued := []\<rparr>\<rparr>)
      | _ \<Rightarrow> None)"

subsection \<open>Callers\<close>

definition accepting :: "conn \<Rightarrow> bool" where
  "accepting c \<longleftrightarrow> writer c \<noteq> WriterDone"

definition submit :: "str \<Rightarrow> frame_filter option \<Rightarrow> conn \<Rightarrow> conn" where
  "submit cmd wants c =
     (case wants of
        None \<Rightarrow> c\<lparr>raw := snd (send_command_async (accepting c) cmd (raw c))\<rparr>
      | Some w \<Rightarrow> c\<lparr>raw := snd (send_command_streaming (accepting c) cmd w (raw c))\<rparr>)"

definition submit_raw :: "bytes \<Rightarrow> conn \<Rightarrow> conn" where
  "submit_raw bs c = c\<lparr>raw := snd (send_raw (accepting c) bs (raw c))\<rparr>"

text \<open>
  \<^verbatim>\<open>CommandStream::next_frame\<close>, when a frame is buffered: the oldest one.  With none buffered (\<open>None\<close> here) the call waits,
  or, once \<open>stream_ended\<close> holds, returns the \<^verbatim>\<open>None\<close> of the code.
\<close>

definition next_frame :: "chan \<Rightarrow> conn \<Rightarrow> (bytes \<times> conn) option" where
  "next_frame ch c =
     (case sc_buf (streams c ch) of
        [] \<Rightarrow> None
      | f # fs \<Rightarrow> Some (f, c\<lparr>streams := (streams c)(ch := (streams c ch)\<lparr>sc_buf := fs\<rparr>)\<rparr>))"

text \<open>\<^verbatim>\<open>CommandStream::into_reply\<close>: close the receiver, broadcast what is still buffered.\<close>

definition into_reply :: "chan \<Rightarrow> conn \<Rightarrow> conn" where
  "into_reply ch c =
     fold broadcast (sc_buf (streams c ch))
       (c\<lparr>streams := (streams c)(ch := \<lparr>sc_buf = [], sc_closed = True\<rparr>)\<rparr>)"

text \<open>Dropping a stream: the receiver closes and what was buffered is lost.\<close>

definition drop_stream :: "chan \<Rightarrow> conn \<Rightarrow> conn" where
  "drop_stream ch c = c\<lparr>streams := (streams c)(ch := \<lparr>sc_buf = [], sc_closed = True\<rparr>)\<rparr>"

text \<open>
  The queue to the write loop holds \<open>WRITE_CHANNEL_CAP\<close> requests; sending on a full queue waits.
\<close>

inductive conn_step :: "usize \<Rightarrow> conn \<Rightarrow> conn \<Rightarrow> bool" for mx where
  step_submit: "length (queued (raw c)) < WRITE_CHANNEL_CAP \<Longrightarrow> conn_step mx c (submit cmd wants c)"
| step_submit_raw: "length (queued (raw c)) < WRITE_CHANNEL_CAP \<Longrightarrow> conn_step mx c (submit_raw bs c)"
| step_take: "write_take c = Some c' \<Longrightarrow> conn_step mx c c'"
| step_write: "write_finish n c = Some c' \<Longrightarrow> conn_step mx c c'"
| step_read: "reader c = AwaitingRead \<Longrightarrow> bs \<noteq> [] \<Longrightarrow> conn_step mx c (read_chunk bs c)"
| step_end: "reader c = AwaitingRead \<Longrightarrow> conn_step mx c (read_end c)"
| step_drain: "reader c = Draining \<Longrightarrow> conn_step mx c (drain_turn mx c)"
| step_dispatch: "dispatch_turn c = Some c' \<Longrightarrow> conn_step mx c c'"
| step_next: "next_frame ch c = Some (f, c') \<Longrightarrow> conn_step mx c c'"
| step_into_reply: "conn_step mx c (into_reply ch c)"
| step_drop: "conn_step mx c (drop_stream ch c)"

abbreviation reachable :: "usize \<Rightarrow> conn \<Rightarrow> bool" where
  "reachable mx c \<equiv> (conn_step mx)\<^sup>*\<^sup>* conn_new c"

inductive_cases conn_stepE: "conn_step mx c c'"

text \<open>
  What holds at first and is kept by every step holds in every reachable state.
\<close>

locale conn_invariant =
  fixes mx :: usize and inv :: "conn \<Rightarrow> bool"
  assumes init: "inv conn_new"
    and step: "conn_step mx c c' \<Longrightarrow> inv c \<Longrightarrow> inv c'"
begin

lemma always: "reachable mx c \<Longrightarrow> inv c"
  by (induction rule: rtranclp_induct) (auto intro: init step)

lemma stays: "(conn_step mx)\<^sup>*\<^sup>* c c' \<Longrightarrow> inv c \<Longrightarrow> inv c'"
  by (induction rule: rtranclp_induct) (auto intro: step)

end

subsection \<open>What the operations change\<close>

lemma fold_oneshot_send:
  "fold (\<lambda>(tag, tx). oneshot_send tx res) rs c = c\<lparr>log := log c @ map (\<lambda>(tag, tx). ReplyTo tx res) rs\<rparr>"
  by (induction rs arbitrary: c) (auto simp: oneshot_send_def)

lemma fail_all_pending_eq:
  "fail_all_pending err c =
     c\<lparr>pend := pending_default, log := log c @ map (\<lambda>(tag, tx). ReplyTo tx (Inl err)) (replies (pend c))\<rparr>"
  by (simp add: fail_all_pending_def fold_oneshot_send pending_default_def)

lemma fold_broadcast: "fold broadcast fs c = c\<lparr>log := log c @ map BroadcastFrame fs\<rparr>"
  by (induction fs arbitrary: c) (auto simp: broadcast_def)

lemma into_reply_eq:
  "into_reply ch c =
     c\<lparr>streams := (streams c)(ch := \<lparr>sc_buf = [], sc_closed = True\<rparr>),
       log := log c @ map BroadcastFrame (sc_buf (streams c ch))\<rparr>"
  by (simp add: into_reply_def fold_broadcast)

lemma after_drain_cases:
  obtains (large) "mx < length (buffer c)"
      "after_drain mx c = (fail_all_pending (FrameTooLarge mx) c)\<lparr>reader := ReaderDone\<rparr>"
    | (fits) "length (buffer c) \<le> mx" "after_drain mx c = c\<lparr>reader := AwaitingRead\<rparr>"
  by (cases "mx < length (buffer c)") (auto simp: after_drain_def)

text \<open>A turn of the inner loop either cuts a frame off or stops.\<close>

lemma drain_turn_cases:
  obtains (frame) rem r f where "parse_response (buffer c) = Inr (rem, r)" "buffer c = f @ rem" "f \<noteq> []"
      "drain_turn mx c = c\<lparr>buffer := rem, cut := cut c @ [f],
         reader := Dispatching (route_for (is_closed c) r (pend c)) f\<rparr>"
    | (wait) "parse_response (buffer c) = Inl Incomplete" "length (buffer c) \<le> mx"
      "drain_turn mx c = c\<lparr>reader := AwaitingRead\<rparr>"
    | (large) "parse_response (buffer c) = Inl Incomplete" "mx < length (buffer c)"
      "drain_turn mx c = (fail_all_pending (FrameTooLarge mx) c)\<lparr>reader := ReaderDone\<rparr>"
    | (bad) e where "parse_response (buffer c) = Inl e" "hard e"
      "drain_turn mx c = (fail_all_pending (Parse e) c)\<lparr>reader := ReaderDone\<rparr>"
proof (cases "parse_response (buffer c)")
  case (Inl e)
  show thesis
  proof (cases "hard e")
    case True
    with Inl imap.empty have "drain_turn mx c = (fail_all_pending (Parse e) c)\<lparr>reader := ReaderDone\<rparr>"
      by (cases e) (auto simp: drain_turn_def hard_def)
    with bad Inl True show thesis by blast
  next
    case False
    with Inl have "parse_response (buffer c) = Inl Incomplete" "drain_turn mx c = after_drain mx c"
      by (auto simp: drain_turn_def hard_def)
    then show thesis by (cases mx c rule: after_drain_cases) (use wait large in auto)
  qed
next
  case (Inr p)
  then obtain rem r where p: "parse_response (buffer c) = Inr (rem, r)" by (cases p) auto
  from imap.progress [OF p] obtain f where "f \<noteq> []" "buffer c = f @ rem" by blast
  with p frame show thesis by (auto simp: drain_turn_def Let_def)
qed

text \<open>A delivery that completes: to a waiter, into a stream, or to the broadcast.\<close>

lemma dispatch_turn_cases:
  assumes "dispatch_turn c = Some c'"
  obtains (reply) tag st msg f tx where "reader c = Dispatching (TaggedRoute tag st msg) f"
      "map_of (replies (pend c)) tag = Some tx"
      "c' = c\<lparr>pend := snd (complete tag (pend c)), log := log c @ [ReplyTo tx (tagged_result st msg f)],
             reader := Draining\<rparr>"
    | (nobody) tag st msg f where "reader c = Dispatching (TaggedRoute tag st msg) f"
      "map_of (replies (pend c)) tag = None"
      "c' = c\<lparr>pend := snd (complete tag (pend c)), log := log c @ [BroadcastFrame f], reader := Draining\<rparr>"
    | (stream) tx f where "reader c = Dispatching (StreamRoute tx) f" "\<not> sc_closed (streams c tx)"
      "length (sc_buf (streams c tx)) < STREAM_CHANNEL_CAP"
      "c' = c\<lparr>streams := (streams c)(tx := (streams c tx)\<lparr>sc_buf := sc_buf (streams c tx) @ [f]\<rparr>),
              log := log c @ [StreamTo tx f], reader := Draining\<rparr>"
    | (broadcast) rt f where "reader c = Dispatching rt f" "rt = BroadcastRoute \<or> (\<exists>tx. rt = StreamRoute tx)"
      "c' = c\<lparr>log := log c @ [BroadcastFrame f], reader := Draining\<rparr>"
proof (cases "reader c")
  case (Dispatching rt f)
  with assms have d: "\<exists>c1. dispatch_frame rt f c = Some c1 \<and> c' = c1\<lparr>reader := Draining\<rparr>"
    by (auto simp: dispatch_turn_def)
  show thesis
  proof (cases rt)
    case (TaggedRoute tag st msg)
    with d Dispatching show thesis
      by (cases "map_of (replies (pend c)) tag")
        (auto simp: complete_def oneshot_send_def broadcast_def intro: reply nobody)
  next
    case (StreamRoute tx)
    with d Dispatching show thesis
      by (auto simp: is_closed_def broadcast_def split: if_splits intro: stream broadcast)
  next
    case BroadcastRoute
    with d Dispatching show thesis by (auto simp: broadcast_def intro: broadcast)
  qed
qed (use assms in \<open>simp_all add: dispatch_turn_def\<close>)

end
