(* ===== verification/Dispatcher_Inv.thy ===== *)
theory Dispatcher_Inv
  imports Dispatcher "HOL-Library.Multiset" "HOL-Library.Sublist"
begin

text \<open>
  Invariants of a connection: they hold in every state the loops and their callers can
  reach, in whatever order the tasks run and however the bytes arrive.
\<close>

lemma submit_cases:
  obtains (same) "submit cmd wants c = c"
    | (skipped) k where "submit cmd wants c =
        c\<lparr>raw := (raw c)\<lparr>tag_counter := tag_counter (raw c) + 1, fresh := fresh (raw c) + k\<rparr>\<rparr>"
    | (burnt) "submit cmd wants c = c\<lparr>raw := (raw c)\<lparr>fresh := fresh (raw c) + 1\<rparr>\<rparr>"
    | (plain) tag where "CR \<notin> set cmd" "LF \<notin> set cmd" "NUL \<notin> set cmd" "wants = None" "tag = fst (next_tag (raw c))"
      "submit cmd wants c =
        c\<lparr>raw := (raw c)\<lparr>tag_counter := tag_counter (raw c) + 1, fresh := fresh (raw c) + 1,
           queued := queued (raw c) @ [CommandReq (command_line tag cmd) tag (fresh (raw c)) None]\<rparr>\<rparr>"
    | (streaming) tag w where "CR \<notin> set cmd" "LF \<notin> set cmd" "NUL \<notin> set cmd" "wants = Some w" "tag = fst (next_tag (raw c))"
      "submit cmd wants c =
        c\<lparr>raw := (raw c)\<lparr>tag_counter := tag_counter (raw c) + 1, fresh := fresh (raw c) + 2,
           queued := queued (raw c) @ [CommandReq (command_line tag cmd) tag (Suc (fresh (raw c)))
             (Some (w, fresh (raw c)))]\<rparr>\<rparr>"
proof (cases wants)
  case None
  show thesis
  proof (cases rule: enqueue_command_cases [of cmd "accepting c" None "raw c"])
    case refused
    with None same show thesis by (simp add: submit_def send_command_async_def)
  next
    case closed
    with None skipped [of 1] show thesis by (simp add: submit_def send_command_async_def)
  next
    case sent
    with None plain show thesis by (simp add: submit_def send_command_async_def)
  qed
next
  case (Some w)
  let ?r = "(raw c)\<lparr>fresh := Suc (fresh (raw c))\<rparr>"
  have tag: "fst (next_tag ?r) = fst (next_tag (raw c))" by (simp add: next_tag_def)
  show thesis
  proof (cases rule: enqueue_command_cases [of cmd "accepting c" "Some (w, fresh (raw c))" ?r])
    case refused
    with Some burnt show thesis by (simp add: submit_def send_command_streaming_def new_chan_def)
  next
    case closed
    with Some skipped [of 2] show thesis by (simp add: submit_def send_command_streaming_def new_chan_def)
  next
    case sent
    with Some streaming tag show thesis by (simp add: submit_def send_command_streaming_def new_chan_def)
  qed
qed

lemma submit_raw_cases:
  obtains (same) "submit_raw bs c = c"
    | (sent) "submit_raw bs c = c\<lparr>raw := (raw c)\<lparr>queued := queued (raw c) @ [RawReq bs]\<rparr>\<rparr>"
  by (cases "accepting c") (auto simp: submit_raw_def send_raw_def send_secret_def send_request_def)

lemma write_take_cases:
  assumes "write_take c = Some c'"
  obtains (command) bs tag tx col rest where "queued (raw c) = CommandReq bs tag tx col # rest" "writer c = WriterIdle"
      "c' = c\<lparr>pend := register tag tx col (pend c), raw := (raw c)\<lparr>queued := rest\<rparr>, writer := Writing bs\<rparr>"
    | (raw) bs rest where "queued (raw c) = RawReq bs # rest" "writer c = WriterIdle"
      "c' = c\<lparr>raw := (raw c)\<lparr>queued := rest\<rparr>, writer := Writing bs\<rparr>"
  using assms by (auto simp: write_take_def Let_def split: write_state.splits list.splits write_request.splits)

lemma write_finish_cases:
  assumes "write_finish n c = Some c'"
  obtains (all) bs where "writer c = Writing bs" "c' = c\<lparr>wire_out := wire_out c @ bs, writer := WriterIdle\<rparr>"
    | (failed) bs where "writer c = Writing bs"
      "c' = c\<lparr>wire_out := wire_out c @ take n bs, writer := WriterDone, raw := (raw c)\<lparr>queued := []\<rparr>\<rparr>"
  using assms by (auto simp: write_finish_def split: write_state.splits if_splits)

lemma next_frame_cases:
  assumes "next_frame ch c = Some (f, c')"
  obtains fs where "sc_buf (streams c ch) = f # fs"
    "c' = c\<lparr>streams := (streams c)(ch := (streams c ch)\<lparr>sc_buf := fs\<rparr>)\<rparr>"
  using assms by (auto simp: next_frame_def split: list.splits)

text \<open>The steps that leave the reader, the buffer and the histories alone.\<close>

lemma write_side_frame:
  "reader (submit cmd w c) = reader c" "buffer (submit cmd w c) = buffer c"
  "received (submit cmd w c) = received c" "cut (submit cmd w c) = cut c" "log (submit cmd w c) = log c"
  "pend (submit cmd w c) = pend c" "streams (submit cmd w c) = streams c" "writer (submit cmd w c) = writer c"
  "wire_out (submit cmd w c) = wire_out c"
  "reader (submit_raw bs c) = reader c" "buffer (submit_raw bs c) = buffer c"
  "received (submit_raw bs c) = received c" "cut (submit_raw bs c) = cut c" "log (submit_raw bs c) = log c"
  "pend (submit_raw bs c) = pend c" "streams (submit_raw bs c) = streams c" "writer (submit_raw bs c) = writer c"
  "wire_out (submit_raw bs c) = wire_out c"
  by (simp_all add: submit_def submit_raw_def split: option.split)

lemma write_take_frame:
  assumes "write_take c = Some c'"
  shows "reader c' = reader c" "buffer c' = buffer c" "received c' = received c" "cut c' = cut c" "log c' = log c"
    "streams c' = streams c" "wire_out c' = wire_out c"
  using assms by (auto elim!: write_take_cases)

lemma write_finish_frame:
  assumes "write_finish n c = Some c'"
  shows "reader c' = reader c" "buffer c' = buffer c" "received c' = received c" "cut c' = cut c" "log c' = log c"
    "streams c' = streams c" "pend c' = pend c"
  using assms by (auto elim!: write_finish_cases)

lemma next_frame_frame:
  assumes "next_frame ch c = Some (f, c')"
  shows "reader c' = reader c" "buffer c' = buffer c" "received c' = received c" "cut c' = cut c" "log c' = log c"
    "pend c' = pend c" "raw c' = raw c" "writer c' = writer c" "wire_out c' = wire_out c"
  using assms by (auto elim!: next_frame_cases)

lemmas conn_frame = write_side_frame write_take_frame write_finish_frame next_frame_frame

subsection \<open>Framing\<close>

text \<open>
  The frames cut off and the buffer are the bytes received; the frames are those that cutting
  up everything received at once would give first, and while the loop waits for bytes they are all of
  them, with a buffer no longer than the ceiling.
\<close>

definition framed :: "usize \<Rightarrow> conn \<Rightarrow> bool" where
  "framed mx c \<longleftrightarrow>
     received c = concat (cut c) @ buffer c
     \<and> (\<exists>fs. map fst fs = cut c
          \<and> split_frames parse_response (received c) =
             (case split_frames parse_response (buffer c) of (gs, left, err) \<Rightarrow> (fs @ gs, left, err)))
     \<and> (reader c = AwaitingRead \<longrightarrow>
          parse_response (buffer c) = Inl Incomplete \<and> length (buffer c) \<le> mx)"

lemma framed_same:
  assumes "framed mx c" "reader c' = reader c" "buffer c' = buffer c" "received c' = received c" "cut c' = cut c"
  shows "framed mx c'"
  using assms(1) unfolding framed_def assms(2-) .

lemma framed_busy:
  assumes "framed mx c" "reader c' \<noteq> AwaitingRead" "buffer c' = buffer c" "received c' = received c" "cut c' = cut c"
  shows "framed mx c'"
  using assms(1,2) unfolding framed_def assms(3-) by blast

lemma framed_read:
  assumes "framed mx c" "reader c = AwaitingRead"
  shows "framed mx (read_chunk bs c)"
proof -
  from assms obtain fs where fs: "map fst fs = cut c" "parse_response (buffer c) = Inl Incomplete"
    "split_frames parse_response (received c) =
       (case split_frames parse_response (buffer c) of (gs, left, err) \<Rightarrow> (fs @ gs, left, err))"
    by (auto simp: framed_def)
  then have "split_frames parse_response (received c) = (fs, buffer c, None)"
    by (simp add: imap.split_stop hard_def)
  from imap.split_extend [OF this, of bs] fs assms show ?thesis
    by (auto simp: framed_def read_chunk_def)
qed

lemma framed_drain:
  assumes "framed mx c"
  shows "framed mx (drain_turn mx c)"
proof (cases rule: drain_turn_cases [of c mx])
  case (frame rem r f)
  from assms obtain fs where fs: "map fst fs = cut c" "split_frames parse_response (received c) =
      (case split_frames parse_response (buffer c) of (gs, left, err) \<Rightarrow> (fs @ gs, left, err))"
    by (auto simp: framed_def)
  have "split_frames parse_response (received c) =
      (case split_frames parse_response rem of (gs, left, err) \<Rightarrow> ((fs @ [(f, r)]) @ gs, left, err))"
    using fs(2) imap.split_frame [OF frame(1)] frame(2) by (simp split: prod.splits)
  moreover have "map fst (fs @ [(f, r)]) = cut c @ [f]" using fs(1) by simp
  ultimately show ?thesis
    using assms frame(2,4) unfolding framed_def
    by (auto intro!: exI [of _ "fs @ [(f, r)]"])
qed (use assms in \<open>auto simp: framed_def fail_all_pending_eq\<close>)

interpretation framing: conn_invariant mx "framed mx" for mx
proof
  show "framed mx conn_new"
    by (auto simp: framed_def conn_new_def imap.empty split: prod.splits)
  fix c c'
  assume "conn_step mx c c'" "framed mx c"
  then show "framed mx c'"
  proof (induction rule: conn_step.induct)
    case (step_dispatch c c')
    then show ?case
      by (auto elim!: dispatch_turn_cases intro: framed_busy)
  qed (auto intro: framed_same framed_read framed_drain simp: conn_frame into_reply_eq drop_stream_def
       fail_all_pending_eq read_end_def elim: framed_busy)
qed

lemma split_all:
  assumes "reachable mx c"
  obtains fs where "map fst fs = cut c" "received c = concat (cut c) @ buffer c"
    "split_frames parse_response (received c) =
       (case split_frames parse_response (buffer c) of (gs, left, err) \<Rightarrow> (fs @ gs, left, err))"
  using framing.always [OF assms] by (auto simp: framed_def)

subsection \<open>Replies\<close>

fun req_chans :: "write_request \<Rightarrow> chan list" where
  "req_chans (CommandReq bs tag tx col) = [tx]"
| "req_chans (RawReq bs) = []"

fun replied :: "delivery \<Rightarrow> chan list" where
  "replied (ReplyTo tx res) = [tx]"
| "replied (StreamTo tx f) = []"
| "replied (BroadcastFrame f) = []"

definition answered :: "conn \<Rightarrow> chan list" where
  "answered c = concat (map replied (log c))"

definition awaiting :: "conn \<Rightarrow> chan list" where
  "awaiting c = concat (map req_chans (queued (raw c))) @ map snd (replies (pend c))"

text \<open>No reply channel occurs twice: not in the queue, not in the table, not among the answered ones.\<close>

definition reply_once :: "conn \<Rightarrow> bool" where
  "reply_once c \<longleftrightarrow>
     distinct (awaiting c @ answered c) \<and> (\<forall>ch \<in> set (awaiting c @ answered c). ch < fresh (raw c))
     \<and> distinct (map fst (replies (pend c)))"

lemma distinct_mset_mono:
  assumes "mset xs \<subseteq># mset ys" "distinct ys"
  shows "distinct xs"
  unfolding distinct_count_atmost_1
proof
  fix a
  have "count (mset xs) a \<le> count (mset ys) a" using assms(1) by (rule mset_subset_eq_count)
  also have "\<dots> \<le> 1" using assms(2) by (simp add: distinct_count_atmost_1)
  finally have "count (mset xs) a \<le> 1" .
  moreover have "a \<in> set xs \<longleftrightarrow> count (mset xs) a \<noteq> 0" by (simp add: count_mset_0_iff)
  ultimately show "count (mset xs) a = (if a \<in> set xs then 1 else 0)"
    by presburger
qed

lemma mset_update: "mset (map snd (AList.update k v xs)) \<subseteq># add_mset v (mset (map snd xs))"
  by (induction xs) (auto simp: subset_mset.add_increasing add_mset_commute)

lemma mset_delete:
  "map_of xs k = Some v \<Longrightarrow> add_mset v (mset (map snd (AList.delete k xs))) \<subseteq># mset (map snd xs)"
proof (induction xs)
  case (Cons p xs)
  have "mset (map snd (AList.delete k xs)) \<subseteq># mset (map snd xs)"
    unfolding AList.delete_eq by (simp add: mset_filter multiset_filter_subset image_mset_subseteq_mono)
  with Cons show ?case by (cases p) (auto simp: add_mset_commute)
qed simp

lemma reply_once_mono:
  assumes "reply_once c" "mset (awaiting c' @ answered c') \<subseteq># mset (awaiting c @ answered c)"
    "fresh (raw c) \<le> fresh (raw c')" "distinct (map fst (replies (pend c')))"
  shows "reply_once c'"
proof -
  have "set (awaiting c' @ answered c') \<subseteq> set (awaiting c @ answered c)"
    using set_mset_mono [OF assms(2)] by (simp only: set_mset_mset)
  with assms distinct_mset_mono [OF assms(2)] show ?thesis
    unfolding reply_once_def by (meson order_less_le_trans subsetD)
qed

lemma reply_once_fresh:
  assumes "reply_once c" "mset (awaiting c' @ answered c') = add_mset ch (mset (awaiting c @ answered c))"
    "fresh (raw c) \<le> ch" "ch < fresh (raw c')" "pend c' = pend c"
  shows "reply_once c'"
proof -
  have "mset (awaiting c' @ answered c') = mset (ch # awaiting c @ answered c)" using assms(2) by simp
  then have "distinct (awaiting c' @ answered c') = distinct (ch # awaiting c @ answered c)"
    "set (awaiting c' @ answered c') = set (ch # awaiting c @ answered c)"
    by (rule mset_eq_imp_distinct_iff, rule mset_eq_setD)
  moreover have "ch \<notin> set (awaiting c @ answered c)"
    "\<forall>x \<in> set (awaiting c @ answered c). x < fresh (raw c')"
    using assms(1,3,4) unfolding reply_once_def
    by (blast dest: leD, meson order_less_le_trans order_less_imp_le)
  ultimately show ?thesis
    using assms(1,4,5) unfolding reply_once_def by (simp only: set_simps distinct.simps ball_simps simp_thms)
qed

lemma replies_complete: "replies (snd (complete tag p)) = AList.delete tag (replies p)"
  by (simp add: complete_def)

lemma replies_register: "replies (register tag tx col p) = AList.update tag tx (replies p)"
  by (simp add: register_def Let_def split: option.split)

lemma answered_snoc: "log c' = log c @ ds \<Longrightarrow> answered c' = answered c @ concat (map replied ds)"
  by (simp add: answered_def)

lemma replied_map:
  "concat (map (replied \<circ> (\<lambda>(tag, tx). ReplyTo tx res)) rs) = map snd rs"
  "concat (map (replied \<circ> BroadcastFrame) fs) = []"
  by (induction rs) (auto simp: o_def)

lemma reply_once_same:
  assumes "reply_once c" "queued (raw c') = queued (raw c) \<or> queued (raw c') = []" "pend c' = pend c"
    "answered c' = answered c" "fresh (raw c) \<le> fresh (raw c')"
  shows "reply_once c'"
  using assms by (intro reply_once_mono [OF assms(1)]) (auto simp: awaiting_def reply_once_def)

lemma reply_once_submit:
  assumes "reply_once c"
  shows "reply_once (submit cmd wants c)"
proof (cases rule: submit_cases [of cmd wants c])
  case (plain tag)
  with assms show ?thesis
    by (intro reply_once_fresh [OF assms, where ch = "fresh (raw c)"]) (auto simp: awaiting_def answered_def)
next
  case (streaming tag w)
  with assms show ?thesis
    by (intro reply_once_fresh [OF assms, where ch = "Suc (fresh (raw c))"]) (auto simp: awaiting_def answered_def)
qed (use assms in \<open>auto intro!: reply_once_same [OF assms] simp: answered_def\<close>)

lemma reply_once_take:
  assumes "reply_once c" "write_take c = Some c'"
  shows "reply_once c'"
  using assms(2)
proof (cases rule: write_take_cases)
  case (command bs tag tx col rest)
  have "mset (map snd (AList.update tag tx (replies (pend c)))) \<subseteq># add_mset tx (mset (map snd (replies (pend c))))"
    by (rule mset_update)
  with command assms show ?thesis
    by (intro reply_once_mono [OF assms(1)])
      (auto simp: awaiting_def answered_def replies_register reply_once_def distinct_update)
next
  case raw
  with assms show ?thesis
    by (intro reply_once_mono [OF assms(1)]) (auto simp: awaiting_def answered_def reply_once_def)
qed

lemma reply_once_dispatch:
  assumes "reply_once c" "dispatch_turn c = Some c'"
  shows "reply_once c'"
  using assms(2)
proof (cases rule: dispatch_turn_cases)
  case (reply tag st msg f tx)
  have "add_mset tx (mset (map snd (AList.delete tag (replies (pend c))))) \<subseteq># mset (map snd (replies (pend c)))"
    using reply(2) by (rule mset_delete)
  with reply assms show ?thesis
    by (intro reply_once_mono [OF assms(1)])
      (auto simp: awaiting_def answered_def replies_complete reply_once_def distinct_delete)
next
  case (nobody tag st msg f)
  have "AList.delete tag (replies (pend c)) = replies (pend c)"
    using nobody(2) by (simp add: delete_id map_of_eq_None_iff)
  with nobody assms show ?thesis
    by (intro reply_once_mono [OF assms(1)]) (auto simp: awaiting_def answered_def replies_complete reply_once_def)
qed (use assms in \<open>auto intro!: reply_once_same [OF assms(1)] simp: answered_def\<close>)

lemma reply_once_fail:
  assumes "reply_once c"
  shows "reply_once ((fail_all_pending err c)\<lparr>reader := r\<rparr>)"
  by (rule reply_once_mono [OF assms])
    (auto simp: fail_all_pending_eq awaiting_def answered_def replied_map pending_default_def)

lemma reply_once_drain:
  assumes "reply_once c"
  shows "reply_once (drain_turn mx c)"
proof (cases rule: drain_turn_cases [of c mx])
  case (frame rem r f)
  then show ?thesis by (auto intro!: reply_once_same [OF assms] simp: answered_def)
next
  case wait
  then show ?thesis by (auto intro!: reply_once_same [OF assms] simp: answered_def)
qed (use assms in \<open>auto intro: reply_once_fail\<close>)

interpretation replies: conn_invariant mx reply_once for mx
proof
  show "reply_once conn_new"
    by (simp add: reply_once_def conn_new_def awaiting_def answered_def raw_client_new_def pending_default_def)
  fix c c'
  assume "conn_step mx c c'" "reply_once c"
  then show "reply_once c'"
  proof (induction rule: conn_step.induct)
    case (step_submit_raw c bs)
    then show ?case
      by (cases rule: submit_raw_cases [of bs c])
        (auto intro!: reply_once_mono [OF step_submit_raw(2)] simp: awaiting_def answered_def reply_once_def)
  next
    case (step_write n c c')
    then show ?case
      by (auto elim!: write_finish_cases intro!: reply_once_same [OF step_write(2)] simp: answered_def)
  next
    case (step_into_reply c ch)
    then show ?case
      by (auto intro!: reply_once_same [OF step_into_reply] simp: into_reply_eq answered_def replied_map)
  qed (auto intro: reply_once_submit reply_once_take reply_once_dispatch reply_once_drain reply_once_fail
        simp: read_end_def,
       auto simp: reply_once_def awaiting_def answered_def read_chunk_def drop_stream_def conn_frame)
qed

end
