(* ===== verification/Dispatcher_Streams.thy ===== *)
theory Dispatcher_Streams
  imports Dispatcher_Inv
begin

text \<open>
  Invariants on the streams of a connection: which command a stream belongs to, and that it ends with
  the reply to that command.
\<close>

subsection \<open>A stream ends with its command\<close>

text \<open>
  A streaming command draws its stream and then its reply channel, so the reply to the command
  of stream \<open>s\<close> comes on channel \<open>Suc s\<close>.  A collector is in the table only as long as its command is, under
  the same tag; a channel taken for granted by nobody (its entry was overwritten after a
  wrap-around of the tags) is never answered.
\<close>

fun req_collector_of :: "write_request \<Rightarrow> (frame_filter \<times> chan) option" where
  "req_collector_of (CommandReq bs tag tx col) = col"
| "req_collector_of (RawReq bs) = None"

definition req_paired :: "write_request \<Rightarrow> bool" where
  "req_paired req \<longleftrightarrow> (\<forall>w s. req_collector_of req = Some (w, s) \<longrightarrow> req_chans req = [Suc s])"

definition col_ok :: "conn \<Rightarrow> collector \<Rightarrow> bool" where
  "col_ok c col \<longleftrightarrow> Suc (col_tx col) < fresh (raw c)
     \<and> (Suc (col_tx col) \<in> set (awaiting c) \<union> set (answered c)
        \<longrightarrow> (col_tag col, Suc (col_tx col)) \<in> set (replies (pend c)))"

definition route_open :: "conn \<Rightarrow> bool" where
  "route_open c \<longleftrightarrow> (\<forall>s f. reader c = Dispatching (StreamRoute s) f \<longrightarrow> Suc s \<notin> set (answered c))"

definition streams_closed :: "delivery list \<Rightarrow> bool" where
  "streams_closed = sorted_wrt (\<lambda>d e. \<forall>s r f. \<not> (d = ReplyTo (Suc s) r \<and> e = StreamTo s f))"

definition well_ended :: "conn \<Rightarrow> bool" where
  "well_ended c \<longleftrightarrow> reply_once c \<and> (\<forall>req \<in> set (queued (raw c)). req_paired req)
     \<and> (\<forall>col \<in> set (collectors (pend c)). col_ok c col) \<and> route_open c \<and> streams_closed (log c)"

lemma set_answered: "x \<in> set (answered c) \<longleftrightarrow> (\<exists>r. ReplyTo x r \<in> set (log c))"
proof -
  have "x \<in> set (replied d) \<longleftrightarrow> (\<exists>r. d = ReplyTo x r)" for d by (cases d) auto
  then show ?thesis by (auto simp: answered_def)
qed

lemma streams_closed_snoc:
  "streams_closed (ds @ [e]) \<longleftrightarrow>
     streams_closed ds \<and> (\<forall>s f. e = StreamTo s f \<longrightarrow> (\<forall>r. ReplyTo (Suc s) r \<notin> set ds))"
  by (auto simp: streams_closed_def sorted_wrt_append)

lemma streams_closed_other:
  "\<forall>e \<in> set es. \<forall>s f. e \<noteq> StreamTo s f \<Longrightarrow> streams_closed (ds @ es) \<longleftrightarrow> streams_closed ds"
proof (induction es rule: rev_induct)
  case (snoc e es)
  then show ?case using streams_closed_snoc [of "ds @ es" e] by auto
qed simp

lemma streams_closed_simps:
  "streams_closed (ds @ map (\<lambda>(tag, tx). ReplyTo tx res) rs) = streams_closed ds"
  "streams_closed (ds @ map BroadcastFrame fs) = streams_closed ds"
  by (rule streams_closed_other; auto)+

lemma not_answered:
  "reply_once c \<Longrightarrow> (tag, tx) \<in> set (replies (pend c)) \<Longrightarrow> tx \<notin> set (answered c)"
  by (force simp: reply_once_def awaiting_def)

lemma awaiting_iff:
  "x \<in> set (awaiting c) \<longleftrightarrow>
     (\<exists>req \<in> set (queued (raw c)). x \<in> set (req_chans req)) \<or> (\<exists>tag. (tag, x) \<in> set (replies (pend c)))"
  by (force simp: awaiting_def)

lemma not_queued:
  assumes "reply_once c" "(tag, tx) \<in> set (replies (pend c))" "req \<in> set (queued (raw c))"
  shows "tx \<notin> set (req_chans req)"
proof
  assume "tx \<in> set (req_chans req)"
  with assms(3) have "tx \<in> set (concat (map req_chans (queued (raw c))))" by auto
  moreover have "tx \<in> set (map snd (replies (pend c)))" using assms(2) by force
  ultimately show False using assms(1) unfolding reply_once_def awaiting_def distinct_append by blast
qed

lemma reply_tag_unique:
  assumes "reply_once c" "(t, tx) \<in> set (replies (pend c))" "(t', tx) \<in> set (replies (pend c))"
  shows "t = t'"
proof -
  have "distinct (map snd (replies (pend c)))" using assms(1) by (simp add: reply_once_def awaiting_def)
  with assms(2,3) show ?thesis by (metis Pair_inject distinct_map inj_onD snd_conv)
qed

text \<open>Steps that add no collector and touch no reply keep the pairing.\<close>

lemma col_ok_mono:
  assumes "col_ok c col" "fresh (raw c) \<le> fresh (raw c')"
    "\<And>x. x \<in> set (awaiting c') \<union> set (answered c') \<Longrightarrow> x < fresh (raw c) \<Longrightarrow> x \<in> set (awaiting c) \<union> set (answered c)"
    "replies (pend c') = replies (pend c)"
  shows "col_ok c' col"
  using assms unfolding col_ok_def by (metis order_less_le_trans)

lemma well_ended_same:
  assumes "well_ended c" "reply_once c'" "set (queued (raw c')) \<subseteq> set (queued (raw c))" "fresh (raw c) \<le> fresh (raw c')"
    "pend c' = pend c" "answered c' = answered c" "streams_closed (log c')"
    "\<And>s f. reader c' = Dispatching (StreamRoute s) f \<Longrightarrow> reader c = reader c'"
  shows "well_ended c'"
proof -
  have "col_ok c' col" if "col \<in> set (collectors (pend c))" for col
  proof (rule col_ok_mono)
    show "col_ok c col" using that assms(1) by (simp add: well_ended_def)
    fix x
    assume "x \<in> set (awaiting c') \<union> set (answered c')"
    with assms(3,5,6) show "x \<in> set (awaiting c) \<union> set (answered c)"
      by (auto simp: awaiting_iff)
  qed (use assms(4,5) in auto)
  moreover have "route_open c'"
    using assms(1,6,8) unfolding well_ended_def route_open_def by metis
  ultimately show ?thesis using assms(1-3,5,7) unfolding well_ended_def by auto
qed

lemma well_ended_submit:
  assumes "well_ended c"
  shows "well_ended (submit cmd wants c)"
proof -
  let ?c = "submit cmd wants c"
  have r: "reply_once ?c" using assms reply_once_submit by (simp add: well_ended_def)
  have sub: "req \<in> set (queued (raw c)) \<or> req_paired req \<and> (\<forall>x \<in> set (req_chans req). fresh (raw c) \<le> x)"
    if "req \<in> set (queued (raw ?c))" for req
    using that by (cases rule: submit_cases [of cmd wants c]) (auto simp: req_paired_def)
  then have q: "\<forall>req \<in> set (queued (raw ?c)). req_paired req"
    using assms unfolding well_ended_def by blast
  have new: "req \<in> set (queued (raw c))"
    if "req \<in> set (queued (raw ?c))" "x \<in> set (req_chans req)" "x < fresh (raw c)" for req x
    using sub [OF that(1)] that(2,3) leD by blast
  have f: "fresh (raw c) \<le> fresh (raw ?c)"
    by (cases rule: submit_cases [of cmd wants c]) auto
  have n: "x \<in> set (awaiting c)" if "x \<in> set (awaiting ?c)" "x < fresh (raw c)" for x
    using that new by (auto simp: awaiting_iff write_side_frame)
  have ans: "answered ?c = answered c" by (simp add: answered_def write_side_frame)
  have "col_ok ?c col" if "col \<in> set (collectors (pend c))" for col
    by (rule col_ok_mono [of c]) (use that assms f n ans in \<open>auto simp: well_ended_def write_side_frame\<close>)
  with r q assms ans show ?thesis
    by (simp add: well_ended_def write_side_frame route_open_def)
qed

lemma replies_register_iff:
  "distinct (map fst (replies p)) \<Longrightarrow>
   (t, x) \<in> set (replies (register tag tx col p)) \<longleftrightarrow> (if t = tag then x = tx else (t, x) \<in> set (replies p))"
  using map_of_eq_Some_iff [of "replies p" t x] map_of_eq_Some_iff [OF distinct_update, of "replies p" tag tx t x]
  by (auto simp: replies_register update_conv split: if_splits)

lemma replies_complete_iff:
  "(t, x) \<in> set (replies (snd (complete tag p))) \<longleftrightarrow> t \<noteq> tag \<and> (t, x) \<in> set (replies p)"
  by (auto simp: replies_complete AList.delete_eq)

lemma collectors_register:
  "set (collectors (register tag tx col p)) =
     set (collectors p) \<union> {\<lparr>col_tag = tag, col_wants = w, col_tx = s\<rparr> | w s. col = Some (w, s)}"
  by (auto simp: register_def Let_def split: option.split)

lemma collectors_complete:
  "set (collectors (snd (complete tag p))) = {col \<in> set (collectors p). col_tag col \<noteq> tag}"
  by (auto simp: complete_def)

lemma well_ended_take:
  assumes "well_ended c" "write_take c = Some c'"
  shows "well_ended c'"
  using assms(2)
proof (cases rule: write_take_cases)
  case (command bs tag tx col rest)
  have once: "reply_once c" "reply_once c'" using assms reply_once_take by (auto simp: well_ended_def)
  have ans: "answered c' = answered c" using assms(2) by (simp add: answered_def write_take_frame)
  have tx: "tx < fresh (raw c)" "\<forall>w s. col = Some (w, s) \<longrightarrow> tx = Suc s"
    using assms(1) command(1) by (auto simp: well_ended_def req_paired_def reply_once_def awaiting_def)
  have rep: "(t, x) \<in> set (replies (pend c')) \<longleftrightarrow> (if t = tag then x = tx else (t, x) \<in> set (replies (pend c)))" for t x
    using command once(1) by (simp add: reply_once_def replies_register_iff)
  have old: "col_ok c' d" if d: "d \<in> set (collectors (pend c))" for d
  proof -
    let ?x = "Suc (col_tx d)"
    have ok: "col_ok c d" using d assms(1) by (simp add: well_ended_def)
    have "(col_tag d, ?x) \<in> set (replies (pend c'))" if x: "?x \<in> set (awaiting c') \<union> set (answered c')"
    proof (rule ccontr)
      assume no: "(col_tag d, ?x) \<notin> set (replies (pend c'))"
      have "?x \<in> set (awaiting c) \<union> set (answered c)"
        using x command ans rep by (auto simp: awaiting_iff split: if_splits)
      with ok have was: "(col_tag d, ?x) \<in> set (replies (pend c))" unfolding col_ok_def by blast
      with no rep have gone: "col_tag d = tag" "?x \<noteq> tx" by (auto split: if_splits)
      from x consider "?x \<in> set (answered c)" | req where "req \<in> set rest" "?x \<in> set (req_chans req)"
        | t where "(t, ?x) \<in> set (replies (pend c'))"
        using command ans by (auto simp: awaiting_iff)
      then show False
      proof cases
        case 1
        with not_answered [OF once(1) was] show False by simp
      next
        case 2
        with not_queued [OF once(1) was, of req] command(1) show False by simp
      next
        case 3
        with rep gone(2) have "t \<noteq> tag" "(t, ?x) \<in> set (replies (pend c))" by (auto split: if_splits)
        with reply_tag_unique [OF once(1) was] gone(1) show False by blast
      qed
    qed
    with ok command show ?thesis by (simp add: col_ok_def)
  qed
  have "col_ok c' \<lparr>col_tag = tag, col_wants = w, col_tx = s\<rparr>" if "col = Some (w, s)" for w s
    using that tx rep [of tag tx] command by (simp add: col_ok_def)
  with old assms(1) once(2) command ans show ?thesis
    by (auto simp: well_ended_def collectors_register route_open_def)
next
  case (raw bs rest)
  with assms show ?thesis
    by (intro well_ended_same [OF assms(1) reply_once_take [OF _ assms(2)]]) (auto simp: well_ended_def answered_def)
qed

lemma well_ended_fail:
  assumes "well_ended c"
  shows "well_ended ((fail_all_pending err c)\<lparr>reader := ReaderDone\<rparr>)"
  using assms reply_once_fail [where err = err and r = ReaderDone and c = c]
  by (auto simp: well_ended_def fail_all_pending_eq pending_default_def route_open_def streams_closed_simps)

lemma route_for_stream:
  assumes "route_for closed r p = StreamRoute s"
  obtains col where "col \<in> set (collectors p)" "col_tx col = s" "col_wants col r" "\<not> closed s"
proof -
  have "collector_for closed r p = Some s"
    using assms by (auto simp: route_for_def Let_def split: response.splits option.splits)
  then show thesis using that [OF nth_mem] by (auto simp: collector_for_def find_Some_iff)
qed

lemma well_ended_drain:
  assumes "well_ended c"
  shows "well_ended (drain_turn mx c)"
proof (cases rule: drain_turn_cases [of c mx])
  case (frame rem r f)
  have "Suc s \<notin> set (answered c)" if "route_for (is_closed c) r (pend c) = StreamRoute s" for s
  proof -
    from that obtain col where "col \<in> set (collectors (pend c))" "col_tx col = s" by (rule route_for_stream)
    with assms have "col_ok c col" "reply_once c" by (auto simp: well_ended_def)
    with \<open>col_tx col = s\<close> show ?thesis using not_answered by (auto simp: col_ok_def)
  qed
  moreover have "answered (drain_turn mx c) = answered c" "awaiting (drain_turn mx c) = awaiting c"
    using frame(4) by (simp_all add: answered_def awaiting_def)
  ultimately show ?thesis
    using assms reply_once_drain [of c mx] frame(4)
    by (auto simp: well_ended_def route_open_def col_ok_def)
next
  case wait
  with assms show ?thesis
    by (intro well_ended_same [OF assms])
      (auto simp: well_ended_def answered_def intro: reply_once_same [of c])
qed (use assms well_ended_fail in auto)

lemma well_ended_dispatch:
  assumes "well_ended c" "dispatch_turn c = Some c'"
  shows "well_ended c'"
proof -
  have once: "reply_once c" "reply_once c'" using assms reply_once_dispatch by (auto simp: well_ended_def)
  show ?thesis
    using assms(2)
  proof (cases rule: dispatch_turn_cases)
    case (reply tag st msg f tx)
    have tx: "(tag, tx) \<in> set (replies (pend c))" using reply(2) by (rule map_of_SomeD)
    have "col_ok c' d" if d: "d \<in> set (collectors (pend c))" "col_tag d \<noteq> tag" for d
    proof -
      have ok: "col_ok c d" using d assms(1) by (simp add: well_ended_def)
      have "set (awaiting c') \<union> set (answered c') \<subseteq> set (awaiting c) \<union> set (answered c)"
        using reply tx by (auto simp: awaiting_iff set_answered replies_complete_iff)
      with ok d(2) reply show ?thesis by (auto simp: col_ok_def replies_complete_iff)
    qed
    with assms(1) once reply show ?thesis
      by (auto simp: well_ended_def collectors_complete route_open_def streams_closed_snoc)
  next
    case (nobody tag st msg f)
    have "col_ok c' d" if d: "d \<in> set (collectors (pend c))" "col_tag d \<noteq> tag" for d
    proof -
      have ok: "col_ok c d" using d assms(1) by (simp add: well_ended_def)
      have "set (awaiting c') \<union> set (answered c') \<subseteq> set (awaiting c) \<union> set (answered c)"
        using nobody by (auto simp: awaiting_iff set_answered replies_complete_iff)
      with ok d(2) nobody show ?thesis by (auto simp: col_ok_def replies_complete_iff)
    qed
    with assms(1) once nobody show ?thesis
      by (auto simp: well_ended_def collectors_complete route_open_def streams_closed_snoc)
  next
    case (stream tx f)
    with assms(1) have "\<forall>r. ReplyTo (Suc tx) r \<notin> set (log c)"
      by (auto simp: well_ended_def route_open_def set_answered)
    with assms(1) once stream show ?thesis
      by (intro well_ended_same [OF assms(1)]) (auto simp: well_ended_def answered_def streams_closed_snoc)
  next
    case (broadcast rt f)
    with assms(1) once show ?thesis
      by (intro well_ended_same [OF assms(1)]) (auto simp: well_ended_def answered_def streams_closed_snoc)
  qed
qed

lemma well_ended_submit_raw:
  assumes "well_ended c" "reply_once (submit_raw bs c)"
  shows "well_ended (submit_raw bs c)"
proof (cases rule: submit_raw_cases [of bs c])
  case sent
  have "col_ok (submit_raw bs c) d" if "col_ok c d" for d
    by (rule col_ok_mono [OF that]) (use sent in \<open>auto simp: awaiting_iff answered_def\<close>)
  with assms sent show ?thesis
    by (simp add: well_ended_def req_paired_def route_open_def answered_def)
qed (use assms in simp)

lemma well_ended_write:
  assumes "well_ended c" "reply_once c'" "write_finish n c = Some c'"
  shows "well_ended c'"
  using assms(3)
proof (cases rule: write_finish_cases)
  case (all bs)
  show ?thesis
    by (rule well_ended_same [OF assms(1,2)]) (use all assms(1) in \<open>simp_all add: well_ended_def answered_def\<close>)
next
  case (failed bs)
  show ?thesis
    by (rule well_ended_same [OF assms(1,2)]) (use failed assms(1) in \<open>simp_all add: well_ended_def answered_def\<close>)
qed

lemma well_ended_into_reply:
  assumes "well_ended c" "reply_once (into_reply ch c)"
  shows "well_ended (into_reply ch c)"
  using assms(1) by (intro well_ended_same [OF assms])
    (simp_all add: into_reply_eq well_ended_def answered_def replied_map streams_closed_simps)

interpretation ending: conn_invariant mx well_ended for mx
proof
  show "well_ended conn_new"
    using replies.init
    by (simp add: well_ended_def conn_new_def raw_client_new_def pending_default_def route_open_def streams_closed_def)
  fix c c'
  assume step: "conn_step mx c c'" and inv: "well_ended c"
  then have "reply_once c'" by (auto simp: well_ended_def intro: replies.step)
  with step inv show "well_ended c'"
  proof (induction rule: conn_step.induct)
    case (step_submit_raw c bs)
    show ?case by (rule well_ended_submit_raw [OF step_submit_raw(2,3)])
  next
    case (step_write n c c')
    show ?case by (rule well_ended_write [OF step_write(2,3,1)])
  next
    case (step_next ch c f c')
    from step_next(1) show ?case
      by (cases rule: next_frame_cases)
        (rule well_ended_same [OF step_next(2,3)]; use step_next(2) in \<open>simp add: well_ended_def answered_def\<close>)
  next
    case (step_into_reply c ch)
    show ?case by (rule well_ended_into_reply [OF step_into_reply])
  next
    case (step_drop c ch)
    show ?case
      by (rule well_ended_same [OF step_drop(1,2)];
          use step_drop in \<open>simp add: drop_stream_def well_ended_def answered_def\<close>)
  next
    case (step_read c bs)
    show ?case
      by (rule well_ended_same [OF step_read(3,4)];
          use step_read in \<open>simp add: read_chunk_def well_ended_def answered_def\<close>)
  next
    case (step_end c)
    then show ?case by (simp only: read_end_def well_ended_fail)
  next
    case step_submit
    show ?case by (rule well_ended_submit [OF step_submit(2)])
  next
    case step_take
    show ?case by (rule well_ended_take [OF step_take(2,1)])
  next
    case step_drain
    show ?case by (rule well_ended_drain [OF step_drain(2)])
  next
    case step_dispatch
    show ?case by (rule well_ended_dispatch [OF step_dispatch(2,1)])
  qed
qed

end
