(* ===== verification/Dispatcher_Frames.thy ===== *)
theory Dispatcher_Frames
  imports Dispatcher_Streams Parser_Local
begin

text \<open>
  What is in a stream.  A caller that submits a streaming command gives a filter; the receiver of the
  stream parses each frame again.  Every frame it gets is one whole response, and one the
  filter accepts, whatever other commands are in flight.

  The argument is about channels that belong to one command: a channel is drawn when the command is
  submitted and never drawn again.  The locale \<open>channel_tracking\<close> makes it once, for whatever a channel is paired with.
\<close>

subsection \<open>Fresh channels\<close>

lemma raw_drain: "raw (drain_turn mx c) = raw c"
  by (cases rule: drain_turn_cases [of c mx]) (simp_all add: fail_all_pending_eq)

text \<open>Only a caller that submits draws channels and adds requests.\<close>

lemma step_raw_cases:
  assumes "conn_step mx c c'"
  obtains (submit) cmd wants where "c' = submit cmd wants c"
    | (other) "fresh (raw c') = fresh (raw c)"
        "\<And>req. req \<in> set (queued (raw c')) \<Longrightarrow> req \<in> set (queued (raw c)) \<or> (\<exists>bs. req = RawReq bs)"
  using assms
proof cases
  case (step_submit_raw bs)
  then show thesis by (cases rule: submit_raw_cases [of bs c]) (auto intro: other)
next
  case step_take
  then show thesis by (elim write_take_cases) (auto intro: other)
next
  case step_write
  then show thesis by (elim write_finish_cases) (auto intro: other)
next
  case step_dispatch
  then show thesis by (elim dispatch_turn_cases) (auto intro: other)
next
  case step_next
  then show thesis by (elim next_frame_cases) (auto intro: other)
qed (auto intro: submit other simp: read_chunk_def read_end_def fail_all_pending_eq into_reply_eq drop_stream_def
     raw_drain)

lemma submit_fresh: "fresh (raw c) \<le> fresh (raw (submit cmd wants c))"
  by (cases rule: submit_cases [of cmd wants c]) auto

lemma step_fresh: "conn_step mx c c' \<Longrightarrow> fresh (raw c) \<le> fresh (raw c')"
  by (erule step_raw_cases) (simp_all add: submit_fresh)

text \<open>A request that a step adds has fresh channels.\<close>

lemma step_new_request:
  assumes "conn_step mx c c'" "req \<in> set (queued (raw c'))" "req \<notin> set (queued (raw c))"
  obtains (command) bs tag tx col where "req = CommandReq bs tag tx col" "fresh (raw c) \<le> tx" "tx < fresh (raw c')"
      "\<And>w s. col = Some (w, s) \<Longrightarrow> fresh (raw c) \<le> s \<and> tx = Suc s"
    | (raw) bs where "req = RawReq bs"
  using assms(1)
proof (cases rule: step_raw_cases)
  case (submit cmd wants)
  with assms(2,3) command show thesis by (cases rule: submit_cases [of cmd wants c]) auto
next
  case other
  with assms(2,3) raw show thesis by blast
qed

subsection \<open>What a channel is paired with\<close>

text \<open>
  \<open>holds Q c\<close> says that every pair of a channel and a mark in use in \<open>c\<close> satisfies \<open>Q\<close>; \<open>uses req\<close> are the pairs a request brings with it.
  Steps bring in no pairs but those of new requests, and the channels of a new request are fresh.
\<close>

locale channel_tracking =
  fixes holds :: "(chan \<Rightarrow> 'a \<Rightarrow> bool) \<Rightarrow> conn \<Rightarrow> bool"
    and uses :: "write_request \<Rightarrow> (chan \<times> 'a) list"
  assumes start: "holds Q conn_new"
    and mono: "holds Q c \<Longrightarrow> (\<And>s w. Q s w \<Longrightarrow> Q' s w) \<Longrightarrow> holds Q' c"
    and submitted: "holds Q c \<Longrightarrow> (\<And>req s w. req \<in> set (queued (raw (submit cmd wants c))) \<Longrightarrow>
      req \<notin> set (queued (raw c)) \<Longrightarrow> (s, w) \<in> set (uses req) \<Longrightarrow> Q s w) \<Longrightarrow> holds Q (submit cmd wants c)"
    and kept: "conn_step mx c c' \<Longrightarrow> holds Q c \<Longrightarrow> (\<And>req s w. req \<in> set (queued (raw c')) \<Longrightarrow>
      req \<notin> set (queued (raw c)) \<Longrightarrow> (s, w) \<in> set (uses req) \<Longrightarrow> Q s w) \<Longrightarrow> holds Q c'"
    and drawn: "conn_step mx c c' \<Longrightarrow> req \<in> set (queued (raw c')) \<Longrightarrow> req \<notin> set (queued (raw c)) \<Longrightarrow>
      (s, w) \<in> set (uses req) \<Longrightarrow> fresh (raw c) \<le> s \<and> s < fresh (raw c')"
begin

lemma known: "reachable mx c \<Longrightarrow> holds (\<lambda>s w. s < fresh (raw c)) c"
proof (induction rule: rtranclp_induct)
  case (step c c')
  have "holds (\<lambda>s w. s < fresh (raw c')) c"
    by (rule mono [OF step(3)]) (use step_fresh [OF step(2)] in linarith)
  then show ?case by (rule kept [OF step(2)]) (use drawn [OF step(2)] in blast)
qed (rule start)

lemma later:
  assumes "(conn_step mx)\<^sup>*\<^sup>* c c'" "holds (\<lambda>s w'. s = ch \<longrightarrow> w' = w) c" "ch < fresh (raw c)"
  shows "holds (\<lambda>s w'. s = ch \<longrightarrow> w' = w) c' \<and> ch < fresh (raw c')"
  using assms
proof (induction rule: rtranclp_induct)
  case (step c1 c2)
  then have IH: "holds (\<lambda>s w'. s = ch \<longrightarrow> w' = w) c1" "ch < fresh (raw c1)" by blast+
  have "holds (\<lambda>s w'. s = ch \<longrightarrow> w' = w) c2"
    by (rule kept [OF step(2) IH(1)]) (use IH(2) drawn [OF step(2)] in \<open>auto dest: leD\<close>)
  moreover have "ch < fresh (raw c2)" using step_fresh [OF step(2)] IH(2) by simp
  ultimately show ?case ..
qed simp

text \<open>The channel a command draws is paired with the mark of that command for ever.\<close>

lemma own_mark:
  assumes "reachable mx c" "(conn_step mx)\<^sup>*\<^sup>* (submit cmd wants c) c'"
    and "fresh (raw c) \<le> ch" "ch < fresh (raw (submit cmd wants c))"
    and "\<And>req w'. req \<in> set (queued (raw (submit cmd wants c))) \<Longrightarrow> req \<notin> set (queued (raw c)) \<Longrightarrow>
      (ch, w') \<in> set (uses req) \<Longrightarrow> w' = w"
  shows "holds (\<lambda>s w'. s = ch \<longrightarrow> w' = w) c'"
proof -
  have "holds (\<lambda>s w'. s = ch \<longrightarrow> w' = w) c"
    by (rule mono [OF known [OF assms(1)]]) (use assms(3) in auto)
  then have "holds (\<lambda>s w'. s = ch \<longrightarrow> w' = w) (submit cmd wants c)"
    by (rule submitted) (use assms(5) in blast)
  then show ?thesis using later [OF assms(2) _ assms(4)] by blast
qed

end

subsection \<open>Channels and the filters they were opened for\<close>

text \<open>\<open>fits w f\<close>: the frame \<open>f\<close>, parsed on its own, is one response and \<open>w\<close> wants it.\<close>

definition fits :: "frame_filter \<Rightarrow> bytes \<Rightarrow> bool" where
  "fits w f \<longleftrightarrow> (case parse_response f of Inr (rest, r) \<Rightarrow> rest = [] \<and> w r | Inl _ \<Rightarrow> False)"

text \<open>
  \<open>tracked Q c\<close>: every stream channel in use in \<open>c\<close> is paired with a filter \<open>Q\<close> allows for it, and every frame
  on its way to a channel or put into it fits such a filter.
\<close>

definition tracked :: "(chan \<Rightarrow> frame_filter \<Rightarrow> bool) \<Rightarrow> conn \<Rightarrow> bool" where
  "tracked Q c \<longleftrightarrow>
     (\<forall>req \<in> set (queued (raw c)). \<forall>w s. req_collector_of req = Some (w, s) \<longrightarrow> Q s w)
     \<and> (\<forall>col \<in> set (collectors (pend c)). Q (col_tx col) (col_wants col))
     \<and> (\<forall>s f. reader c = Dispatching (StreamRoute s) f \<longrightarrow> (\<exists>w. Q s w \<and> fits w f))
     \<and> (\<forall>s f. StreamTo s f \<in> set (log c) \<longrightarrow> (\<exists>w. Q s w \<and> fits w f))"

lemma tracked_mono:
  assumes "tracked Q c" "\<And>s w. Q s w \<Longrightarrow> Q' s w"
  shows "tracked Q' c"
  using assms(1) unfolding tracked_def by (meson assms(2))

lemma tracked_same:
  assumes "tracked Q c" "set (collectors (pend c')) \<subseteq> set (collectors (pend c))"
    "\<And>req w s. req \<in> set (queued (raw c')) \<Longrightarrow> req_collector_of req = Some (w, s) \<Longrightarrow>
      req \<notin> set (queued (raw c)) \<Longrightarrow> Q s w"
    "\<And>s f. reader c' = Dispatching (StreamRoute s) f \<Longrightarrow> reader c = reader c'"
    "\<And>s f. StreamTo s f \<in> set (log c') \<Longrightarrow> StreamTo s f \<in> set (log c)"
  shows "tracked Q c'"
  using assms(1) unfolding tracked_def using assms(2-) by (metis subsetD)

lemma tracked_drain:
  assumes "tracked Q c"
  shows "tracked Q (drain_turn mx c)"
proof (cases rule: drain_turn_cases [of c mx])
  case (frame rem r f)
  have alone: "parse_response f = Inr ([], r)"
    by (rule parse_response_frame_alone) (use frame(1,2) in simp)
  have "\<exists>w. Q s w \<and> fits w f" if "route_for (is_closed c) r (pend c) = StreamRoute s" for s
  proof -
    from that obtain col where "col \<in> set (collectors (pend c))" "col_tx col = s" "col_wants col r"
      by (rule route_for_stream)
    with assms alone show ?thesis by (auto simp: tracked_def fits_def)
  qed
  with assms frame(4) show ?thesis by (simp add: tracked_def)
qed (use assms in \<open>auto simp: tracked_def fail_all_pending_eq pending_default_def\<close>)

lemma tracked_dispatch:
  assumes "tracked Q c" "dispatch_turn c = Some c'"
  shows "tracked Q c'"
  using assms(2)
proof (cases rule: dispatch_turn_cases)
  case (stream tx f)
  with assms(1) show ?thesis unfolding tracked_def by auto
qed (use assms(1) in \<open>auto simp: tracked_def collectors_complete\<close>)

lemma tracked_take:
  assumes "tracked Q c" "write_take c = Some c'"
  shows "tracked Q c'"
  using assms(2)
  by (cases rule: write_take_cases) (use assms(1) in \<open>auto simp: tracked_def collectors_register\<close>)

lemma tracked_step:
  assumes "conn_step mx c c'" "tracked Q c"
    and new: "\<And>req w s. req \<in> set (queued (raw c')) \<Longrightarrow> req_collector_of req = Some (w, s) \<Longrightarrow>
      req \<notin> set (queued (raw c)) \<Longrightarrow> Q s w"
  shows "tracked Q c'"
  using assms
proof (induction rule: conn_step.induct)
  case (step_submit c cmd wants)
  show ?case by (rule tracked_same [OF step_submit(2)]) (simp_all add: write_side_frame step_submit(3))
next
  case (step_submit_raw c bs)
  show ?case by (rule tracked_same [OF step_submit_raw(2)]) (simp_all add: write_side_frame step_submit_raw(3))
next
  case (step_take c c')
  show ?case by (rule tracked_take [OF step_take(2,1)])
next
  case (step_write n c c')
  then show ?case by (elim write_finish_cases) (auto simp: tracked_def)
next
  case (step_read c bs)
  then show ?case by (auto simp: tracked_def read_chunk_def)
next
  case (step_end c)
  then show ?case by (auto simp: tracked_def read_end_def fail_all_pending_eq pending_default_def)
next
  case (step_drain c)
  show ?case by (rule tracked_drain [OF step_drain(2)])
next
  case (step_dispatch c c')
  show ?case by (rule tracked_dispatch [OF step_dispatch(2,1)])
next
  case (step_next ch c f c')
  then show ?case by (elim next_frame_cases) (auto simp: tracked_def)
next
  case (step_into_reply c ch)
  then show ?case by (auto simp: tracked_def into_reply_eq)
next
  case (step_drop c ch)
  then show ?case by (auto simp: tracked_def drop_stream_def)
qed

subsection \<open>Streams\<close>

fun stream_uses :: "write_request \<Rightarrow> (chan \<times> frame_filter) list" where
  "stream_uses (CommandReq bs tag tx (Some (w, s))) = [(s, w)]"
| "stream_uses _ = []"

lemma stream_uses_iff: "(s, w) \<in> set (stream_uses req) \<longleftrightarrow> req_collector_of req = Some (w, s)"
  by (cases req rule: stream_uses.cases) auto

interpretation filters: channel_tracking tracked stream_uses
proof
  show "tracked Q conn_new" for Q
    by (simp add: tracked_def conn_new_def raw_client_new_def pending_default_def)
  show "tracked Q c \<Longrightarrow> (\<And>s w. Q s w \<Longrightarrow> Q' s w) \<Longrightarrow> tracked Q' c" for Q Q' c by (rule tracked_mono)
  show "tracked Q (submit cmd wants c)" if "tracked Q c" "\<And>req s w. req \<in> set (queued (raw (submit cmd wants c))) \<Longrightarrow>
      req \<notin> set (queued (raw c)) \<Longrightarrow> (s, w) \<in> set (stream_uses req) \<Longrightarrow> Q s w" for Q cmd wants c
    by (rule tracked_same [OF that(1)]) (use that(2) in \<open>auto simp: write_side_frame stream_uses_iff\<close>)
  show "tracked Q c'" if "conn_step mx c c'" "tracked Q c" "\<And>req s w. req \<in> set (queued (raw c')) \<Longrightarrow>
      req \<notin> set (queued (raw c)) \<Longrightarrow> (s, w) \<in> set (stream_uses req) \<Longrightarrow> Q s w" for Q mx c c'
    by (rule tracked_step [OF that(1,2)]) (use that(3) in \<open>auto simp: stream_uses_iff\<close>)
  show "fresh (raw c) \<le> s \<and> s < fresh (raw c')" if "conn_step mx c c'" "req \<in> set (queued (raw c'))"
    "req \<notin> set (queued (raw c))" "(s, w) \<in> set (stream_uses req)" for mx c c' req s w
    using that(1-3)
  proof (cases rule: step_new_request)
    case (command bs tag tx col)
    with that(4) have "fresh (raw c) \<le> s \<and> tx = Suc s" by (simp add: stream_uses_iff)
    with command(3) show ?thesis by simp
  qed (use that(4) in simp)
qed

text \<open>A streaming command draws its stream even when it is refused afterwards.\<close>

lemma submit_draws: "fresh (raw c) < fresh (raw (submit cmd (Some w) c))"
  by (cases rule: enqueue_command_cases [of cmd "accepting c" "Some (w, fresh (raw c))" "(raw c)\<lparr>fresh := Suc (fresh (raw c))\<rparr>"])
    (simp_all add: submit_def send_command_streaming_def new_chan_def)

lemma stream_filter:
  assumes "reachable mx c" "(conn_step mx)\<^sup>*\<^sup>* (submit cmd (Some w) c) c'"
  shows "tracked (\<lambda>s w'. s = fresh (raw c) \<longrightarrow> w' = w) c'"
proof (rule filters.own_mark [OF assms])
  show "fresh (raw c) < fresh (raw (submit cmd (Some w) c))" by (rule submit_draws)
  show "w' = w" if "req \<in> set (queued (raw (submit cmd (Some w) c)))" "req \<notin> set (queued (raw c))"
    "(fresh (raw c), w') \<in> set (stream_uses req)" for req w'
    using that by (cases rule: submit_cases [of cmd "Some w" c]) auto
qed simp

end
