(* ===== verification/Dispatcher_Replies.thy ===== *)
theory Dispatcher_Replies
  imports Dispatcher_Frames
begin

text \<open>
  What a caller is told.  A reply with a frame carries the tag of the command it answers; the other replies are the
  errors made of such a frame, or the error the read loop ended with.  And once the stream of a command has ended,
  its reply has been decided, so that awaiting it after the last frame does not block.
\<close>

subsection \<open>Replies carry the tag of their command\<close>

text \<open>The reply \<open>res\<close> was made of a frame that is, on its own, a status response with the tag \<open>tag\<close>.\<close>

definition tagged_reply :: "str \<Rightarrow> reply \<Rightarrow> bool" where
  "tagged_reply tag res \<longleftrightarrow>
     (\<exists>f s. parse_response f = Inr ([], StatusResp s) \<and> sr_tag s = Some tag
        \<and> res = tagged_result (sr_status s) (sr_text s) f)"

text \<open>The errors with which the read loop fails whatever is pending.\<close>

definition loop_error :: "client_error \<Rightarrow> bool" where
  "loop_error err \<longleftrightarrow> err = ConnectionClosed \<or> (\<exists>e. hard e \<and> err = Parse e) \<or> (\<exists>n. err = FrameTooLarge n)"

fun reply_uses :: "write_request \<Rightarrow> (chan \<times> str) list" where
  "reply_uses (CommandReq bs tag tx col) = [(tx, tag)]"
| "reply_uses (RawReq bs) = []"

text \<open>
  \<open>owned Q c\<close>: every reply channel in use in \<open>c\<close> is paired with a tag \<open>Q\<close> allows for it, a frame on its way to a tag has that tag,
  and every reply given on a channel belongs to such a tag.
\<close>

definition owned :: "(chan \<Rightarrow> str \<Rightarrow> bool) \<Rightarrow> conn \<Rightarrow> bool" where
  "owned Q c \<longleftrightarrow>
     (\<forall>req \<in> set (queued (raw c)). \<forall>tag tx. (tx, tag) \<in> set (reply_uses req) \<longrightarrow> Q tx tag)
     \<and> (\<forall>tag tx. (tag, tx) \<in> set (replies (pend c)) \<longrightarrow> Q tx tag)
     \<and> (\<forall>tag st msg f. reader c = Dispatching (TaggedRoute tag st msg) f \<longrightarrow> tagged_reply tag (tagged_result st msg f))
     \<and> (\<forall>tx res. ReplyTo tx res \<in> set (log c) \<longrightarrow>
          (\<exists>tag. Q tx tag \<and> tagged_reply tag res) \<or> (\<exists>err. res = Inl err \<and> loop_error err))"

lemma owned_mono:
  assumes "owned Q c" "\<And>tx tag. Q tx tag \<Longrightarrow> Q' tx tag"
  shows "owned Q' c"
  using assms(1) unfolding owned_def by (meson assms(2))

lemma owned_same:
  assumes "owned Q c" "set (replies (pend c')) \<subseteq> set (replies (pend c))"
    "\<And>req tag tx. req \<in> set (queued (raw c')) \<Longrightarrow> (tx, tag) \<in> set (reply_uses req) \<Longrightarrow>
      req \<notin> set (queued (raw c)) \<Longrightarrow> Q tx tag"
    "\<And>tag st msg f. reader c' = Dispatching (TaggedRoute tag st msg) f \<Longrightarrow> reader c = reader c'"
    "\<And>tx res. ReplyTo tx res \<in> set (log c') \<Longrightarrow> ReplyTo tx res \<in> set (log c)"
  shows "owned Q c'"
  using assms(1) unfolding owned_def using assms(2-) by (metis subsetD)

lemma owned_fail:
  assumes "owned Q c" "loop_error err"
  shows "owned Q ((fail_all_pending err c)\<lparr>reader := ReaderDone\<rparr>)"
  using assms by (auto simp: owned_def fail_all_pending_eq pending_default_def)

lemma route_for_tagged:
  "route_for closed r p = TaggedRoute tag st msg \<Longrightarrow>
   \<exists>s. r = StatusResp s \<and> sr_tag s = Some tag \<and> sr_status s = st \<and> sr_text s = msg"
  by (auto simp: route_for_def Let_def split: response.splits option.splits)

lemma owned_drain:
  assumes "owned Q c"
  shows "owned Q (drain_turn mx c)"
proof (cases rule: drain_turn_cases [of c mx])
  case (frame rem r f)
  have alone: "parse_response f = Inr ([], r)"
    by (rule parse_response_frame_alone) (use frame(1,2) in simp)
  have "tagged_reply tag (tagged_result st msg f)"
    if "route_for (is_closed c) r (pend c) = TaggedRoute tag st msg" for tag st msg
    using route_for_tagged [OF that] alone unfolding tagged_reply_def by blast
  with assms frame(4) show ?thesis by (simp add: owned_def)
next
  case wait
  with assms show ?thesis by (simp add: owned_def)
next
  case large
  with assms show ?thesis by (simp add: owned_fail loop_error_def)
next
  case (bad e)
  then have "loop_error (Parse e)" by (auto simp: loop_error_def)
  with assms bad(3) show ?thesis by (simp add: owned_fail)
qed

lemma owned_dispatch:
  assumes "owned Q c" "dispatch_turn c = Some c'"
  shows "owned Q c'"
  using assms(2)
proof (cases rule: dispatch_turn_cases)
  case (reply tag st msg f tx)
  have "(tag, tx) \<in> set (replies (pend c))" using reply(2) by (rule map_of_SomeD)
  with assms(1) reply(1) have "Q tx tag \<and> tagged_reply tag (tagged_result st msg f)"
    unfolding owned_def by blast
  with assms(1) reply(3) show ?thesis by (auto simp: owned_def replies_complete_iff)
qed (use assms(1) in \<open>auto simp: owned_def replies_complete_iff\<close>)

lemma set_AList_update: "set (AList.update k v xs) \<subseteq> insert (k, v) (set xs)"
  by (induction xs) auto

lemma owned_take:
  assumes "owned Q c" "write_take c = Some c'"
  shows "owned Q c'"
  using assms(2)
proof (cases rule: write_take_cases)
  case (command bs tag tx col rest)
  have "set (replies (register tag tx col (pend c))) \<subseteq> insert (tag, tx) (set (replies (pend c)))"
    using set_AList_update by (simp add: replies_register)
  with assms(1) command show ?thesis by (auto simp: owned_def)
qed (use assms(1) in \<open>auto simp: owned_def\<close>)

lemma owned_step:
  assumes "conn_step mx c c'" "owned Q c"
    and new: "\<And>req tag tx. req \<in> set (queued (raw c')) \<Longrightarrow> (tx, tag) \<in> set (reply_uses req) \<Longrightarrow>
      req \<notin> set (queued (raw c)) \<Longrightarrow> Q tx tag"
  shows "owned Q c'"
  using assms
proof (induction rule: conn_step.induct)
  case (step_submit c cmd wants)
  show ?case by (rule owned_same [OF step_submit(2)]) (simp_all add: write_side_frame step_submit(3))
next
  case (step_submit_raw c bs)
  show ?case by (rule owned_same [OF step_submit_raw(2)]) (simp_all add: write_side_frame step_submit_raw(3))
next
  case (step_take c c')
  show ?case by (rule owned_take [OF step_take(2,1)])
next
  case (step_write n c c')
  then show ?case by (elim write_finish_cases) (auto simp: owned_def)
next
  case (step_read c bs)
  then show ?case by (auto simp: owned_def read_chunk_def)
next
  case (step_end c)
  then show ?case by (simp add: read_end_def owned_fail loop_error_def)
next
  case (step_drain c)
  show ?case by (rule owned_drain [OF step_drain(2)])
next
  case (step_dispatch c c')
  show ?case by (rule owned_dispatch [OF step_dispatch(2,1)])
next
  case (step_next ch c f c')
  then show ?case by (elim next_frame_cases) (auto simp: owned_def)
next
  case (step_into_reply c ch)
  then show ?case by (auto simp: owned_def into_reply_eq)
next
  case (step_drop c ch)
  then show ?case by (auto simp: owned_def drop_stream_def)
qed

interpretation owners: channel_tracking owned reply_uses
proof
  show "owned Q conn_new" for Q
    by (simp add: owned_def conn_new_def raw_client_new_def pending_default_def)
  show "owned Q c \<Longrightarrow> (\<And>s w. Q s w \<Longrightarrow> Q' s w) \<Longrightarrow> owned Q' c" for Q Q' c by (rule owned_mono)
  show "owned Q (submit cmd wants c)" if "owned Q c" "\<And>req s w. req \<in> set (queued (raw (submit cmd wants c))) \<Longrightarrow>
      req \<notin> set (queued (raw c)) \<Longrightarrow> (s, w) \<in> set (reply_uses req) \<Longrightarrow> Q s w" for Q cmd wants c
    by (rule owned_same [OF that(1)]) (use that(2) in \<open>auto simp: write_side_frame\<close>)
  show "owned Q c'" if "conn_step mx c c'" "owned Q c" "\<And>req s w. req \<in> set (queued (raw c')) \<Longrightarrow>
      req \<notin> set (queued (raw c)) \<Longrightarrow> (s, w) \<in> set (reply_uses req) \<Longrightarrow> Q s w" for Q mx c c'
    by (rule owned_step [OF that(1,2)]) (use that(3) in auto)
  show "fresh (raw c) \<le> s \<and> s < fresh (raw c')" if "conn_step mx c c'" "req \<in> set (queued (raw c'))"
    "req \<notin> set (queued (raw c))" "(s, w) \<in> set (reply_uses req)" for mx c c' req s w
    by (cases rule: step_new_request [OF that(1-3)]) (use that(4) in auto)
qed

text \<open>In a reachable state the channel of a queued request is used by that request only.\<close>

lemma queued_alone:
  assumes "reply_once c" "req \<in> set (queued (raw c))" "req' \<in> set (queued (raw c))"
    and "x \<in> set (req_chans req)" "x \<in> set (req_chans req')"
  shows "req = req'"
proof (rule ccontr)
  assume "req \<noteq> req'"
  moreover from assms(2) obtain us vs where "queued (raw c) = us @ req # vs" by (meson split_list)
  ultimately have "x \<in> set (concat (map req_chans (us @ vs)))" using assms(3,5) by auto
  moreover have "distinct (concat (map req_chans (queued (raw c))))"
    using assms(1) by (simp add: reply_once_def awaiting_def)
  ultimately show False using assms(4) \<open>queued (raw c) = us @ req # vs\<close> by auto
qed

lemma queued_chan:
  assumes "reply_once c" "req \<in> set (queued (raw c))" "x \<in> set (req_chans req)"
  shows "x < fresh (raw c)" "x \<notin> set (answered c)" "(tag, x) \<notin> set (replies (pend c))"
proof -
  have "x \<in> set (awaiting c)" using assms(2,3) by (auto simp: awaiting_iff)
  with assms(1) show "x < fresh (raw c)" "x \<notin> set (answered c)" by (auto simp: reply_once_def)
  show "(tag, x) \<notin> set (replies (pend c))" using not_queued [OF assms(1)] assms(2,3) by blast
qed

lemma reply_owner:
  assumes "reachable mx c" "CommandReq bs tag rx col \<in> set (queued (raw c))" "(conn_step mx)\<^sup>*\<^sup>* c c'"
  shows "owned (\<lambda>tx t. tx = rx \<longrightarrow> t = tag) c'"
proof -
  have once: "reply_once c" using assms(1) by (rule replies.always)
  note alone = queued_chan [OF once assms(2), of rx, simplified]
  have "t = tag" if "req \<in> set (queued (raw c))" "(rx, t) \<in> set (reply_uses req)" for req t
    using queued_alone [OF once assms(2) that(1), of rx] that(2) by (cases req) auto
  with owners.known [OF assms(1)] alone have "owned (\<lambda>tx t. tx = rx \<longrightarrow> t = tag) c"
    unfolding owned_def set_answered by (intro conjI) blast+
  then show ?thesis using owners.later [OF assms(3)] alone(1) by blast
qed

subsection \<open>A stream that has ended has an outcome\<close>

text \<open>
  \<open>next_frame\<close> returns \<open>None\<close> when the stream is empty and no sender is left: none in a queued request, none in the
  table and none in the hand of the read loop.
\<close>

definition stream_ended :: "chan \<Rightarrow> conn \<Rightarrow> bool" where
  "stream_ended s c \<longleftrightarrow> sc_buf (streams c s) = []
     \<and> list_all (\<lambda>req. case req_collector_of req of Some (w, tx) \<Rightarrow> tx \<noteq> s | None \<Rightarrow> True) (queued (raw c))
     \<and> list_all (\<lambda>col. col_tx col \<noteq> s) (collectors (pend c))
     \<and> (case reader c of Dispatching (StreamRoute tx) f \<Rightarrow> tx \<noteq> s | _ \<Rightarrow> True)"

text \<open>
  \<open>backed Q c\<close>: every reply channel in use is paired with the stream of its command, if it has one, and the sender of that stream
  is there under the same tag.
\<close>

definition sender_kept :: "pending \<Rightarrow> str \<Rightarrow> chan option \<Rightarrow> bool" where
  "sender_kept p tag m \<longleftrightarrow> (\<forall>s. m = Some s \<longrightarrow> (\<exists>col \<in> set (collectors p). col_tag col = tag \<and> col_tx col = s))"

definition backed :: "(chan \<Rightarrow> chan option \<Rightarrow> bool) \<Rightarrow> conn \<Rightarrow> bool" where
  "backed Q c \<longleftrightarrow>
     (\<forall>req \<in> set (queued (raw c)). \<forall>tx \<in> set (req_chans req). Q tx (map_option snd (req_collector_of req)))
     \<and> (\<forall>tag tx. (tag, tx) \<in> set (replies (pend c)) \<longrightarrow>
(\<exists>m. Q tx m \<and> sender_kept (pend c) tag m))"

lemma backed_mono:
  assumes "backed Q c" "\<And>tx m. Q tx m \<Longrightarrow> Q' tx m"
  shows "backed Q' c"
  using assms(1) unfolding backed_def by (meson assms(2))

lemma backed_same:
  assumes "backed Q c" "pend c' = pend c"
    "\<And>req tx. req \<in> set (queued (raw c')) \<Longrightarrow> req \<notin> set (queued (raw c)) \<Longrightarrow> tx \<in> set (req_chans req) \<Longrightarrow>
      Q tx (map_option snd (req_collector_of req))"
  shows "backed Q c'"
  using assms unfolding backed_def by metis

lemma backed_fail: "backed Q c \<Longrightarrow> backed Q ((fail_all_pending err c)\<lparr>reader := r\<rparr>)"
  by (simp add: backed_def fail_all_pending_eq pending_default_def)

lemma backed_drain: "backed Q c \<Longrightarrow> backed Q (drain_turn mx c)"
  by (cases rule: drain_turn_cases [of c mx]) (auto simp: backed_fail intro: backed_same)

lemma sender_kept_complete: "sender_kept p t m \<Longrightarrow> t \<noteq> tag \<Longrightarrow> sender_kept (snd (complete tag p)) t m"
  by (auto simp: sender_kept_def collectors_complete)

lemma sender_kept_register:
  "sender_kept p t m \<Longrightarrow> sender_kept (register tag tx col p) t m"
  "sender_kept (register tag tx col p) tag (map_option snd col)"
  by (fastforce simp: sender_kept_def collectors_register)+

lemma backed_complete:
  assumes "backed Q c" "raw c' = raw c" "pend c' = snd (complete tag (pend c))"
  shows "backed Q c'"
  using assms sender_kept_complete unfolding backed_def by (metis replies_complete_iff)

lemma backed_dispatch:
  assumes "backed Q c" "dispatch_turn c = Some c'"
  shows "backed Q c'"
  using assms(2)
  by (cases rule: dispatch_turn_cases) (auto intro: backed_same [OF assms(1)] backed_complete [OF assms(1)])

lemma backed_take:
  assumes "backed Q c" "write_take c = Some c'"
  shows "backed Q c'"
  using assms(2)
proof (cases rule: write_take_cases)
  case (command bs tag tx col rest)
  have rep: "t = tag \<and> x = tx \<or> (t, x) \<in> set (replies (pend c))" if "(t, x) \<in> set (replies (pend c'))" for t x
    using that command set_AList_update by (auto simp: replies_register dest!: subsetD [OF set_AList_update])
  have "Q tx (map_option snd col)" using assms(1) command(1) by (simp add: backed_def)
  then have "\<exists>m. Q x m \<and> sender_kept (pend c') t m" if "(t, x) \<in> set (replies (pend c'))" for t x
    using rep [OF that] assms(1) sender_kept_register command unfolding backed_def by fastforce
  then show ?thesis using assms(1) command by (simp add: backed_def)
qed (use assms(1) in \<open>auto simp: backed_def\<close>)

lemma backed_step:
  assumes "conn_step mx c c'" "backed Q c"
    and "\<And>req tx. req \<in> set (queued (raw c')) \<Longrightarrow> req \<notin> set (queued (raw c)) \<Longrightarrow> tx \<in> set (req_chans req) \<Longrightarrow>
      Q tx (map_option snd (req_collector_of req))"
  shows "backed Q c'"
  using assms
proof (induction rule: conn_step.induct)
  case (step_submit c cmd wants)
  show ?case by (rule backed_same [OF step_submit(2)]) (simp_all add: write_side_frame step_submit(3))
next
  case (step_submit_raw c bs)
  show ?case by (rule backed_same [OF step_submit_raw(2)]) (simp_all add: write_side_frame step_submit_raw(3))
next
  case (step_take c c')
  show ?case by (rule backed_take [OF step_take(2,1)])
next
  case (step_write n c c')
  then show ?case by (elim write_finish_cases) (auto simp: backed_def)
next
  case (step_end c)
  then show ?case by (simp add: read_end_def backed_fail)
next
  case (step_drain c)
  show ?case by (rule backed_drain [OF step_drain(2)])
next
  case (step_dispatch c c')
  show ?case by (rule backed_dispatch [OF step_dispatch(2,1)])
next
  case (step_next ch c f c')
  then show ?case by (elim next_frame_cases) (auto simp: backed_def)
qed (auto simp: backed_def read_chunk_def into_reply_eq drop_stream_def)

definition partner_uses :: "write_request \<Rightarrow> (chan \<times> chan option) list" where
  "partner_uses req = map (\<lambda>tx. (tx, map_option snd (req_collector_of req))) (req_chans req)"

interpretation partners: channel_tracking backed partner_uses
proof
  show "backed Q conn_new" for Q
    by (simp add: backed_def conn_new_def raw_client_new_def pending_default_def)
  show "backed Q c \<Longrightarrow> (\<And>s w. Q s w \<Longrightarrow> Q' s w) \<Longrightarrow> backed Q' c" for Q Q' c by (rule backed_mono)
  show "backed Q (submit cmd wants c)" if "backed Q c" "\<And>req s w. req \<in> set (queued (raw (submit cmd wants c))) \<Longrightarrow>
      req \<notin> set (queued (raw c)) \<Longrightarrow> (s, w) \<in> set (partner_uses req) \<Longrightarrow> Q s w" for Q cmd wants c
    by (rule backed_same [OF that(1)]) (use that(2) in \<open>auto simp: write_side_frame partner_uses_def\<close>)
  show "backed Q c'" if "conn_step mx c c'" "backed Q c" "\<And>req s w. req \<in> set (queued (raw c')) \<Longrightarrow>
      req \<notin> set (queued (raw c)) \<Longrightarrow> (s, w) \<in> set (partner_uses req) \<Longrightarrow> Q s w" for Q mx c c'
    by (rule backed_step [OF that(1,2)]) (use that(3) in \<open>auto simp: partner_uses_def\<close>)
  show "fresh (raw c) \<le> s \<and> s < fresh (raw c')" if "conn_step mx c c'" "req \<in> set (queued (raw c'))"
    "req \<notin> set (queued (raw c))" "(s, w) \<in> set (partner_uses req)" for mx c c' req s w
    by (cases rule: step_new_request [OF that(1-3)]) (use that(4) in \<open>auto simp: partner_uses_def\<close>)
qed

lemma stream_partner:
  assumes "reachable mx c" "CommandReq bs tag rx (Some (w, s)) \<in> set (queued (raw c))" "(conn_step mx)\<^sup>*\<^sup>* c c'"
  shows "backed (\<lambda>tx m. tx = rx \<longrightarrow> m = Some s) c'"
proof -
  have once: "reply_once c" using assms(1) by (rule replies.always)
  note alone = queued_chan [OF once assms(2), of rx, simplified]
  have "map_option snd (req_collector_of req) = Some s" if "req \<in> set (queued (raw c))" "rx \<in> set (req_chans req)" for req
    using queued_alone [OF once assms(2) that(1), of rx] that(2) by auto
  with partners.known [OF assms(1)] alone have "backed (\<lambda>tx m. tx = rx \<longrightarrow> m = Some s) c"
    unfolding backed_def by metis
  then show ?thesis using partners.later [OF assms(3)] alone(1) by blast
qed

lemma backed_awaiting:
  assumes "backed (\<lambda>tx m. tx = rx \<longrightarrow> m = Some s) c" "stream_ended s c"
  shows "rx \<notin> set (awaiting c)"
proof
  assume "rx \<in> set (awaiting c)"
  then consider req where "req \<in> set (queued (raw c))" "rx \<in> set (req_chans req)"
    | tag where "(tag, rx) \<in> set (replies (pend c))"
    by (auto simp: awaiting_iff)
  then show False
  proof cases
    case 1
    with assms(1) have "map_option snd (req_collector_of req) = Some s" unfolding backed_def by blast
    with 1(1) assms(2) show False by (auto simp: stream_ended_def list_all_iff)
  next
    case 2
    with assms(1) have "sender_kept (pend c) tag (Some s)" unfolding backed_def by blast
    with assms(2) show False by (auto simp: stream_ended_def list_all_iff sender_kept_def)
  qed
qed

end
