(* ===== verification/Dispatcher_Delivery.thy ===== *)
theory Dispatcher_Delivery
  imports Dispatcher_Frames
begin

text \<open>
  No frame is lost.  Every frame the read loop cuts off that does not carry a tag is handed on: into the stream of a
  command that wants it, or to the subscribers of the events, in wire order; closing a stream hands what was buffered to the subscribers once more.
\<close>

text \<open>The frames handed to streams and subscribers, in order.\<close>

fun delivered_by :: "delivery \<Rightarrow> bytes list" where
  "delivered_by (StreamTo s f) = [f]"
| "delivered_by (BroadcastFrame f) = [f]"
| "delivered_by (ReplyTo tx res) = []"

definition delivered :: "delivery list \<Rightarrow> bytes list" where
  "delivered ds = concat (map delivered_by ds)"

lemma delivered_append [simp]: "delivered (ds @ es) = delivered ds @ delivered es"
  by (simp add: delivered_def)

lemma delivered_simps [simp]:
  "delivered [] = []" "delivered [StreamTo s f] = [f]" "delivered [BroadcastFrame f] = [f]" "delivered [ReplyTo tx res] = []"
  by (simp_all add: delivered_def)

text \<open>A frame that is not a tagged status response.\<close>

definition untagged_frame :: "bytes \<Rightarrow> bool" where
  "untagged_frame f \<longleftrightarrow> (case parse_response f of Inr (_, StatusResp s) \<Rightarrow> sr_tag s = None | _ \<Rightarrow> True)"

text \<open>The frames the read loop is done with: all it cut off but the one in its hand.\<close>

definition settled :: "conn \<Rightarrow> bytes list" where
  "settled c = (case reader c of Dispatching rt f \<Rightarrow> butlast (cut c) | _ \<Rightarrow> cut c)"

definition lossless :: "conn \<Rightarrow> bool" where
  "lossless c \<longleftrightarrow> subseq (filter untagged_frame (settled c)) (delivered (log c))
     \<and> (\<forall>rt f. reader c = Dispatching rt f \<longrightarrow> cut c = settled c @ [f]
          \<and> (\<forall>tag st msg. rt = TaggedRoute tag st msg \<longrightarrow> \<not> untagged_frame f))"

lemma lossless_grow:
  assumes "lossless c" "reader c' = reader c" "cut c' = cut c" "log c' = log c @ ds"
  shows "lossless c'"
proof -
  have "settled c' = settled c" unfolding settled_def assms(2,3) ..
  with assms show ?thesis unfolding lossless_def by (auto intro: subseq_rev_drop_many)
qed

text \<open>Leaving the inner loop, or never having been in it.\<close>

lemma lossless_idle:
  assumes "lossless c" "\<And>rt f. reader c \<noteq> Dispatching rt f" "\<And>rt f. reader c' \<noteq> Dispatching rt f"
    "cut c' = cut c" "log c' = log c @ ds"
  shows "lossless c'"
proof -
  have "settled c' = settled c" using assms(2-4) by (auto simp: settled_def split: reader.splits)
  with assms show ?thesis unfolding lossless_def by (auto intro: subseq_rev_drop_many)
qed

lemma lossless_drain:
  assumes "lossless c" "reader c = Draining"
  shows "lossless (drain_turn mx c)"
proof (cases rule: drain_turn_cases [of c mx])
  case (frame rem r f)
  have alone: "parse_response f = Inr ([], r)"
    by (rule parse_response_frame_alone) (use frame(1,2) in simp)
  have "\<not> untagged_frame f" if "route_for (is_closed c) r (pend c) = TaggedRoute tag st msg" for tag st msg
    using that alone by (auto simp: route_for_def Let_def untagged_frame_def split: response.splits option.splits)
  with assms frame(4) show ?thesis by (auto simp: lossless_def settled_def)
next
  case wait
  with assms show ?thesis by (intro lossless_idle [OF assms(1), where ds = "[]"]) auto
next
  case large
  with assms show ?thesis by (intro lossless_idle [OF assms(1)]) (auto simp: fail_all_pending_eq)
next
  case (bad e)
  with assms show ?thesis by (intro lossless_idle [OF assms(1)]) (auto simp: fail_all_pending_eq)
qed

text \<open>Whatever the route, an untagged frame is handed on.\<close>

lemma lossless_dispatch:
  assumes "lossless c" "dispatch_turn c = Some c'"
  shows "lossless c'"
proof -
  have handed: "lossless c'" if "reader c = Dispatching rt f" "reader c' = Draining" "cut c' = cut c" "log c' = log c @ ds"
    "delivered ds = [f] \<or> \<not> untagged_frame f" for rt f ds
  proof -
    from assms(1) that(1) have "cut c = settled c @ [f]" "subseq (filter untagged_frame (settled c)) (delivered (log c))"
      by (auto simp: lossless_def)
    with that show ?thesis
      by (auto simp: lossless_def settled_def [of c'] intro: list_emb_append_mono subseq_rev_drop_many)
  qed
  from assms(2) show ?thesis
  proof (cases rule: dispatch_turn_cases)
    case (reply tag st msg f tx)
    with assms(1) have "\<not> untagged_frame f" by (simp add: lossless_def)
    with reply show ?thesis by (intro handed [of _ f]) auto
  next
    case (nobody tag st msg f)
    then show ?thesis by (intro handed [of _ f]) auto
  next
    case (stream tx f)
    then show ?thesis by (intro handed [of _ f]) auto
  next
    case (broadcast rt f)
    then show ?thesis by (intro handed [of _ f]) auto
  qed
qed

lemma lossless_step:
  assumes "conn_step mx c c'" "lossless c"
  shows "lossless c'"
  using assms
proof (induction rule: conn_step.induct)
  case (step_submit c cmd wants)
  show ?case by (rule lossless_grow [OF step_submit(2), where ds = "[]"]) (simp_all add: write_side_frame)
next
  case (step_submit_raw c bs)
  show ?case by (rule lossless_grow [OF step_submit_raw(2), where ds = "[]"]) (simp_all add: write_side_frame)
next
  case (step_take c c')
  show ?case by (rule lossless_grow [OF step_take(2), where ds = "[]"]) (simp_all add: write_take_frame [OF step_take(1)])
next
  case (step_write n c c')
  show ?case by (rule lossless_grow [OF step_write(2), where ds = "[]"]) (simp_all add: write_finish_frame [OF step_write(1)])
next
  case (step_read c bs)
  show ?case by (rule lossless_idle [OF step_read(3), where ds = "[]"]) (simp_all add: read_chunk_def step_read(1))
next
  case (step_end c)
  show ?case by (rule lossless_idle [OF step_end(2)]) (simp_all add: read_end_def fail_all_pending_eq step_end(1))
next
  case (step_drain c)
  show ?case by (rule lossless_drain [OF step_drain(2,1)])
next
  case (step_dispatch c c')
  show ?case by (rule lossless_dispatch [OF step_dispatch(2,1)])
next
  case (step_next ch c f c')
  show ?case by (rule lossless_grow [OF step_next(2), where ds = "[]"]) (simp_all add: next_frame_frame [OF step_next(1)])
next
  case (step_into_reply c ch)
  show ?case by (rule lossless_grow [OF step_into_reply]) (simp_all add: into_reply_eq)
next
  case (step_drop c ch)
  show ?case by (rule lossless_grow [OF step_drop, where ds = "[]"]) (simp_all add: drop_stream_def)
qed

interpretation delivery: conn_invariant mx lossless for mx
proof
  show "lossless conn_new" by (simp add: lossless_def settled_def conn_new_def)
  show "conn_step mx c c' \<Longrightarrow> lossless c \<Longrightarrow> lossless c'" for c c' by (rule lossless_step)
qed

end
