(* ===== verification/Dispatcher_Live.thy ===== *)
theory Dispatcher_Live
  imports Dispatcher_Streams
begin

text \<open>
  Bounds on what a connection buffers, the order of a stream, the progress of the read loop, and
  what is left undone once it has ended.
\<close>

subsection \<open>Bounds\<close>

text \<open>The queue and every stream keep to their capacity, and a collector never outlives its command.\<close>

definition bounded :: "conn \<Rightarrow> bool" where
  "bounded c \<longleftrightarrow>
     length (queued (raw c)) \<le> WRITE_CHANNEL_CAP
     \<and> (\<forall>ch. length (sc_buf (streams c ch)) \<le> STREAM_CHANNEL_CAP)
     \<and> col_tag ` set (collectors (pend c)) \<subseteq> fst ` set (replies (pend c))"

lemma bounded_same:
  assumes "bounded c" "queued (raw c') = queued (raw c)" "streams c' = streams c" "pend c' = pend c"
  shows "bounded c'"
  using assms by (simp add: bounded_def)

lemma bounded_streams:
  assumes "bounded c" "queued (raw c') = queued (raw c)" "pend c' = pend c" "streams c' = (streams c)(ch := s)"
    "length (sc_buf s) \<le> STREAM_CHANNEL_CAP"
  shows "bounded c'"
  using assms by (simp add: bounded_def)

lemma bounded_fail: "bounded c \<Longrightarrow> bounded ((fail_all_pending err c)\<lparr>reader := r\<rparr>)"
  by (simp add: bounded_def fail_all_pending_eq pending_default_def)

lemma bounded_take:
  assumes "bounded c" "write_take c = Some c'"
  shows "bounded c'"
  using assms(2)
  by (cases rule: write_take_cases)
    (use assms(1) in \<open>auto simp: bounded_def collectors_register replies_register dom_update\<close>)

lemma bounded_complete:
  assumes "bounded c" "queued (raw c') = queued (raw c)" "streams c' = streams c" "pend c' = snd (complete tag (pend c))"
  shows "bounded c'"
proof -
  have "t \<in> fst ` set (replies (snd (complete tag p)))" if "t \<in> fst ` set (replies p)" "t \<noteq> tag" for t p
  proof -
    from that(1) obtain x where "(t, x) \<in> set (replies p)" by auto
    with that(2) have "(t, x) \<in> set (replies (snd (complete tag p)))" by (simp add: replies_complete_iff)
    then show ?thesis by force
  qed
  with assms show ?thesis unfolding bounded_def by (auto simp: collectors_complete image_subset_iff)
qed

lemma bounded_dispatch:
  assumes "bounded c" "dispatch_turn c = Some c'"
  shows "bounded c'"
  using assms(2)
proof (cases rule: dispatch_turn_cases)
  case (reply tag st msg f tx)
  show ?thesis by (rule bounded_complete [OF assms(1), of _ tag]) (use reply in simp_all)
next
  case (nobody tag st msg f)
  show ?thesis by (rule bounded_complete [OF assms(1), of _ tag]) (use nobody in simp_all)
next
  case (stream tx f)
  show ?thesis by (rule bounded_streams [OF assms(1), where ch = tx]) (use stream in auto)
next
  case (broadcast rt f)
  show ?thesis by (rule bounded_same [OF assms(1)]) (use broadcast in simp_all)
qed

lemma bounded_drain:
  assumes "bounded c"
  shows "bounded (drain_turn mx c)"
proof (cases rule: drain_turn_cases [of c mx])
  case (frame rem r f)
  show ?thesis by (rule bounded_same [OF assms]) (use frame in simp_all)
next
  case wait
  show ?thesis by (rule bounded_same [OF assms]) (use wait in simp_all)
qed (use bounded_fail [OF assms] in simp_all)

interpretation bounds: conn_invariant mx bounded for mx
proof
  show "bounded conn_new"
    by (simp add: bounded_def conn_new_def raw_client_new_def pending_default_def)
  fix c c'
  assume "conn_step mx c c'" "bounded c"
  then show "bounded c'"
  proof (induction rule: conn_step.induct)
    case (step_submit c cmd wants)
    then show ?case
      by (cases rule: submit_cases [of cmd wants c]) (auto simp: bounded_def)
  next
    case (step_submit_raw c bs)
    then show ?case by (cases rule: submit_raw_cases [of bs c]) (auto simp: bounded_def)
  next
    case (step_take c c')
    show ?case by (rule bounded_take [OF step_take(2,1)])
  next
    case (step_write n c c')
    then show ?case by (elim write_finish_cases) (auto simp: bounded_def)
  next
    case (step_read c bs)
    show ?case by (rule bounded_same [OF step_read(3)]) (simp_all add: read_chunk_def)
  next
    case (step_end c)
    show ?case using bounded_fail [OF step_end(2)] by (simp only: read_end_def)
  next
    case (step_drain c)
    show ?case by (rule bounded_drain [OF step_drain(2)])
  next
    case (step_dispatch c c')
    show ?case by (rule bounded_dispatch [OF step_dispatch(2,1)])
  next
    case (step_next ch c f c')
    from step_next(1) obtain fs where fs: "sc_buf (streams c ch) = f # fs"
      "c' = c\<lparr>streams := (streams c)(ch := (streams c ch)\<lparr>sc_buf := fs\<rparr>)\<rparr>"
      by (rule next_frame_cases)
    moreover have "length (f # fs) \<le> STREAM_CHANNEL_CAP"
      using step_next(2) fs(1) unfolding bounded_def by metis
    ultimately show ?case by (intro bounded_streams [OF step_next(2)]) auto
  next
    case (step_into_reply c ch)
    show ?case by (rule bounded_streams [OF step_into_reply, where ch = ch]) (auto simp: into_reply_eq)
  next
    case (step_drop c ch)
    show ?case by (rule bounded_streams [OF step_drop, where ch = ch]) (auto simp: drop_stream_def)
  qed
qed

subsection \<open>The order of a stream\<close>

definition streamed :: "chan \<Rightarrow> delivery list \<Rightarrow> bytes list" where
  "streamed ch ds = concat (map (\<lambda>d. case d of StreamTo s f \<Rightarrow> if s = ch then [f] else [] | _ \<Rightarrow> []) ds)"

text \<open>The frames of a stream are frames cut off the wire, in their order; the one in hand is not among them yet.\<close>

definition in_wire_order :: "chan \<Rightarrow> conn \<Rightarrow> bool" where
  "in_wire_order ch c \<longleftrightarrow>
     (case reader c of
        Dispatching rt f \<Rightarrow> \<exists>fs. cut c = fs @ [f] \<and> subseq (streamed ch (log c)) fs
      | _ \<Rightarrow> subseq (streamed ch (log c)) (cut c))"

lemma streamed_snoc:
  "streamed ch (ds @ [StreamTo s f]) = streamed ch ds @ (if s = ch then [f] else [])"
  "streamed ch (ds @ [ReplyTo tx r]) = streamed ch ds"
  "streamed ch (ds @ [BroadcastFrame f]) = streamed ch ds"
  by (simp_all add: streamed_def)

lemma streamed_simps:
  "streamed ch (ds @ map (\<lambda>(tag, tx). ReplyTo tx res) rs) = streamed ch ds"
  "streamed ch (ds @ map BroadcastFrame fs) = streamed ch ds"
proof -
  show "streamed ch (ds @ map (\<lambda>(tag, tx). ReplyTo tx res) rs) = streamed ch ds"
    by (induction rs) (auto simp: streamed_def)
  show "streamed ch (ds @ map BroadcastFrame fs) = streamed ch ds"
    by (induction fs) (auto simp: streamed_def)
qed

lemma in_wire_order_weaken: "in_wire_order ch c \<Longrightarrow> subseq (streamed ch (log c)) (cut c)"
  by (auto simp: in_wire_order_def split: reader.splits)

lemma in_wire_order_same:
  assumes "in_wire_order ch c" "reader c' = reader c" "cut c' = cut c" "streamed ch (log c') = streamed ch (log c)"
  shows "in_wire_order ch c'"
  using assms(1) unfolding in_wire_order_def assms(2-) .

lemma in_wire_order_drain:
  assumes "in_wire_order ch c"
  shows "in_wire_order ch (drain_turn mx c)"
  using in_wire_order_weaken [OF assms]
  by (cases rule: drain_turn_cases [of c mx])
    (simp_all add: in_wire_order_def fail_all_pending_eq streamed_simps)

lemma in_wire_order_dispatch:
  assumes "in_wire_order ch c" "dispatch_turn c = Some c'"
  shows "in_wire_order ch c'"
  using assms(2)
  by (cases rule: dispatch_turn_cases)
    (use assms(1) in \<open>auto simp: in_wire_order_def streamed_snoc intro: list_emb_append_mono\<close>)

interpretation wire_order: conn_invariant mx "in_wire_order ch" for mx ch
proof
  show "in_wire_order ch conn_new" by (simp add: in_wire_order_def conn_new_def streamed_def)
  fix c c'
  assume "conn_step mx c c'" "in_wire_order ch c"
  then show "in_wire_order ch c'"
  proof (induction rule: conn_step.induct)
    case (step_submit c cmd wants)
    show ?case by (rule in_wire_order_same [OF step_submit(2)]) (simp_all only: write_side_frame)
  next
    case (step_submit_raw c bs)
    show ?case by (rule in_wire_order_same [OF step_submit_raw(2)]) (simp_all only: write_side_frame)
  next
    case (step_take c c')
    show ?case by (rule in_wire_order_same [OF step_take(2)]) (simp_all only: write_take_frame [OF step_take(1)])
  next
    case (step_write n c c')
    show ?case by (rule in_wire_order_same [OF step_write(2)]) (simp_all only: write_finish_frame [OF step_write(1)])
  next
    case (step_read c bs)
    then show ?case by (simp add: in_wire_order_def read_chunk_def)
  next
    case (step_end c)
    then show ?case by (simp add: in_wire_order_def read_end_def fail_all_pending_eq streamed_simps)
  next
    case (step_drain c)
    show ?case by (rule in_wire_order_drain [OF step_drain(2)])
  next
    case (step_dispatch c c')
    show ?case by (rule in_wire_order_dispatch [OF step_dispatch(2,1)])
  next
    case (step_next s c f c')
    show ?case by (rule in_wire_order_same [OF step_next(2)]) (simp_all only: next_frame_frame [OF step_next(1)])
  next
    case (step_into_reply c s)
    show ?case by (rule in_wire_order_same [OF step_into_reply]) (simp_all add: into_reply_eq streamed_simps)
  next
    case (step_drop c s)
    show ?case by (rule in_wire_order_same [OF step_drop]) (simp_all add: drop_stream_def)
  qed
qed

subsection \<open>Progress\<close>

text \<open>A tagged response at the front of the buffer reaches the command that waits for it.\<close>

lemma tagged_delivered:
  assumes "reader c = Draining" "parse_response (buffer c) = Inr (rem, StatusResp s)" "sr_tag s = Some tag"
    "map_of (replies (pend c)) tag = Some tx"
  obtains c' f where "(conn_step mx)\<^sup>*\<^sup>* c c'" "buffer c = f @ rem" "buffer c' = rem" "reader c' = Draining"
    "log c' = log c @ [ReplyTo tx (tagged_result (sr_status s) (sr_text s) f)]"
    "pend c' = snd (complete tag (pend c))"
proof -
  let ?d = "drain_turn mx c"
  have first: "conn_step mx c ?d" using assms(1) by (rule step_drain)
  obtain f where f: "buffer c = f @ rem" "?d = c\<lparr>buffer := rem, cut := cut c @ [f],
      reader := Dispatching (TaggedRoute tag (sr_status s) (sr_text s)) f\<rparr>"
    using assms(2,3) by (cases rule: drain_turn_cases [of c mx]) (auto simp: route_for_def)
  let ?e = "(oneshot_send tx (tagged_result (sr_status s) (sr_text s) f)
    (?d\<lparr>pend := snd (complete tag (pend c))\<rparr>))\<lparr>reader := Draining\<rparr>"
  have "dispatch_turn ?d = Some ?e"
    using assms(4) f(2) by (simp add: dispatch_turn_def complete_def)
  then have "conn_step mx ?d ?e" by (rule step_dispatch)
  with first have "(conn_step mx)\<^sup>*\<^sup>* c ?e" by simp
  with that [of ?e f] f show thesis by (simp add: oneshot_send_def)
qed

subsection \<open>After the read loop has ended\<close>

lemma silent_step:
  assumes "conn_step mx c c'" "reader c = ReaderDone"
  shows "reader c' = ReaderDone \<and> answered c' = answered c"
  using assms
proof (induction rule: conn_step.induct)
  case (step_take c c')
  then show ?case by (simp add: answered_def write_take_frame [OF step_take(1)])
next
  case (step_write n c c')
  then show ?case by (simp add: answered_def write_finish_frame [OF step_write(1)])
next
  case (step_next ch c f c')
  then show ?case by (simp add: answered_def next_frame_frame [OF step_next(1)])
next
  case (step_dispatch c c')
  then show ?case by (simp add: dispatch_turn_def)
qed (simp_all add: answered_def write_side_frame into_reply_eq drop_stream_def replied_map)

lemma silent_steps:
  "(conn_step mx)\<^sup>*\<^sup>* c c' \<Longrightarrow> reader c = ReaderDone \<Longrightarrow> reader c' = ReaderDone \<and> answered c' = answered c"
  by (induction rule: rtranclp_induct) (auto dest: silent_step)

subsection \<open>What is written\<close>

text \<open>Everything accepted and not lost: on the wire, being written, and queued.\<close>

definition outgoing :: "conn \<Rightarrow> bytes" where
  "outgoing c =
     wire_out c @ (case writer c of Writing bs \<Rightarrow> bs | _ \<Rightarrow> []) @ concat (map req_bytes (queued (raw c)))"

lemma outgoing_same:
  "wire_out c' = wire_out c \<Longrightarrow> writer c' = writer c \<Longrightarrow> queued (raw c') = queued (raw c) \<Longrightarrow> outgoing c' = outgoing c"
  by (simp add: outgoing_def)

lemma reader_side_write:
  "wire_out (drain_turn mx c) = wire_out c" "writer (drain_turn mx c) = writer c" "raw (drain_turn mx c) = raw c"
  by (cases rule: drain_turn_cases [of c mx]; simp add: fail_all_pending_eq)+

lemma dispatch_side_write:
  assumes "dispatch_turn c = Some c'"
  shows "wire_out c' = wire_out c" "writer c' = writer c" "raw c' = raw c"
  using assms by (cases rule: dispatch_turn_cases; simp)+

lemma submit_outgoing:
  "outgoing (submit cmd wants c) = outgoing c
   \<or> outgoing (submit cmd wants c) = outgoing c @ command_line (fst (next_tag (raw c))) cmd
     \<and> CR \<notin> set cmd \<and> LF \<notin> set cmd \<and> NUL \<notin> set cmd"
  by (cases rule: submit_cases [of cmd wants c]) (auto simp: outgoing_def)

lemma write_order:
  assumes "conn_step mx c c'"
  shows "(\<exists>bs. wire_out c' = wire_out c @ bs)
    \<and> (accepting c' \<longrightarrow> outgoing c' = outgoing c \<or> (\<exists>l. one_line l \<and> outgoing c' = outgoing c @ l)
        \<or> (\<exists>bs. c' = submit_raw bs c \<and> outgoing c' = outgoing c @ bs))"
  using assms
proof (induction rule: conn_step.induct)
  case (step_submit c cmd wants)
  show ?case using submit_outgoing [of cmd wants c] command_line_one_line [of cmd "raw c"]
    by (auto simp: write_side_frame)
next
  case (step_submit_raw c bs)
  show ?case by (cases rule: submit_raw_cases [of bs c]) (auto simp: outgoing_def)
next
  case (step_take c c')
  then show ?case by (cases rule: write_take_cases) (auto simp: outgoing_def)
next
  case (step_write n c c')
  then show ?case by (cases rule: write_finish_cases) (auto simp: outgoing_def accepting_def)
next
  case (step_dispatch c c')
  note same = dispatch_side_write [OF step_dispatch]
  then have "outgoing c' = outgoing c" by (intro outgoing_same) simp_all
  with same show ?case by simp
next
  case (step_next ch c f c')
  note same = next_frame_frame [OF step_next]
  then have "outgoing c' = outgoing c" by (intro outgoing_same) simp_all
  with same show ?case by simp
qed (simp_all add: outgoing_def reader_side_write read_chunk_def read_end_def fail_all_pending_eq into_reply_eq drop_stream_def)

end
