(* ===== verification/Dispatcher_Progress.thy ===== *)
theory Dispatcher_Progress
  imports Dispatcher_Live
begin

text \<open>
  Progress of the read loop, and what its end leaves behind.  Once it has read a chunk the loop cuts frames off its buffer and hands them on
  before it reads again; it can only be held up by a stream that is full and open.  When it has ended, commands are still
  accepted as long as the write loop runs.
\<close>

subsection \<open>The inner loop\<close>

definition in_loop :: "conn \<Rightarrow> bool" where
  "in_loop c \<longleftrightarrow> (case reader c of Draining \<Rightarrow> True | Dispatching rt f \<Rightarrow> True | _ \<Rightarrow> False)"

text \<open>The read loop can take its next turn, and takes it.\<close>

definition reader_able :: "conn \<Rightarrow> bool" where
  "reader_able c \<longleftrightarrow> reader c = Draining \<or> \<not> Option.is_none (dispatch_turn c)"

definition reader_acts :: "usize \<Rightarrow> conn \<Rightarrow> conn \<Rightarrow> bool" where
  "reader_acts mx c c' \<longleftrightarrow> reader c = Draining \<and> c' = drain_turn mx c \<or> dispatch_turn c = Some c'"

text \<open>Two turns for each byte left, at most.\<close>

definition loop_work :: "conn \<Rightarrow> nat" where
  "loop_work c =
     (case reader c of Draining \<Rightarrow> 2 * length (buffer c) + 1 | Dispatching rt f \<Rightarrow> 2 * length (buffer c) + 2 | _ \<Rightarrow> 0)"

lemma acts_decreases: "reader_acts mx c c' \<Longrightarrow> loop_work c' < loop_work c"
proof (unfold reader_acts_def, elim disjE conjE)
  assume "reader c = Draining" "c' = drain_turn mx c"
  then show ?thesis
    by (cases rule: drain_turn_cases [of c mx]) (auto simp: loop_work_def fail_all_pending_eq Suc_le_eq neq_Nil_conv)
next
  assume "dispatch_turn c = Some c'"
  then show ?thesis by (cases rule: dispatch_turn_cases) (simp_all add: loop_work_def)
qed

lemma reader_able_cases:
  assumes "in_loop c" "\<not> reader_able c"
  obtains s f where "reader c = Dispatching (StreamRoute s) f" "\<not> sc_closed (streams c s)"
    "STREAM_CHANNEL_CAP \<le> length (sc_buf (streams c s))"
proof (cases "reader c")
  case (Dispatching rt f)
  with assms that show thesis
    by (cases rt) (auto simp: reader_able_def dispatch_turn_def is_closed_def split: prod.splits option.splits if_splits)
qed (use assms in \<open>simp_all add: in_loop_def reader_able_def\<close>)

lemma reader_able_stream:
  "reader c = Dispatching (StreamRoute s) f \<Longrightarrow>
   reader_able c \<longleftrightarrow> sc_closed (streams c s) \<or> length (sc_buf (streams c s)) < STREAM_CHANNEL_CAP"
  by (simp add: reader_able_def dispatch_turn_def is_closed_def)

text \<open>What the other tasks do leaves the loop where it is, and never fills or reopens a stream.\<close>

definition streams_eased :: "conn \<Rightarrow> conn \<Rightarrow> bool" where
  "streams_eased c c' \<longleftrightarrow> (\<forall>s. (sc_closed (streams c s) \<longrightarrow> sc_closed (streams c' s))
     \<and> length (sc_buf (streams c' s)) \<le> length (sc_buf (streams c s)))"

lemma other_step:
  assumes "conn_step mx c c'" "in_loop c" "\<not> reader_acts mx c c'"
  shows "reader c' = reader c" "buffer c' = buffer c" "streams_eased c c'"
proof -
  have "reader c' = reader c \<and> buffer c' = buffer c \<and> streams_eased c c'"
    using assms
  proof (induction rule: conn_step.induct)
    case (step_take c c')
    then show ?case by (simp add: write_take_frame [OF step_take(1)] streams_eased_def)
  next
    case (step_write n c c')
    then show ?case by (simp add: write_finish_frame [OF step_write(1)] streams_eased_def)
  next
    case (step_next ch c f c')
    then show ?case by (elim next_frame_cases) (auto simp: streams_eased_def)
  qed (simp_all add: write_side_frame in_loop_def reader_acts_def into_reply_eq drop_stream_def streams_eased_def)
  then show "reader c' = reader c" "buffer c' = buffer c" "streams_eased c c'" by simp_all
qed

lemma other_step_able:
  assumes "conn_step mx c c'" "in_loop c" "\<not> reader_acts mx c c'" "reader_able c"
  shows "reader_able c'"
proof (rule ccontr)
  note same = other_step [OF assms(1-3)]
  assume no: "\<not> reader_able c'"
  have "in_loop c'" using assms(2) same(1) by (simp add: in_loop_def)
  then obtain s f where s: "reader c' = Dispatching (StreamRoute s) f" "\<not> sc_closed (streams c' s)"
    "STREAM_CHANNEL_CAP \<le> length (sc_buf (streams c' s))" using no by (rule reader_able_cases)
  with same assms(4) show False
    using reader_able_stream [of c s f] by (force simp: streams_eased_def)
qed

lemma loop_work_step:
  assumes "conn_step mx c c'" "in_loop c"
  shows "loop_work c' \<le> loop_work c"
proof (cases "reader_acts mx c c'")
  case True
  then show ?thesis by (intro less_imp_le acts_decreases)
next
  case False
  show ?thesis unfolding loop_work_def other_step(1,2) [OF assms False] ..
qed

subsection \<open>Runs\<close>

text \<open>
  An infinite run of a connection, the read loop getting its turn in it (if it can go on from some time on, it does), and its
  streams being served: when the loop waits to put a frame into a stream, the stream is read from or closed sooner or later.
\<close>

definition run_of :: "usize \<Rightarrow> (nat \<Rightarrow> conn) \<Rightarrow> bool" where
  "run_of mx f \<longleftrightarrow> (\<forall>i. conn_step mx (f i) (f (Suc i)))"

definition reader_scheduled :: "usize \<Rightarrow> (nat \<Rightarrow> conn) \<Rightarrow> bool" where
  "reader_scheduled mx f \<longleftrightarrow> (\<forall>i. (\<forall>j \<ge> i. reader_able (f j)) \<longrightarrow> (\<exists>j \<ge> i. reader_acts mx (f j) (f (Suc j))))"

definition streams_served :: "(nat \<Rightarrow> conn) \<Rightarrow> bool" where
  "streams_served f \<longleftrightarrow> (\<forall>i s fr. reader (f i) = Dispatching (StreamRoute s) fr \<longrightarrow>
     (\<exists>j \<ge> i. sc_closed (streams (f j) s) \<or> length (sc_buf (streams (f j) s)) < STREAM_CHANNEL_CAP))"

lemma idle_reader_stays:
  assumes "run_of mx f" "i \<le> j" "\<And>k. i \<le> k \<Longrightarrow> in_loop (f k)" "\<And>k. i \<le> k \<Longrightarrow> \<not> reader_acts mx (f k) (f (Suc k))"
  shows "reader (f j) = reader (f i)" "reader_able (f i) \<Longrightarrow> reader_able (f j)"
proof -
  have "reader (f j) = reader (f i) \<and> (reader_able (f i) \<longrightarrow> reader_able (f j))"
    using assms(2)
  proof (induction j rule: dec_induct)
    case (step k)
    have "conn_step mx (f k) (f (Suc k))" using assms(1) by (simp add: run_of_def)
    with other_step(1) other_step_able assms(3,4) step show ?case by (metis)
  qed simp
  then show "reader (f j) = reader (f i)" "reader_able (f i) \<Longrightarrow> reader_able (f j)" by simp_all
qed

text \<open>A loop that is not left acts again.\<close>

lemma reader_acts_again:
  assumes "run_of mx f" "reader_scheduled mx f" "streams_served f" "\<And>j. i \<le> j \<Longrightarrow> in_loop (f j)"
  shows "\<exists>j \<ge> i. reader_acts mx (f j) (f (Suc j))"
proof (rule ccontr)
  assume "\<not> ?thesis"
  then have idle: "\<And>k. i \<le> k \<Longrightarrow> \<not> reader_acts mx (f k) (f (Suc k))" by blast
  have "\<exists>j \<ge> i. reader_able (f j)"
  proof (cases "reader_able (f i)")
    case False
    with assms(4) [of i] obtain s fr where s: "reader (f i) = Dispatching (StreamRoute s) fr"
      by (auto elim: reader_able_cases)
    with assms(3) obtain j where j: "i \<le> j" "sc_closed (streams (f j) s) \<or> length (sc_buf (streams (f j) s)) < STREAM_CHANNEL_CAP"
      unfolding streams_served_def by blast
    have "reader (f j) = reader (f i)" by (rule idle_reader_stays [OF assms(1) j(1) assms(4) idle])
    with s j show ?thesis using reader_able_stream [of "f j" s fr] by auto
  qed blast
  then obtain j where j: "i \<le> j" "reader_able (f j)" by blast
  have "reader_able (f k)" if "j \<le> k" for k
    by (rule idle_reader_stays(2) [OF assms(1) that _ _ j(2)]) (use j(1) assms(4) idle in auto)
  with assms(2) obtain k where "j \<le> k" "reader_acts mx (f k) (f (Suc k))" unfolding reader_scheduled_def by blast
  with idle j(1) show False using order_trans by blast
qed

lemma loop_left:
  assumes "run_of mx f" "reader_scheduled mx f" "streams_served f"
  shows "\<exists>j \<ge> i. \<not> in_loop (f j)"
proof (induction "loop_work (f i)" arbitrary: i rule: less_induct)
  case less
  show ?case
  proof (rule ccontr)
    assume "\<not> ?case"
    then have inside: "\<And>j. i \<le> j \<Longrightarrow> in_loop (f j)" by blast
    obtain j where j: "i \<le> j" "reader_acts mx (f j) (f (Suc j))" using reader_acts_again [OF assms inside] by blast
    have "loop_work (f j) \<le> loop_work (f i)"
      using j(1)
    proof (induction j rule: dec_induct)
      case (step k)
      with loop_work_step [of mx "f k" "f (Suc k)"] inside assms(1) show ?case by (force simp: run_of_def)
    qed simp
    with acts_decreases [OF j(2)] have "loop_work (f (Suc j)) < loop_work (f i)" by simp
    from less [OF this] inside j(1) show False by (meson le_SucI order_trans)
  qed
qed

lemma not_in_loop: "\<not> in_loop c \<longleftrightarrow> reader c \<in> {AwaitingRead, ReaderDone}"
  by (cases "reader c") (simp_all add: in_loop_def)

subsection \<open>Commands without a reader\<close>

text \<open>A command with tag \<open>tag\<close> and reply channel \<open>rx\<close>, queued or with its tag in the table, and nobody to answer it.\<close>

definition orphaned :: "str \<Rightarrow> chan \<Rightarrow> conn \<Rightarrow> bool" where
  "orphaned tag rx c \<longleftrightarrow> reader c = ReaderDone
     \<and> ((\<exists>bs col. CommandReq bs tag rx col \<in> set (queued (raw c))) \<or> tag \<in> fst ` set (replies (pend c)) \<or> \<not> accepting c)"

lemma orphaned_step:
  assumes "conn_step mx c c'" "orphaned tag rx c"
  shows "orphaned tag rx c'"
  using assms
proof (induction rule: conn_step.induct)
  case (step_submit c cmd wants)
  have "set (queued (raw c)) \<subseteq> set (queued (raw (submit cmd wants c)))"
    by (cases rule: submit_cases [of cmd wants c]) auto
  with step_submit(2) show ?case by (auto simp: orphaned_def write_side_frame accepting_def)
next
  case (step_submit_raw c bs)
  have "set (queued (raw c)) \<subseteq> set (queued (raw (submit_raw bs c)))"
    by (cases rule: submit_raw_cases [of bs c]) auto
  with step_submit_raw(2) show ?case by (auto simp: orphaned_def write_side_frame accepting_def)
next
  case (step_take c c')
  from step_take(1) show ?case
    by (cases rule: write_take_cases)
      (use step_take(2) in \<open>auto simp: orphaned_def accepting_def replies_register dom_update intro: rev_image_eqI\<close>)
next
  case (step_write n c c')
  from step_write(1) show ?case
    by (cases rule: write_finish_cases) (use step_write(2) in \<open>auto simp: orphaned_def accepting_def\<close>)
next
  case (step_dispatch c c')
  then show ?case by (simp add: orphaned_def dispatch_turn_def)
next
  case (step_next ch c f c')
  then show ?case by (elim next_frame_cases) (auto simp: orphaned_def accepting_def)
qed (auto simp: orphaned_def accepting_def into_reply_eq drop_stream_def)

lemma orphaned_steps: "(conn_step mx)\<^sup>*\<^sup>* c c' \<Longrightarrow> orphaned tag rx c \<Longrightarrow> orphaned tag rx c'"
  by (induction rule: rtranclp_induct) (auto intro: orphaned_step)

end
