(* ===== verification/Utf8_Lossy.thy ===== *)
theory Utf8_Lossy
  imports Utf8
begin

text \<open>
  \<^verbatim>\<open>String::from_utf8_lossy\<close> of the Rust standard library: well-formed text is kept, every maximal
  ill-formed piece becomes one U+FFFD.
\<close>

text \<open>The bytes the decoder has looked at when it gives up on the front of a string.\<close>

fun utf8_bad_len :: "bytes \<Rightarrow> nat" where
  "utf8_bad_len (a # b # c # bs) =
     (if 0xE0 \<le> byte_val a \<and> byte_val a \<le> 0xEF then
        (if utf8_three a b (char_of (0x80 :: nat)) \<noteq> None then 2 else 1)
      else if 0xF0 \<le> byte_val a \<and> byte_val a \<le> 0xF4 then
        (if utf8_four a b (char_of (0x80 :: nat)) (char_of (0x80 :: nat)) \<noteq> None
         then (if is_cont c then 3 else 2) else 1)
      else 1)"
| "utf8_bad_len [a, b] =
     (if utf8_three a b (char_of (0x80 :: nat)) \<noteq> None
         \<or> utf8_four a b (char_of (0x80 :: nat)) (char_of (0x80 :: nat)) \<noteq> None then 2 else 1)"
| "utf8_bad_len _ = 1"

lemma utf8_bad_len_pos: "0 < utf8_bad_len bs"
  by (cases bs rule: utf8_bad_len.cases) auto

definition REPLACEMENT_UTF8 :: bytes where
  "REPLACEMENT_UTF8 = encode_char 0xFFFD"

function from_utf8_lossy :: "bytes \<Rightarrow> str" where
  "from_utf8_lossy bs =
     (if bs = [] then []
      else case utf8_step bs of
             Some (n, r) \<Rightarrow> take (length bs - length r) bs @ from_utf8_lossy r
           | None \<Rightarrow> REPLACEMENT_UTF8 @ from_utf8_lossy (drop (utf8_bad_len bs) bs))"
  by pat_completeness auto
termination
  by (relation "measure length") (auto dest: utf8_step_shorter simp: utf8_bad_len_pos)

declare from_utf8_lossy.simps [simp del]

lemma from_utf8_lossy_Nil [simp]: "from_utf8_lossy [] = []"
  by (subst from_utf8_lossy.simps) simp

lemma from_utf8_lossy_step:
  "utf8_step bs = Some (n, r) \<Longrightarrow> from_utf8_lossy bs = encode_char n @ from_utf8_lossy r"
  using utf8_step_encode(1) [of bs n r] by (subst from_utf8_lossy.simps) (cases "bs = []"; simp)

lemma from_utf8_lossy_bad:
  "bs \<noteq> [] \<Longrightarrow> utf8_step bs = None \<Longrightarrow>
   from_utf8_lossy bs = REPLACEMENT_UTF8 @ from_utf8_lossy (drop (utf8_bad_len bs) bs)"
  by (subst from_utf8_lossy.simps) simp

text \<open>The result is always well formed, and well-formed input comes back as it is.\<close>

lemma from_utf8_lossy_valid: "utf8_valid (from_utf8_lossy bs)"
proof (induction bs rule: from_utf8_lossy.induct)
  case (1 bs)
  have char: "is_scalar n \<Longrightarrow> utf8_valid (encode_char n)" for n
    using utf8_valid_encode_utf8 [of "[n]"] by (simp add: encode_utf8_def)
  show ?case
  proof (cases "bs = [] \<or> utf8_step bs = None")
    case True
    with 1 char [of "0xFFFD"] show ?thesis
      by (cases "bs = []") (simp_all add: from_utf8_lossy_bad utf8_valid_append REPLACEMENT_UTF8_def is_scalar_def)
  next
    case False
    then obtain n r where s: "bs \<noteq> []" "utf8_step bs = Some (n, r)" by auto
    with 1 utf8_step_encode(2) [OF s(2)] char show ?thesis
      by (simp add: from_utf8_lossy_step utf8_valid_append)
  qed
qed

lemma from_utf8_lossy_id: "utf8_valid bs \<Longrightarrow> from_utf8_lossy bs = bs"
proof (induction bs rule: from_utf8_lossy.induct)
  case (1 bs)
  show ?case
  proof (cases "utf8_step bs")
    case None
    with 1(3) from_utf8_step_None [of bs] show ?thesis by (cases "bs = []") (auto simp: utf8_valid_def)
  next
    case (Some p)
    then obtain n r where s: "bs \<noteq> []" "utf8_step bs = Some (n, r)" by (cases bs; cases p) auto
    then have "utf8_valid r" using 1(3) by (auto simp: utf8_valid_def from_utf8_step)
    with 1(1,2) s utf8_step_encode(1) [OF s(2), symmetric] show ?thesis by (simp add: from_utf8_lossy_step)
  qed
qed

end
