(* ===== verification/Base64.thy ===== *)
theory Base64
  imports Utf8
begin

text \<open>
  The base64 encoder of \<^verbatim>\<open>imap-client/src/base64.rs\<close>, on 32-bit words as in the source, and a
  reference decoder.  The encoder is used once, for the SASL PLAIN response, so the facts that
  matter are that the server decodes exactly the bytes that were encoded, that the output is in
  the base64 alphabet (no line break can appear), and that \<^verbatim>\<open>encoded_len\<close> is the exact length, so
  that the buffer reserved for the secret never grows.
\<close>

unbundle bit_operations_syntax

definition ALPHABET :: bytes where
  "ALPHABET = ''ABCDEFGHIJKLMNOPQRSTUVWXYZabcdefghijklmnopqrstuvwxyz0123456789+/''"

definition PAD :: byte where
  "PAD = CHR ''=''"

definition INPUT_GROUP :: usize where
  "INPUT_GROUP = 3"

definition OUTPUT_GROUP :: usize where
  "OUTPUT_GROUP = 4"

definition SEXTET_MASK :: u32 where
  "SEXTET_MASK = 0x3F"

definition div_ceil :: "usize \<Rightarrow> usize \<Rightarrow> usize" where
  "div_ceil a b = (a div b) + (if a mod b = 0 then 0 else 1)"

definition encoded_len :: "usize \<Rightarrow> usize" where
  "encoded_len input_len = div_ceil input_len INPUT_GROUP * OUTPUT_GROUP"

text \<open>\<^verbatim>\<open>u32::from\<close> of a byte.\<close>

definition u32_from :: "byte \<Rightarrow> u32" where
  "u32_from b = of_nat (byte_val b)"

definition encode_group :: "byte \<Rightarrow> byte \<Rightarrow> byte \<Rightarrow> byte \<times> byte \<times> byte \<times> byte" where
  "encode_group a b c =
     (let n = (push_bit 16 (u32_from a) OR push_bit 8 (u32_from b)) OR u32_from c in
      (ALPHABET ! unat (drop_bit 18 n AND SEXTET_MASK),
       ALPHABET ! unat (drop_bit 12 n AND SEXTET_MASK),
       ALPHABET ! unat (drop_bit 6 n AND SEXTET_MASK),
       ALPHABET ! unat (n AND SEXTET_MASK)))"

text \<open>
  \<^verbatim>\<open>encode_into\<close> appends to \<open>out\<close>.  The loop over the chunks of three and the match on the
  remainder are one recursion on the input.
\<close>

fun encode_into :: "bytes \<Rightarrow> bytes \<Rightarrow> bytes" where
  "encode_into [] out = out"
| "encode_into [a] out =
     (let (c0, c1, _, _) = encode_group a NUL NUL in out @ [c0, c1, PAD, PAD])"
| "encode_into [a, b] out =
     (let (c0, c1, c2, _) = encode_group a b NUL in out @ [c0, c1, c2, PAD])"
| "encode_into (a # b # c # rest) out =
     (let (c0, c1, c2, c3) = encode_group a b c in encode_into rest (out @ [c0, c1, c2, c3]))"

subsection \<open>The quantum, in arithmetic\<close>

definition sextet :: "nat \<Rightarrow> byte" where
  "sextet n = ALPHABET ! n"

lemma unat_u32_from [simp]: "unat (u32_from b) = byte_val b"
proof -
  have "byte_val b < 2 ^ 32" using byte_val_less_256 [of b] by (simp add: less_trans [of _ 256])
  then show ?thesis by (simp add: u32_from_def unat_of_nat)
qed

text \<open>Joining bit fields that do not overlap is adding them.\<close>

lemma or_shifted:
  fixes x y :: nat
  assumes "y < 2 ^ k"
  shows "push_bit k x OR y = x * 2 ^ k + y"
proof -
  have "push_bit k x AND y = 0"
  proof (rule bit_eqI)
    fix n
    have "bit y n \<Longrightarrow> n < k"
      using assms by (metis bit_take_bit_iff take_bit_nat_eq_self)
    then show "bit (push_bit k x AND y) n \<longleftrightarrow> bit (0 :: nat) n"
      by (auto simp: bit_and_iff bit_push_bit_iff)
  qed
  then have "push_bit k x OR y = push_bit k x + y" by (simp add: disjunctive_add_eq_or)
  then show ?thesis by (simp add: push_bit_eq_mult)
qed

lemma quantum_value:
  "unat ((push_bit 16 (u32_from a) OR push_bit 8 (u32_from b)) OR u32_from c)
     = byte_val a * 65536 + byte_val b * 256 + byte_val c" (is "unat ?n = ?v")
proof -
  let ?a = "byte_val a" and ?b = "byte_val b" and ?c = "byte_val c"
  have bb: "push_bit 8 ?b < 2 ^ 16"
    using byte_val_less_256 [of b] by (simp add: push_bit_eq_mult)
  have "(push_bit 16 ?a OR push_bit 8 ?b) OR ?c = push_bit 16 ?a OR (push_bit 8 ?b OR ?c)"
    by (simp only: or.assoc)
  also have "push_bit 8 ?b OR ?c = ?b * 256 + ?c"
    using or_shifted [of ?c 8 ?b] byte_val_less_256 [of c] by simp
  also have "push_bit 16 ?a OR (?b * 256 + ?c) = ?v"
    using or_shifted [of "?b * 256 + ?c" 16 ?a] byte_val_less_256 [of b] byte_val_less_256 [of c] by simp
  finally have nat: "(push_bit 16 ?a OR push_bit 8 ?b) OR ?c = ?v" .
  have "?n = of_nat ((push_bit 16 ?a OR push_bit 8 ?b) OR ?c)"
    by (simp only: u32_from_def push_bit_of_nat [symmetric] of_nat_or_eq)
  then have n: "?n = of_nat ?v" by (simp only: nat)
  have "?v < 4294967296"
    using byte_val_less_256 [of a] byte_val_less_256 [of b] byte_val_less_256 [of c] by linarith
  then have "unat (of_nat ?v :: u32) = ?v" by (simp only: unat_of_nat) simp
  then show ?thesis by (simp only: n)
qed

lemma mask_value: "unat (drop_bit k n AND SEXTET_MASK) = unat n div 2 ^ k mod 64" for n :: u32
proof -
  have "SEXTET_MASK = mask 6" by (simp add: SEXTET_MASK_def mask_eq_exp_minus_1)
  then have "drop_bit k n AND SEXTET_MASK = take_bit 6 (drop_bit k n)"
    by (simp only: take_bit_eq_mask)
  then have "unat (drop_bit k n AND SEXTET_MASK) = take_bit 6 (drop_bit k (unat n))"
    by (simp only: unsigned_take_bit_eq unat_drop_bit_eq)
  then show ?thesis
    by (simp only: drop_bit_eq_div take_bit_eq_mod) simp
qed

lemma encode_group_arith:
  "encode_group a b c =
     (let n = byte_val a * 65536 + byte_val b * 256 + byte_val c in
      (sextet (n div 262144 mod 64), sextet (n div 4096 mod 64), sextet (n div 64 mod 64), sextet (n mod 64)))"
  using mask_value [of 18] mask_value [of 12] mask_value [of 6] mask_value [of 0]
  by (simp add: encode_group_def Let_def quantum_value sextet_def)

subsection \<open>Decoding\<close>

text \<open>The reference decoder of RFC 4648 section 4, for padded input.\<close>

fun index_of :: "byte \<Rightarrow> bytes \<Rightarrow> nat option" where
  "index_of c [] = None"
| "index_of c (x # xs) = (if x = c then Some 0 else map_option Suc (index_of c xs))"

definition value_of :: "byte \<Rightarrow> nat option" where
  "value_of c = index_of c ALPHABET"

fun decode :: "bytes \<Rightarrow> bytes option" where
  "decode [] = Some []"
| "decode (c0 # c1 # c2 # c3 # rest) =
     (case (value_of c0, value_of c1) of
        (Some v0, Some v1) \<Rightarrow>
          let b0 = char_of (v0 * 4 + v1 div 16) in
          if c2 = PAD then (if c3 = PAD \<and> rest = [] then Some [b0] else None)
          else (case value_of c2 of
             None \<Rightarrow> None
           | Some v2 \<Rightarrow>
               let b1 = char_of (v1 mod 16 * 16 + v2 div 4) in
               if c3 = PAD then (if rest = [] then Some [b0, b1] else None)
               else (case value_of c3 of
                  None \<Rightarrow> None
                | Some v3 \<Rightarrow>
                    map_option (\<lambda>d. b0 # b1 # char_of (v2 mod 4 * 64 + v3) # d) (decode rest)))
      | _ \<Rightarrow> None)"
| "decode _ = None"

lemma nat_less_64_cases: "n < 64 \<Longrightarrow> n \<in> set [0..<64]"
  by simp

lemma value_of_sextet: "n < 64 \<Longrightarrow> value_of (sextet n) = Some n"
proof -
  have "\<forall>n \<in> set [0..<64]. value_of (sextet n) = Some n" by code_simp
  then show "n < 64 \<Longrightarrow> value_of (sextet n) = Some n" by auto
qed

lemma sextet_not_pad: "n < 64 \<Longrightarrow> sextet n \<noteq> PAD"
proof -
  have "\<forall>n \<in> set [0..<64]. sextet n \<noteq> PAD" by code_simp
  then show "n < 64 \<Longrightarrow> sextet n \<noteq> PAD" by auto
qed

text \<open>A quantum has four sextets from which its three bytes are put together again.\<close>

lemma encode_group_sextets:
  obtains s3 s2 s1 s0 where "s3 < 64" "s2 < 64" "s1 < 64" "s0 < 64"
    and "encode_group a b c = (sextet s3, sextet s2, sextet s1, sextet s0)"
    and "s3 * 4 + s2 div 16 = byte_val a"
    and "s2 mod 16 * 16 + s1 div 4 = byte_val b"
    and "s1 mod 4 * 64 + s0 = byte_val c"
proof -
  define a1 a0 b1 b0 c1 c0 where d:
    "a1 = byte_val a div 4" "a0 = byte_val a mod 4" "b1 = byte_val b div 16"
    "b0 = byte_val b mod 16" "c1 = byte_val c div 64" "c0 = byte_val c mod 64"
  have abc: "byte_val a = a1 * 4 + a0" "byte_val b = b1 * 16 + b0" "byte_val c = c1 * 64 + c0"
    by (simp_all add: d)
  have lt: "a1 < 64" "a0 < 4" "b1 < 16" "b0 < 16" "c1 < 4" "c0 < 64"
    by (simp_all add: d less_mult_imp_div_less)
  let ?s2 = "a0 * 16 + b1" and ?s1 = "b0 * 4 + c1"
  define n where "n = byte_val a * 65536 + byte_val b * 256 + byte_val c"
  have n: "n = ((a1 * 64 + ?s2) * 64 + ?s1) * 64 + c0"
    by (simp add: n_def abc)
  note n1 = base64_digits [OF n lt(6)]
  have n2: "n div 4096 = a1 * 64 + ?s2" "n div 64 mod 64 = ?s1"
    using base64_digits [OF n1(1)] lt unfolding div_4096 by simp_all
  have n3: "n div 262144 = a1" "n div 4096 mod 64 = ?s2"
    using base64_digits [OF n2(1)] lt unfolding div_262144 div_4096 [symmetric] by simp_all
  have "encode_group a b c = (sextet a1, sextet ?s2, sextet ?s1, sextet c0)"
    using lt unfolding encode_group_arith Let_def n_def [symmetric] n3 n2(2) n1(2) by simp
  then show thesis
    using lt by (intro that [of a1 ?s2 ?s1 c0]) (simp_all add: abc)
qed

lemma decode_group:
  assumes "encode_group a b c = (c0, c1, c2, c3)"
  shows "decode (c0 # c1 # c2 # c3 # rest) = map_option (\<lambda>d. a # b # c # d) (decode rest)"
proof -
  obtain s3 s2 s1 s0 where "s3 < 64" "s2 < 64" "s1 < 64" "s0 < 64"
    and "encode_group a b c = (sextet s3, sextet s2, sextet s1, sextet s0)"
    and "s3 * 4 + s2 div 16 = byte_val a"
    and "s2 mod 16 * 16 + s1 div 4 = byte_val b" "s1 mod 4 * 64 + s0 = byte_val c"
    by (rule encode_group_sextets)
  with assms show ?thesis by (auto simp: value_of_sextet sextet_not_pad Let_def)
qed

lemma decode_two:
  assumes "encode_group a b NUL = (c0, c1, c2, c3)"
  shows "decode [c0, c1, c2, PAD] = Some [a, b]"
proof -
  obtain s3 s2 s1 s0 where "s3 < 64" "s2 < 64" "s1 < 64" "s0 < 64"
    and "encode_group a b NUL = (sextet s3, sextet s2, sextet s1, sextet s0)"
    and "s3 * 4 + s2 div 16 = byte_val a" "s2 mod 16 * 16 + s1 div 4 = byte_val b"
    by (rule encode_group_sextets)
  with assms show ?thesis by (auto simp: value_of_sextet sextet_not_pad Let_def)
qed

lemma decode_one:
  assumes "encode_group a NUL NUL = (c0, c1, c2, c3)"
  shows "decode [c0, c1, PAD, PAD] = Some [a]"
proof -
  obtain s3 s2 s1 s0 where "s3 < 64" "s2 < 64" "s1 < 64" "s0 < 64"
    and "encode_group a NUL NUL = (sextet s3, sextet s2, sextet s1, sextet s0)"
    and "s3 * 4 + s2 div 16 = byte_val a"
    by (rule encode_group_sextets)
  with assms show ?thesis by (auto simp: value_of_sextet Let_def)
qed

lemma list3_cases:
  obtains "xs = []" | a where "xs = [a]" | a b where "xs = [a, b]" | a b c ys where "xs = a # b # c # ys"
  by (metis list.exhaust)

lemma list3_induct [case_names zero one two more]:
  assumes "P []" "\<And>a. P [a]" "\<And>a b. P [a, b]" "\<And>a b c xs. P xs \<Longrightarrow> P (a # b # c # xs)"
  shows "P xs"
proof (induction xs rule: length_induct)
  case (1 xs)
  then show ?case by (cases xs rule: list3_cases) (auto intro: assms)
qed

lemma encode_group_cases: obtains c0 c1 c2 c3 where "encode_group a b c = (c0, c1, c2, c3)"
  by (cases "encode_group a b c")

lemma encode_into_append: "encode_into xs out = out @ encode_into xs []"
proof (induction xs arbitrary: out rule: list3_induct)
  case (more a b c xs)
  obtain c0 c1 c2 c3 where "encode_group a b c = (c0, c1, c2, c3)" by (rule encode_group_cases)
  with more.IH [of "out @ [c0, c1, c2, c3]"] more.IH [of "[c0, c1, c2, c3]"] show ?case by simp
qed (auto simp: Let_def split: prod.splits)

lemma decode_encode: "decode (encode_into xs []) = Some xs"
proof (induction xs rule: list3_induct)
  case (one a)
  obtain c0 c1 c2 c3 where g: "encode_group a NUL NUL = (c0, c1, c2, c3)" by (rule encode_group_cases)
  with decode_one [OF g] show ?case by (simp del: decode.simps)
next
  case (two a b)
  obtain c0 c1 c2 c3 where g: "encode_group a b NUL = (c0, c1, c2, c3)" by (rule encode_group_cases)
  with decode_two [OF g] show ?case by (simp del: decode.simps)
next
  case (more a b c xs)
  obtain c0 c1 c2 c3 where g: "encode_group a b c = (c0, c1, c2, c3)" by (rule encode_group_cases)
  with more.IH decode_group [OF g] encode_into_append [of xs "[c0, c1, c2, c3]"] show ?case
    by (simp del: decode.simps)
qed simp

lemma length_encode_into: "length (encode_into xs out) = length out + encoded_len (length xs)"
proof (induction xs arbitrary: out rule: list3_induct)
  case (more a b c xs)
  obtain c0 c1 c2 c3 where g: "encode_group a b c = (c0, c1, c2, c3)" by (rule encode_group_cases)
  have "(3 + n) div 3 = Suc (n div 3)" "(3 + n) mod 3 = n mod 3" for n :: nat
    using div_add_self1 [of 3 n] by simp_all
  with g more show ?case
    by (simp add: encoded_len_def div_ceil_def INPUT_GROUP_def OUTPUT_GROUP_def)
qed (auto simp: Let_def encoded_len_def div_ceil_def INPUT_GROUP_def OUTPUT_GROUP_def split: prod.splits)

lemma sextet_alphabet: "n < 64 \<Longrightarrow> sextet n \<in> set ALPHABET"
proof -
  have "length ALPHABET = 64" by code_simp
  then show "n < 64 \<Longrightarrow> sextet n \<in> set ALPHABET" by (simp add: sextet_def)
qed

lemma encode_group_alphabet:
  assumes "encode_group a b c = (c0, c1, c2, c3)"
  shows "{c0, c1, c2, c3} \<subseteq> set ALPHABET"
proof -
  obtain s3 s2 s1 s0 where "s3 < 64" "s2 < 64" "s1 < 64" "s0 < 64"
    and "encode_group a b c = (sextet s3, sextet s2, sextet s1, sextet s0)"
    by (rule encode_group_sextets)
  with assms show ?thesis by (auto simp: sextet_alphabet)
qed

lemma encode_into_alphabet: "set (encode_into xs out) \<subseteq> set out \<union> set ALPHABET \<union> {PAD}"
proof (induction xs arbitrary: out rule: list3_induct)
  case (one a)
  obtain c0 c1 c2 c3 where g: "encode_group a NUL NUL = (c0, c1, c2, c3)" by (rule encode_group_cases)
  with encode_group_alphabet [OF g] show ?case by auto
next
  case (two a b)
  obtain c0 c1 c2 c3 where g: "encode_group a b NUL = (c0, c1, c2, c3)" by (rule encode_group_cases)
  with encode_group_alphabet [OF g] show ?case by auto
next
  case (more a b c xs)
  obtain c0 c1 c2 c3 where g: "encode_group a b c = (c0, c1, c2, c3)" by (rule encode_group_cases)
  with more.IH [of "out @ [c0, c1, c2, c3]"] encode_group_alphabet [OF g] show ?case by auto
qed auto

end
