(* ===== verification/Search.thy ===== *)
theory Search
  imports Wire
begin

text \<open>
  Search criteria of \<^verbatim>\<open>imap-client/src/search.rs\<close> and their rendering.  The text of a criterion comes
  from the caller; the lemmas show that whatever the texts are, what the server sees outside
  quoted strings is fixed by the shape of the criterion.
\<close>

datatype search_key =
    FromKey str
  | ToKey str
  | SubjectKey str
  | BodyKey str
  | TextKey str
  | AllKey
  | AnsweredKey
  | DeletedKey
  | DraftKey
  | FlaggedKey
  | RecentKey
  | SeenKey
  | UnansweredKey
  | UndeletedKey
  | UndraftKey
  | UnflaggedKey
  | UnseenKey
  | AndKey "search_key list"
  | OrKey search_key search_key
  | NotKey search_key

fun to_imap_string :: "search_key \<Rightarrow> str" where
  "to_imap_string (FromKey s) = ''FROM '' @ quote s"
| "to_imap_string (ToKey s) = ''TO '' @ quote s"
| "to_imap_string (SubjectKey s) = ''SUBJECT '' @ quote s"
| "to_imap_string (BodyKey s) = ''BODY '' @ quote s"
| "to_imap_string (TextKey s) = ''TEXT '' @ quote s"
| "to_imap_string AllKey = ''ALL''"
| "to_imap_string AnsweredKey = ''ANSWERED''"
| "to_imap_string DeletedKey = ''DELETED''"
| "to_imap_string DraftKey = ''DRAFT''"
| "to_imap_string FlaggedKey = ''FLAGGED''"
| "to_imap_string RecentKey = ''RECENT''"
| "to_imap_string SeenKey = ''SEEN''"
| "to_imap_string UnansweredKey = ''UNANSWERED''"
| "to_imap_string UndeletedKey = ''UNDELETED''"
| "to_imap_string UndraftKey = ''UNDRAFT''"
| "to_imap_string UnflaggedKey = ''UNFLAGGED''"
| "to_imap_string UnseenKey = ''UNSEEN''"
| "to_imap_string (AndKey keys) = join '' '' (map to_imap_string keys)"
| "to_imap_string (OrKey left right) =
     ''OR ('' @ to_imap_string left @ '') ('' @ to_imap_string right @ '')''"
| "to_imap_string (NotKey key) = ''NOT ('' @ to_imap_string key @ '')''"

record search_query =
  sq_key :: search_key

definition search_query_new :: "search_key \<Rightarrow> search_query" where
  "search_query_new k = \<lparr>sq_key = k\<rparr>"

definition search_query_from :: "str \<Rightarrow> search_query" where
  "search_query_from addr = search_query_new (FromKey addr)"

definition search_query_to :: "str \<Rightarrow> search_query" where
  "search_query_to addr = search_query_new (ToKey addr)"

definition search_query_subject :: "str \<Rightarrow> search_query" where
  "search_query_subject s = search_query_new (SubjectKey s)"

definition build :: "search_query \<Rightarrow> str" where
  "build q = to_imap_string (sq_key q)"

subsection \<open>What stands outside the quoted strings\<close>

text \<open>
  A reader of the line that knows quoted strings: it drops their contents and keeps the two
  quotes.  The flag says whether it is inside a string.
\<close>

fun outside :: "bool \<Rightarrow> bytes \<Rightarrow> bool \<times> bytes" where
  "outside q [] = (q, [])"
| "outside False (c # cs) =
     (let (q, out) = outside (c = DQUOTE) cs in (q, c # out))"
| "outside True (c # cs) =
     (if c = BACKSLASH then (case cs of [] \<Rightarrow> (True, []) | d # ds \<Rightarrow> outside True ds)
      else if c = DQUOTE then (let (q, out) = outside False cs in (q, c # out))
      else outside True cs)"

text \<open>The criterion with its texts emptied, and the texts of a criterion.\<close>

fun blank :: "search_key \<Rightarrow> search_key" where
  "blank (FromKey s) = FromKey []"
| "blank (ToKey s) = ToKey []"
| "blank (SubjectKey s) = SubjectKey []"
| "blank (BodyKey s) = BodyKey []"
| "blank (TextKey s) = TextKey []"
| "blank (AndKey ks) = AndKey (map blank ks)"
| "blank (OrKey a b) = OrKey (blank a) (blank b)"
| "blank (NotKey k) = NotKey (blank k)"
| "blank k = k"

fun key_texts :: "search_key \<Rightarrow> str set" where
  "key_texts (FromKey s) = {s}"
| "key_texts (ToKey s) = {s}"
| "key_texts (SubjectKey s) = {s}"
| "key_texts (BodyKey s) = {s}"
| "key_texts (TextKey s) = {s}"
| "key_texts (AndKey ks) = (\<Union>k \<in> set ks. key_texts k)"
| "key_texts (OrKey a b) = key_texts a \<union> key_texts b"
| "key_texts (NotKey k) = key_texts k"
| "key_texts k = {}"

lemma outside_append_False:
  "outside q xs = (False, out) \<Longrightarrow>
   outside q (xs @ ys) = (case outside False ys of (q', out') \<Rightarrow> (q', out @ out'))"
proof (induction q xs arbitrary: out rule: outside.induct)
  case (2 c cs)
  then obtain o1 where "outside (c = DQUOTE) cs = (False, o1)" "out = c # o1"
    by (auto simp: Let_def split: prod.splits)
  with "2.IH" show ?case by (auto split: prod.split)
next
  case (3 c cs)
  consider "c = BACKSLASH" | "c = DQUOTE" | "c \<noteq> BACKSLASH" "c \<noteq> DQUOTE" by blast
  then show ?case
  proof cases
    case 1
    with 3 show ?thesis by (cases cs) auto
  next
    case 2
    with 3 obtain o1 where "outside False cs = (False, o1)" "out = c # o1"
      by (auto simp: Let_def split: prod.splits)
    with "3.IH"(2) 2 show ?thesis by (auto split: prod.split)
  next
    case 3
    with "3.IH"(3) "3.prems" show ?thesis by auto
  qed
qed (auto split: prod.split)

lemma outside_plain: "DQUOTE \<notin> set xs \<Longrightarrow> outside False xs = (False, xs)"
  by (induction xs) auto

lemma outside_escape: "outside True (escape s @ DQUOTE # r) = (case outside False r of (q, out) \<Rightarrow> (q, DQUOTE # out))"
  by (induction s) (auto simp: escape_byte_def split: prod.splits)

lemma outside_quote: "utf8_valid s \<Longrightarrow> outside False (quote s) = (False, [DQUOTE, DQUOTE])"
  using outside_escape [of s "[]"] by (simp add: quote_bytes)

lemma outside_seq:
  "outside False xs = (False, out) \<Longrightarrow> outside False ys = (False, out') \<Longrightarrow>
   outside False (xs @ ys) = (False, out @ out')"
  by (simp add: outside_append_False)

definition neat :: "bytes \<Rightarrow> bytes \<Rightarrow> bool" where
  "neat xs ys \<longleftrightarrow> outside False xs = (False, ys)"

lemma neat_join:
  "list_all2 neat xs ys \<Longrightarrow> neat (join '' '' xs) (join '' '' ys)"
proof (induction xs ys rule: list_all2_induct)
  case Nil
  then show ?case by (simp add: neat_def)
next
  case (Cons x xs y ys)
  show ?case
  proof (cases xs)
    case Nil
    with Cons show ?thesis by simp
  next
    case (Cons x' xs')
    with \<open>list_all2 neat xs ys\<close> obtain y' ys' where "ys = y' # ys'" by (auto simp: list_all2_Cons1)
    with Cons Cons.IH \<open>neat x y\<close> show ?thesis
      by (simp add: neat_def outside_append_False)
  qed
qed

lemma to_imap_string_outside:
  "\<forall>s \<in> key_texts k. utf8_valid s \<Longrightarrow>
   neat (to_imap_string k) (to_imap_string (blank k))"
proof (induction k rule: to_imap_string.induct)
  case (18 keys)
  then have "list_all2 neat (map to_imap_string keys) (map to_imap_string (map blank keys))"
    by (auto simp: list_all2_conv_all_nth)
  then show ?case by (simp add: neat_join)
next
  case (19 left right)
  then show ?case by (auto simp: neat_def outside_append_False)
next
  case (20 key)
  then show ?case by (auto simp: neat_def outside_append_False)
qed (auto simp: neat_def outside_append_False outside_quote quote_bytes outside_escape)

end
