(* ===== verification/Credentials.thy ===== *)
theory Credentials
  imports Wire
begin

text \<open>
  Secret wrappers and the quoting of credentials, \<^verbatim>\<open>imap-client/src/credentials.rs\<close>.  Wiping a string is
  the \<^verbatim>\<open>zeroize\<close> crate's business, so the definitions that wipe take that operation as a parameter.
  The lemmas say which values can be quoted, and that a quoted value holds no byte that could end
  the command line it is put in.
\<close>

datatype password = Password (password_text: str)

datatype oauth_token = OAuthToken (token_text: str)

definition password_zeroize :: "(str \<Rightarrow> str) \<Rightarrow> password \<Rightarrow> password" where
  "password_zeroize zeroize p = (case p of Password s \<Rightarrow> Password (zeroize s))"

definition password_drop :: "(str \<Rightarrow> str) \<Rightarrow> password \<Rightarrow> password" where
  "password_drop zeroize p = password_zeroize zeroize p"

definition password_new :: "str \<Rightarrow> password" where
  "password_new s = Password s"

definition password_as_str :: "password \<Rightarrow> str" where
  "password_as_str p = (case p of Password s \<Rightarrow> s)"

definition password_debug :: "password \<Rightarrow> str" where
  "password_debug p = DQUOTE # ''***'' @ [DQUOTE]"

definition oauth_zeroize :: "(str \<Rightarrow> str) \<Rightarrow> oauth_token \<Rightarrow> oauth_token" where
  "oauth_zeroize zeroize t = (case t of OAuthToken s \<Rightarrow> OAuthToken (zeroize s))"

definition oauth_drop :: "(str \<Rightarrow> str) \<Rightarrow> oauth_token \<Rightarrow> oauth_token" where
  "oauth_drop zeroize t = oauth_zeroize zeroize t"

definition oauth_new :: "str \<Rightarrow> oauth_token" where
  "oauth_new s = OAuthToken s"

definition oauth_as_str :: "oauth_token \<Rightarrow> str" where
  "oauth_as_str t = (case t of OAuthToken s \<Rightarrow> s)"

definition oauth_debug :: "oauth_token \<Rightarrow> str" where
  "oauth_debug t = DQUOTE # ''***'' @ [DQUOTE]"

definition quoted_string_refusal :: str where
  "quoted_string_refusal =
     ''value contains characters disallowed in IMAP quoted string; ''
     @ ''use AUTHENTICATE for 8-bit or control-byte values''"

definition imap_quoted :: "str \<Rightarrow> client_error + str" where
  "imap_quoted s =
     (if list_ex (\<lambda>b. b = CR \<or> b = LF \<or> b = NUL \<or> byte_val b > 0x7F) s
      then Inl (CommandFailed quoted_string_refusal)
      else Inr (quote s))"

definition as_imap_quoted :: "password \<Rightarrow> client_error + str" where
  "as_imap_quoted p = imap_quoted (password_as_str p)"

subsection \<open>Quoted credentials\<close>

definition quotable :: "str \<Rightarrow> bool" where
  "quotable s \<longleftrightarrow> is_ascii s \<and> CR \<notin> set s \<and> LF \<notin> set s \<and> NUL \<notin> set s"

lemma quotable_iff:
  "quotable s \<longleftrightarrow> \<not> list_ex (\<lambda>b. b = CR \<or> b = LF \<or> b = NUL \<or> byte_val b > 0x7F) s"
proof -
  have "(byte_val b > 0x7F) = (\<not> byte_val b < 0x80)" for b by linarith
  then have "list_ex (\<lambda>b. b = CR \<or> b = LF \<or> b = NUL \<or> byte_val b > 0x7F) s
      = list_ex (\<lambda>b. b = CR \<or> b = LF \<or> b = NUL \<or> \<not> byte_val b < 0x80) s"
    by presburger
  then show ?thesis
    unfolding quotable_def is_ascii_def list_all_iff list_ex_iff by blast
qed

lemma imap_quoted_iff:
  "imap_quoted s = Inr q \<longleftrightarrow> quotable s \<and> q = DQUOTE # escape s @ [DQUOTE]"
proof (cases "quotable s")
  case True
  then have "utf8_valid s" by (simp add: quotable_def)
  moreover have "imap_quoted s = Inr (quote s)"
    using True unfolding imap_quoted_def quotable_iff by simp
  ultimately show ?thesis using True by (auto simp: quote_bytes)
next
  case False
  then show ?thesis unfolding imap_quoted_def quotable_iff by simp
qed

lemma set_escape: "set (escape s) \<subseteq> set s \<union> {BACKSLASH}"
  by (induction s) (auto simp: escape_byte_def split: if_splits)

lemma imap_quoted_clean:
  assumes "imap_quoted s = Inr q"
  shows "CR \<notin> set q" and "LF \<notin> set q" and "NUL \<notin> set q" and "is_ascii q"
  using assms set_escape [of s]
  by (auto simp: imap_quoted_iff quotable_def is_ascii_def list_all_iff)

end
