(* ===== verification/Capabilities.thy ===== *)
theory Capabilities
  imports Parser
begin

text \<open>
  The capability set of \<^verbatim>\<open>imap-client/src/capabilities.rs\<close>: one flag per known capability, set from the
  atoms of a CAPABILITY list.  \<open>capability_fields\<close> is the table of names and flags against which the
  operations are specified.
\<close>

record capabilities =
  imap4rev1 :: bool
  imap4rev2 :: bool
  starttls :: bool
  login_disabled :: bool
  idle :: bool
  unselect :: bool
  condstore :: bool
  qresync :: bool
  move_ext :: bool
  uidplus :: bool
  literal_plus :: bool
  literal_minus :: bool
  enable :: bool
  auth_plain :: bool
  auth_login :: bool
  auth_xoauth2 :: bool
  auth_oauthbearer :: bool

definition capabilities_default :: capabilities where
  "capabilities_default =
     \<lparr>imap4rev1 = False, imap4rev2 = False, starttls = False, login_disabled = False,
      idle = False, unselect = False, condstore = False, qresync = False, move_ext = False,
      uidplus = False, literal_plus = False, literal_minus = False, enable = False,
      auth_plain = False, auth_login = False, auth_xoauth2 = False, auth_oauthbearer = False\<rparr>"

definition set_from_atom :: "str \<Rightarrow> capabilities \<Rightarrow> capabilities" where
  "set_from_atom atom self =
     (let upper = str_to_ascii_uppercase atom in
      if upper = ''IMAP4REV1'' then self\<lparr>imap4rev1 := True\<rparr>
      else if upper = ''IMAP4REV2'' then self\<lparr>imap4rev2 := True\<rparr>
      else if upper = ''STARTTLS'' then self\<lparr>starttls := True\<rparr>
      else if upper = ''LOGINDISABLED'' then self\<lparr>login_disabled := True\<rparr>
      else if upper = ''IDLE'' then self\<lparr>idle := True\<rparr>
      else if upper = ''UNSELECT'' then self\<lparr>unselect := True\<rparr>
      else if upper = ''CONDSTORE'' then self\<lparr>condstore := True\<rparr>
      else if upper = ''QRESYNC'' then self\<lparr>qresync := True\<rparr>
      else if upper = ''MOVE'' then self\<lparr>move_ext := True\<rparr>
      else if upper = ''UIDPLUS'' then self\<lparr>uidplus := True\<rparr>
      else if upper = ''LITERAL+'' then self\<lparr>literal_plus := True\<rparr>
      else if upper = ''LITERAL-'' then self\<lparr>literal_minus := True\<rparr>
      else if upper = ''ENABLE'' then self\<lparr>enable := True\<rparr>
      else if upper = ''AUTH=PLAIN'' then self\<lparr>auth_plain := True\<rparr>
      else if upper = ''AUTH=LOGIN'' then self\<lparr>auth_login := True\<rparr>
      else if upper = ''AUTH=XOAUTH2'' then self\<lparr>auth_xoauth2 := True\<rparr>
      else if upper = ''AUTH=OAUTHBEARER'' then self\<lparr>auth_oauthbearer := True\<rparr>
      else self)"

definition from_atoms :: "str list \<Rightarrow> capabilities" where
  "from_atoms atoms = fold set_from_atom atoms capabilities_default"

fun is_capability_response :: "response \<Rightarrow> bool" where
  "is_capability_response (DataResp (CapabilityData _)) = True"
| "is_capability_response (StatusResp s) =
     (case sr_code s of Some (CapabilityCode _) \<Rightarrow> True | _ \<Rightarrow> False)"
| "is_capability_response _ = False"

text \<open>\<^verbatim>\<open>try_update_from\<close> returns whether anything was updated, and the updated set.\<close>

fun try_update_from :: "response \<Rightarrow> capabilities \<Rightarrow> bool \<times> capabilities" where
  "try_update_from (DataResp (CapabilityData caps)) self = (True, from_atoms caps)"
| "try_update_from (StatusResp s) self =
     (case sr_code s of Some (CapabilityCode caps) \<Rightarrow> (True, from_atoms caps) | _ \<Rightarrow> (False, self))"
| "try_update_from _ self = (False, self)"

definition from_frame :: "bytes \<Rightarrow> capabilities option" where
  "from_frame frame =
     (case parse_response frame of
        Inl _ \<Rightarrow> None
      | Inr (_, response) \<Rightarrow>
          (case try_update_from response capabilities_default of
             (True, caps) \<Rightarrow> Some caps
           | (False, _) \<Rightarrow> None))"

definition capabilities_parse :: "str \<Rightarrow> capabilities" where
  "capabilities_parse response =
     (case from_frame response of
        Some caps \<Rightarrow> caps
      | None \<Rightarrow> fold set_from_atom (split_ascii_whitespace response) capabilities_default)"

subsection \<open>The flags are the atoms\<close>

definition capability_fields :: "(str \<times> (capabilities \<Rightarrow> bool)) list" where
  "capability_fields =
     [(''IMAP4REV1'', imap4rev1), (''IMAP4REV2'', imap4rev2), (''STARTTLS'', starttls),
      (''LOGINDISABLED'', login_disabled), (''IDLE'', idle), (''UNSELECT'', unselect),
      (''CONDSTORE'', condstore), (''QRESYNC'', qresync), (''MOVE'', move_ext),
      (''UIDPLUS'', uidplus), (''LITERAL+'', literal_plus), (''LITERAL-'', literal_minus),
      (''ENABLE'', enable), (''AUTH=PLAIN'', auth_plain), (''AUTH=LOGIN'', auth_login),
      (''AUTH=XOAUTH2'', auth_xoauth2), (''AUTH=OAUTHBEARER'', auth_oauthbearer)]"

text \<open>One atom sets exactly the flag whose name it is, without regard to case.\<close>

lemma set_from_atom_field:
  assumes "(name, field) \<in> set capability_fields"
  shows "field (set_from_atom atom caps) \<longleftrightarrow> field caps \<or> str_to_ascii_uppercase atom = name"
proof (cases "str_to_ascii_uppercase atom = name")
  case True
  have "field (set_from_atom atom caps)"
    using assms unfolding capability_fields_def set_from_atom_def Let_def True list.set
    by (elim insertE) simp_all
  with True show ?thesis by simp
next
  case False
  have "field (set_from_atom atom caps) = field caps"
    using assms False unfolding capability_fields_def set_from_atom_def Let_def list.set
    by (elim insertE) simp_all
  with False show ?thesis by simp
qed

lemma fold_set_from_atom:
  assumes "(name, field) \<in> set capability_fields"
  shows "field (fold set_from_atom atoms caps) \<longleftrightarrow>
    field caps \<or> (\<exists>a \<in> set atoms. str_to_ascii_uppercase a = name)"
  by (induction atoms arbitrary: caps) (auto simp: set_from_atom_field [OF assms])

lemma capability_names_upper:
  "(name, field) \<in> set capability_fields \<Longrightarrow> str_to_ascii_uppercase name = name"
  unfolding capability_fields_def
  by (auto simp: str_to_ascii_uppercase_def to_ascii_uppercase_def is_ascii_lowercase_def)

lemma default_field: "(name, field) \<in> set capability_fields \<Longrightarrow> \<not> field capabilities_default"
  unfolding capability_fields_def by (auto simp: capabilities_default_def)

lemma from_atoms_field:
  assumes "(name, field) \<in> set capability_fields"
  shows "field (from_atoms atoms) \<longleftrightarrow> (\<exists>a \<in> set atoms. eq_ignore_ascii_case a name)"
  using fold_set_from_atom [OF assms] default_field [OF assms] capability_names_upper [OF assms]
  by (metis from_atoms_def str_to_ascii_uppercase_eq)

text \<open>\<open>is_capability_response\<close> accepts exactly the responses that update the set.\<close>

lemma try_update_iff: "fst (try_update_from r caps) \<longleftrightarrow> is_capability_response r"
  by (cases r rule: is_capability_response.cases) (auto split: option.splits response_code.splits)

lemma try_update_unchanged: "\<not> is_capability_response r \<Longrightarrow> try_update_from r caps = (False, caps)"
  by (cases r rule: is_capability_response.cases) (auto split: option.splits response_code.splits)

end
