(* ===== verification/Session.thy ===== *)
theory Session
  imports Raw_Client Utf8_Lossy Base64 Search Credentials Capabilities
begin

text \<open>
  The type-state session of \<^verbatim>\<open>imap-client/src/session.rs\<close> and the IDLE handle of
  \<^verbatim>\<open>imap-client/src/idle.rs\<close>.

  The state and transport markers are phantom types in the code.  Here they are fields: a method
  that exists only in an \<^verbatim>\<open>impl\<close> block for some markers may only be called on a session
  with these markers, which is the premise of its rule in \<open>session_step\<close>.  A method that consumes
  the session returns, beside its result, the client as it is left, since on an error the session is gone
  but what was sent is not.
\<close>

datatype state_marker = Unauthenticated | Authenticated | Selected

datatype transport_marker = PlainText | Tls

record session =
  sess_raw :: raw_client
  sess_caps :: capabilities
  sess_state :: state_marker
  sess_transport :: transport_marker

record FetchResult =
  fr_seq :: u32
  fr_uid :: "u32 option"
  fr_body :: "bytes option"

type_synonym 'a result = "client_error + 'a"

subsection \<open>Helpers\<close>

definition login_command :: "str \<Rightarrow> str \<Rightarrow> str" where
  "login_command user_q pass_q = ''LOGIN '' @ user_q @ [SP] @ pass_q"

definition login_command_capacity :: "str \<Rightarrow> str \<Rightarrow> usize" where
  "login_command_capacity user_q pass_q = length ''LOGIN '' + length user_q + 1 + length pass_q"

definition sasl_plain :: "str \<Rightarrow> password \<Rightarrow> bytes" where
  "sasl_plain user pass = ((([] @ [NUL]) @ user) @ [NUL]) @ password_as_str pass"

definition sasl_plain_line :: "str \<Rightarrow> password \<Rightarrow> bytes" where
  "sasl_plain_line user pass = encode_into (sasl_plain user pass) [] @ CRLF"

text \<open>The sizes of the two reservations, for the plaintext and for the line.\<close>

definition sasl_plain_capacity :: "str \<Rightarrow> password \<Rightarrow> usize" where
  "sasl_plain_capacity user pass = 2 + length user + length (password_as_str pass)"

definition sasl_plain_line_capacity :: "str \<Rightarrow> password \<Rightarrow> usize" where
  "sasl_plain_line_capacity user pass = encoded_len (length (sasl_plain user pass)) + length CRLF"

fun is_continuation :: frame_filter where
  "is_continuation (ContinueResp _) = True"
| "is_continuation _ = False"

fun is_fetch :: frame_filter where
  "is_fetch (DataResp (FetchData _ _)) = True"
| "is_fetch _ = False"

fun is_search :: frame_filter where
  "is_search (DataResp (SearchData _)) = True"
| "is_search _ = False"

fun fetch_attr :: "fetch_attribute \<Rightarrow> u32 option \<times> bytes option \<Rightarrow> u32 option \<times> bytes option" where
  "fetch_attr (UidAtt u) (uid, body) = (Some u, body)"
| "fetch_attr (BodySectionAtt _ _ (Some d)) (uid, body) = (uid, Some d)"
| "fetch_attr (BodyAtt b) (uid, body) = (uid, Some b)"
| "fetch_attr (Rfc822Att b) (uid, body) = (uid, Some b)"
| "fetch_attr _ (uid, body) = (uid, body)"

definition fetch_result :: "bytes \<Rightarrow> FetchResult option" where
  "fetch_result frame =
     (case parse_response frame of
        Inr (_, DataResp (FetchData seq attributes)) \<Rightarrow>
          (case fold fetch_attr attributes (None, None) of
             (uid, body) \<Rightarrow> Some \<lparr>fr_seq = seq, fr_uid = uid, fr_body = body\<rparr>)
      | _ \<Rightarrow> None)"

definition await_continuation :: "env \<Rightarrow> command_stream \<Rightarrow> seconds \<Rightarrow> chan result" where
  "await_continuation e stream timeout =
     (case env_first e (frames stream) timeout of
        Elapsed \<Rightarrow> Inl Timeout
      | Arrived _ \<Rightarrow> Inr (reply stream)
      | SenderGone \<Rightarrow>
          (case env_wait e (reply stream) of
             Some (Inl err) \<Rightarrow> Inl err
           | Some (Inr _) \<Rightarrow>
               Inl (CommandFailed ''server completed the command without a continuation request'')
           | None \<Rightarrow> Inl ConnectionClosed))"

subsection \<open>Any state\<close>

definition new_in_state ::
  "state_marker \<Rightarrow> transport_marker \<Rightarrow> raw_client \<Rightarrow> capabilities \<Rightarrow> session" where
  "new_in_state s t r caps = \<lparr>sess_raw = r, sess_caps = caps, sess_state = s, sess_transport = t\<rparr>"

definition session_new :: "raw_client \<Rightarrow> capabilities \<Rightarrow> session" where
  "session_new r caps = new_in_state Unauthenticated PlainText r caps"

definition session_new_tls :: "raw_client \<Rightarrow> capabilities \<Rightarrow> session" where
  "session_new_tls r caps = new_in_state Unauthenticated Tls r caps"

definition transition_state :: "state_marker \<Rightarrow> session \<Rightarrow> session" where
  "transition_state s self =
     \<lparr>sess_raw = sess_raw self, sess_caps = sess_caps self, sess_state = s,
      sess_transport = sess_transport self\<rparr>"

text \<open>Run an operation of the client inside a session.\<close>

definition with_raw :: "(raw_client \<Rightarrow> 'a \<times> raw_client) \<Rightarrow> session \<Rightarrow> 'a \<times> session" where
  "with_raw f self = (case f (sess_raw self) of (res, r) \<Rightarrow> (res, self\<lparr>sess_raw := r\<rparr>))"

text \<open>What \<^verbatim>\<open>refresh_capabilities\<close> does with one frame.\<close>

definition caps_on_frame :: "bytes \<Rightarrow> capabilities \<Rightarrow> capabilities" where
  "caps_on_frame frame caps =
     (case parse_response frame of Inr (_, response) \<Rightarrow> snd (try_update_from response caps) | Inl _ \<Rightarrow> caps)"

definition refresh_capabilities :: "env \<Rightarrow> session \<Rightarrow> unit result \<times> session" where
  "refresh_capabilities e self =
     (case execute_streaming e ''CAPABILITY'' is_capability_response caps_on_frame (sess_caps self) (sess_raw self) of
        (res, caps, r) \<Rightarrow>
          (map_sum id (\<lambda>_. ()) res, self\<lparr>sess_raw := r, sess_caps := caps\<rparr>))"

definition refresh_capabilities_from_frame :: "env \<Rightarrow> bytes \<Rightarrow> session \<Rightarrow> unit result \<times> session" where
  "refresh_capabilities_from_frame e frame self =
     (case parse_response frame of
        Inr (_, response) \<Rightarrow>
          (case try_update_from response (sess_caps self) of
             (True, caps) \<Rightarrow> (Inr (), self\<lparr>sess_caps := caps\<rparr>)
           | (False, caps) \<Rightarrow> refresh_capabilities e (self\<lparr>sess_caps := caps\<rparr>))
      | Inl _ \<Rightarrow> refresh_capabilities e self)"

definition logout :: "env \<Rightarrow> session \<Rightarrow> unit result \<times> raw_client" where
  "logout e self =
     (case execute_command e ''LOGOUT'' (sess_raw self) of
        (Inr _, r) \<Rightarrow> (Inr (), r)
      | (Inl err, r) \<Rightarrow> (if err = ConnectionClosed then Inr () else Inl err, r))"

definition noop :: "env \<Rightarrow> session \<Rightarrow> unit result \<times> session" where
  "noop e self =
     (case with_raw (execute_command e ''NOOP'') self of (res, self) \<Rightarrow> (map_sum id (\<lambda>_. ()) res, self))"

subsection \<open>Unauthenticated, over TLS\<close>

text \<open>The end of both ways to authenticate: capabilities from the frame, then the new state.\<close>

definition finish_authentication :: "env \<Rightarrow> bytes \<Rightarrow> session \<Rightarrow> session result \<times> raw_client" where
  "finish_authentication e frame self =
     (case refresh_capabilities_from_frame e frame self of
        (Inl err, self) \<Rightarrow> (Inl err, sess_raw self)
      | (Inr _, self) \<Rightarrow> (Inr (transition_state Authenticated self), sess_raw self))"

definition login :: "env \<Rightarrow> str \<Rightarrow> password \<Rightarrow> session \<Rightarrow> session result \<times> raw_client" where
  "login e user pass self =
     (case imap_quoted user of
        Inl err \<Rightarrow> (Inl err, sess_raw self)
      | Inr user_q \<Rightarrow>
          (case as_imap_quoted pass of
             Inl err \<Rightarrow> (Inl err, sess_raw self)
           | Inr pass_q \<Rightarrow>
               (case with_raw (execute_command e (login_command user_q pass_q)) self of
                  (Inl err, self) \<Rightarrow> (Inl err, sess_raw self)
                | (Inr frame, self) \<Rightarrow> finish_authentication e frame self)))"

definition authenticate_plain :: "env \<Rightarrow> str \<Rightarrow> password \<Rightarrow> session \<Rightarrow> session result \<times> raw_client" where
  "authenticate_plain e user pass self =
     (if NUL \<in> set user then (Inl (CommandFailed ''username must not contain NUL''), sess_raw self)
      else if NUL \<in> set (password_as_str pass) then
        (Inl (CommandFailed ''password must not contain NUL''), sess_raw self)
      else
        (case with_raw (\<lambda>r. send_command_streaming (alive e r) ''AUTHENTICATE PLAIN'' is_continuation r) self of
           (Inl err, self) \<Rightarrow> (Inl err, sess_raw self)
         | (Inr stream, self) \<Rightarrow>
             (case await_continuation e stream (default_timeout (sess_raw self)) of
                Inl err \<Rightarrow> (Inl err, sess_raw self)
              | Inr reply_rx \<Rightarrow>
                  (case with_raw (\<lambda>r. send_secret (alive e r) (sasl_plain_line user pass) r) self of
                     (Inl err, self) \<Rightarrow> (Inl err, sess_raw self)
                   | (Inr _, self) \<Rightarrow>
                       (case await_reply (env_reply e reply_rx (default_timeout (sess_raw self))) of
                          Inl err \<Rightarrow> (Inl err, sess_raw self)
                        | Inr frame \<Rightarrow> finish_authentication e frame self)))))"

subsection \<open>Authenticated\<close>

definition select :: "env \<Rightarrow> str \<Rightarrow> session \<Rightarrow> session result \<times> raw_client" where
  "select e mailbox self =
     (case imap_quoted mailbox of
        Inl err \<Rightarrow> (Inl err, sess_raw self)
      | Inr mb \<Rightarrow>
          (case with_raw (execute_command e (''SELECT '' @ mb)) self of
             (Inl err, self) \<Rightarrow> (Inl err, sess_raw self)
           | (Inr _, self) \<Rightarrow> (Inr (transition_state Selected self), sess_raw self)))"

definition examine :: "env \<Rightarrow> str \<Rightarrow> session \<Rightarrow> session result \<times> raw_client" where
  "examine e mailbox self =
     (case imap_quoted mailbox of
        Inl err \<Rightarrow> (Inl err, sess_raw self)
      | Inr mb \<Rightarrow>
          (case with_raw (execute_command e (''EXAMINE '' @ mb)) self of
             (Inl err, self) \<Rightarrow> (Inl err, sess_raw self)
           | (Inr _, self) \<Rightarrow> (Inr (transition_state Selected self), sess_raw self)))"

definition session_list :: "env \<Rightarrow> str \<Rightarrow> str \<Rightarrow> session \<Rightarrow> bytes result \<times> session" where
  "session_list e reference mailbox_mask self =
     (case imap_quoted reference of
        Inl err \<Rightarrow> (Inl err, self)
      | Inr rf \<Rightarrow>
          (case imap_quoted mailbox_mask of
             Inl err \<Rightarrow> (Inl err, self)
           | Inr mm \<Rightarrow> with_raw (execute_command e (''LIST '' @ rf @ [SP] @ mm)) self))"

subsection \<open>Selected\<close>

definition fetch_command :: "str \<Rightarrow> str \<Rightarrow> str result" where
  "fetch_command st items =
     (case sequence_set st of
        Inl err \<Rightarrow> Inl err
      | Inr st \<Rightarrow> (case fetch_items items of Inl err \<Rightarrow> Inl err | Inr items \<Rightarrow> Inr (''FETCH '' @ st @ [SP] @ items)))"

definition fetch_raw :: "env \<Rightarrow> str \<Rightarrow> str \<Rightarrow> session \<Rightarrow> bytes result \<times> session" where
  "fetch_raw e st items self =
     (case fetch_command st items of
        Inl err \<Rightarrow> (Inl err, self)
      | Inr cmd \<Rightarrow> with_raw (execute_command e cmd) self)"

definition push_fetch :: "bytes \<Rightarrow> FetchResult list \<Rightarrow> FetchResult list" where
  "push_fetch frame results =
     (case fetch_result frame of Some result \<Rightarrow> results @ [result] | None \<Rightarrow> results)"

definition fetch :: "env \<Rightarrow> str \<Rightarrow> str \<Rightarrow> session \<Rightarrow> FetchResult list result \<times> session" where
  "fetch e st items self =
     (case fetch_command st items of
        Inl err \<Rightarrow> (Inl err, self)
      | Inr cmd \<Rightarrow>
          (case execute_streaming e cmd is_fetch push_fetch [] (sess_raw self) of
             (res, results, r) \<Rightarrow> (map_sum id (\<lambda>_. results) res, self\<lparr>sess_raw := r\<rparr>)))"

definition fetch_body :: "env \<Rightarrow> str \<Rightarrow> session \<Rightarrow> str option result \<times> session" where
  "fetch_body e st self =
     (case fetch e st ''BODY[]'' self of
        (Inl err, self) \<Rightarrow> (Inl err, self)
      | (Inr results, self) \<Rightarrow>
          (Inr (case results of
                  res # _ \<Rightarrow> map_option from_utf8_lossy (fr_body res)
                | [] \<Rightarrow> None), self))"

definition push_search :: "bytes \<Rightarrow> u32 list \<Rightarrow> u32 list" where
  "push_search frame all_ids =
     (case parse_response frame of
        Inr (_, DataResp (SearchData ids)) \<Rightarrow> all_ids @ ids
      | _ \<Rightarrow> all_ids)"

definition run_search :: "env \<Rightarrow> str \<Rightarrow> session \<Rightarrow> u32 list result \<times> session" where
  "run_search e cmd self =
     (case execute_streaming e cmd is_search push_search [] (sess_raw self) of
        (res, all_ids, r) \<Rightarrow> (map_sum id (\<lambda>_. all_ids) res, self\<lparr>sess_raw := r\<rparr>))"

definition search :: "env \<Rightarrow> search_query \<Rightarrow> session \<Rightarrow> u32 list result \<times> session" where
  "search e query self = run_search e (''SEARCH '' @ build query) self"

definition uid_search :: "env \<Rightarrow> search_query \<Rightarrow> session \<Rightarrow> u32 list result \<times> session" where
  "uid_search e query self = run_search e (''UID SEARCH '' @ build query) self"

text \<open>\<^verbatim>\<open>for flag in flags { wire::flag(flag)?; }\<close>\<close>

fun check_flags :: "flag list \<Rightarrow> unit result" where
  "check_flags [] = Inr ()"
| "check_flags (f # fs) = (case wire_flag f of Inl err \<Rightarrow> Inl err | Inr _ \<Rightarrow> check_flags fs)"

definition store :: "env \<Rightarrow> str \<Rightarrow> store_action \<Rightarrow> flag list \<Rightarrow> session \<Rightarrow> bytes result \<times> session" where
  "store e st action flags self =
     (case check_flags flags of
        Inl err \<Rightarrow> (Inl err, self)
      | Inr _ \<Rightarrow>
          let flags_str = join [SP] (map flag_to_string flags) in
          (case sequence_set st of
             Inl err \<Rightarrow> (Inl err, self)
           | Inr st \<Rightarrow>
               with_raw (execute_command e
                 (''STORE '' @ st @ [SP] @ to_imap_prefix action False @ '' ('' @ flags_str @ '')'')) self))"

definition uid_store :: "env \<Rightarrow> str \<Rightarrow> store_action \<Rightarrow> flag list \<Rightarrow> session \<Rightarrow> bytes result \<times> session" where
  "uid_store e uid_set action flags self =
     (case check_flags flags of
        Inl err \<Rightarrow> (Inl err, self)
      | Inr _ \<Rightarrow>
          let flags_str = join [SP] (map flag_to_string flags) in
          (case sequence_set uid_set of
             Inl err \<Rightarrow> (Inl err, self)
           | Inr st \<Rightarrow>
               with_raw (execute_command e
                 (''UID STORE '' @ st @ [SP] @ to_imap_prefix action False @ '' ('' @ flags_str @ '')'')) self))"

definition expunge :: "env \<Rightarrow> session \<Rightarrow> bytes result \<times> session" where
  "expunge e self = with_raw (execute_command e ''EXPUNGE'') self"

definition close_mailbox :: "env \<Rightarrow> session \<Rightarrow> session result \<times> raw_client" where
  "close_mailbox e self =
     (case with_raw (execute_command e ''CLOSE'') self of
        (Inl err, self) \<Rightarrow> (Inl err, sess_raw self)
      | (Inr _, self) \<Rightarrow> (Inr (transition_state Authenticated self), sess_raw self))"

definition session_unselect :: "env \<Rightarrow> session \<Rightarrow> session result \<times> raw_client" where
  "session_unselect e self =
     (if \<not> unselect (sess_caps self) then (Inl (UnsupportedCapability ''UNSELECT''), sess_raw self)
      else
        (case with_raw (execute_command e ''UNSELECT'') self of
           (Inl err, self) \<Rightarrow> (Inl err, sess_raw self)
         | (Inr _, self) \<Rightarrow> (Inr (transition_state Authenticated self), sess_raw self)))"

definition check :: "env \<Rightarrow> session \<Rightarrow> unit result \<times> session" where
  "check e self =
     (case with_raw (execute_command e ''CHECK'') self of (res, self) \<Rightarrow> (map_sum id (\<lambda>_. ()) res, self))"

text \<open>The write half of an IDLE handle is a clone of the client's, so the handle is its reply channel.\<close>

record idle_handle =
  reply_rx :: chan

definition idle_handle_new :: "chan \<Rightarrow> idle_handle" where
  "idle_handle_new rx = \<lparr>reply_rx = rx\<rparr>"

definition session_idle :: "env \<Rightarrow> session \<Rightarrow> idle_handle result \<times> session" where
  "session_idle e self =
     (if \<not> idle (sess_caps self) then (Inl (UnsupportedCapability ''IDLE''), self)
      else
        (case with_raw (\<lambda>r. send_command_streaming (alive e r) ''IDLE'' is_continuation r) self of
           (Inl err, self) \<Rightarrow> (Inl err, self)
         | (Inr stream, self) \<Rightarrow>
             (map_sum id idle_handle_new
                (await_continuation e stream (default_timeout (sess_raw self))), self)))"

definition stop_with_timeout :: "env \<Rightarrow> seconds \<Rightarrow> idle_handle \<Rightarrow> raw_client \<Rightarrow> unit result \<times> raw_client" where
  "stop_with_timeout e done_timeout self r =
     (case writer_send_raw (alive e r) (''DONE'' @ CRLF) r of
        (Inl err, r) \<Rightarrow> (Inl err, r)
      | (Inr _, r) \<Rightarrow>
          (map_sum id (\<lambda>_. ()) (await_reply (env_reply e (reply_rx self) done_timeout)), r))"

definition stop :: "env \<Rightarrow> idle_handle \<Rightarrow> raw_client \<Rightarrow> unit result \<times> raw_client" where
  "stop e self r = stop_with_timeout e 30 self r"

definition move_messages :: "env \<Rightarrow> str \<Rightarrow> str \<Rightarrow> session \<Rightarrow> bytes result \<times> session" where
  "move_messages e st mailbox self =
     (if \<not> move_ext (sess_caps self) then (Inl (UnsupportedCapability ''MOVE''), self)
      else
        (case sequence_set st of
           Inl err \<Rightarrow> (Inl err, self)
         | Inr st \<Rightarrow>
             (case imap_quoted mailbox of
                Inl err \<Rightarrow> (Inl err, self)
              | Inr mb \<Rightarrow> with_raw (execute_command e (''MOVE '' @ st @ [SP] @ mb)) self)))"

subsection \<open>The calls the types allow\<close>

text \<open>
  One step is one call of a public method, on a session whose markers are those of the \<^verbatim>\<open>impl\<close> block, that leaves
  a session: the same one after a method on \<^verbatim>\<open>&mut self\<close>, the new one after a method on \<^verbatim>\<open>self\<close>
  that succeeded.  The environment may be another one at each call.

  An IDLE handle is made by a selected session and does not borrow it, so it may be stopped later, when the session is in another state or
  has ended; only a session that never was authenticated has no handle.
\<close>

inductive session_step :: "session \<Rightarrow> session \<Rightarrow> bool" where
  call_refresh: "session_step s (snd (refresh_capabilities e s))"
| call_noop: "session_step s (snd (noop e s))"
| call_login: "sess_state s = Unauthenticated \<Longrightarrow> sess_transport s = Tls \<Longrightarrow>
    fst (login e user pass s) = Inr s' \<Longrightarrow> session_step s s'"
| call_authenticate: "sess_state s = Unauthenticated \<Longrightarrow> sess_transport s = Tls \<Longrightarrow>
    fst (authenticate_plain e user pass s) = Inr s' \<Longrightarrow> session_step s s'"
| call_select: "sess_state s = Authenticated \<Longrightarrow> fst (select e mb s) = Inr s' \<Longrightarrow> session_step s s'"
| call_examine: "sess_state s = Authenticated \<Longrightarrow> fst (examine e mb s) = Inr s' \<Longrightarrow> session_step s s'"
| call_list: "sess_state s = Authenticated \<Longrightarrow> session_step s (snd (session_list e rf mm s))"
| call_fetch_raw: "sess_state s = Selected \<Longrightarrow> session_step s (snd (fetch_raw e st items s))"
| call_fetch: "sess_state s = Selected \<Longrightarrow> session_step s (snd (fetch e st items s))"
| call_fetch_body: "sess_state s = Selected \<Longrightarrow> session_step s (snd (fetch_body e st s))"
| call_search: "sess_state s = Selected \<Longrightarrow> session_step s (snd (search e q s))"
| call_uid_search: "sess_state s = Selected \<Longrightarrow> session_step s (snd (uid_search e q s))"
| call_store: "sess_state s = Selected \<Longrightarrow> session_step s (snd (store e st act flags s))"
| call_uid_store: "sess_state s = Selected \<Longrightarrow> session_step s (snd (uid_store e st act flags s))"
| call_expunge: "sess_state s = Selected \<Longrightarrow> session_step s (snd (expunge e s))"
| call_close: "sess_state s = Selected \<Longrightarrow> fst (close_mailbox e s) = Inr s' \<Longrightarrow> session_step s s'"
| call_unselect: "sess_state s = Selected \<Longrightarrow> fst (session_unselect e s) = Inr s' \<Longrightarrow> session_step s s'"
| call_check: "sess_state s = Selected \<Longrightarrow> session_step s (snd (check e s))"
| call_idle: "sess_state s = Selected \<Longrightarrow> session_step s (snd (session_idle e s))"
| call_stop: "sess_state s \<noteq> Unauthenticated \<Longrightarrow>
    session_step s (s\<lparr>sess_raw := snd (stop_with_timeout e d h (sess_raw s))\<rparr>)"
| call_move: "sess_state s = Selected \<Longrightarrow> session_step s (snd (move_messages e st mb s))"

text \<open>
  The end of a session: it is dropped, or a method that consumes it was called, and whether that succeeded or failed the
  client is left behind with what was sent.
\<close>

inductive session_end :: "session \<Rightarrow> raw_client \<Rightarrow> bool" where
  end_dropped: "session_end s (sess_raw s)"
| end_logout: "session_end s (snd (logout e s))"
| end_login: "sess_state s = Unauthenticated \<Longrightarrow> sess_transport s = Tls \<Longrightarrow>
    session_end s (snd (login e user pass s))"
| end_authenticate: "sess_state s = Unauthenticated \<Longrightarrow> sess_transport s = Tls \<Longrightarrow>
    session_end s (snd (authenticate_plain e user pass s))"
| end_select: "sess_state s = Authenticated \<Longrightarrow> session_end s (snd (select e mb s))"
| end_examine: "sess_state s = Authenticated \<Longrightarrow> session_end s (snd (examine e mb s))"
| end_close: "sess_state s = Selected \<Longrightarrow> session_end s (snd (close_mailbox e s))"
| end_unselect: "sess_state s = Selected \<Longrightarrow> session_end s (snd (session_unselect e s))"
| end_stop: "session_end s r \<Longrightarrow> sess_state s \<noteq> Unauthenticated \<Longrightarrow> session_end s (snd (stop_with_timeout e d h r))"

end
