(* ===== verification/Session_Props.thy ===== *)
theory Session_Props
  imports Session
begin

text \<open>
  What a session sends, when it refuses to send, and which states its methods can reach.
\<close>

subsection \<open>Whole lines only\<close>

lemma with_raw_simps [simp]:
  "fst (with_raw f s) = fst (f (sess_raw s))" "sess_raw (snd (with_raw f s)) = snd (f (sess_raw s))"
  "sess_caps (snd (with_raw f s)) = sess_caps s" "sess_state (snd (with_raw f s)) = sess_state s"
  "sess_transport (snd (with_raw f s)) = sess_transport s"
  by (simp_all add: with_raw_def split: prod.split)

text \<open>
  An operation of the client that leaves whole lines in the queue does so inside a session, too.
\<close>

locale line_keeping =
  fixes f :: "raw_client \<Rightarrow> 'a \<times> raw_client"
  assumes keeps: "lines_only r \<Longrightarrow> lines_only (snd (f r))"
begin

lemma inside: "lines_only (sess_raw s) \<Longrightarrow> with_raw f s = (res, s') \<Longrightarrow> lines_only (sess_raw s')"
  using keeps with_raw_simps(2) [of f s] by simp

end

interpretation command: line_keeping "execute_command e cmd" for e cmd
  by unfold_locales (rule lines_only_execute)

interpretation streaming: line_keeping "\<lambda>r. send_command_streaming (alive e r) cmd w r" for e cmd w
  by unfold_locales (rule lines_only_send_streaming)

lemma lines_streaming:
  "lines_only r \<Longrightarrow> execute_streaming e cmd w on_frame st r = (res, st', r') \<Longrightarrow> lines_only r'"
  using lines_only_streaming [of r e cmd w on_frame st] by simp

lemma base64_line: "one_line (encode_into xs [] @ CRLF)"
proof -
  have "CR \<notin> set ALPHABET" "LF \<notin> set ALPHABET" "CR \<noteq> PAD" "LF \<noteq> PAD" by code_simp+
  with encode_into_alphabet [of xs "[]"] have "CR \<notin> set (encode_into xs [])" "LF \<notin> set (encode_into xs [])"
    by auto
  then show ?thesis unfolding one_line_def by blast
qed

interpretation secret: line_keeping "\<lambda>r. send_secret (alive e r) (sasl_plain_line user pass) r" for e user pass
  by unfold_locales (auto simp: send_secret_def sasl_plain_line_def base64_line intro!: lines_only_send_request)

lemma done_line: "one_line (''DONE'' @ CRLF)"
  unfolding one_line_def by (intro exI [of _ "''DONE''"]) simp

interpretation idle_done: line_keeping "\<lambda>r. writer_send_raw (alive e r) (''DONE'' @ CRLF) r" for e
  by unfold_locales (auto simp: writer_send_raw_def done_line [simplified] intro!: lines_only_send_request)

lemmas lines_command = command.inside
lemmas lines_stream = streaming.inside
lemmas lines_secret = secret.inside

lemma lines_refresh:
  "lines_only (sess_raw s) \<Longrightarrow> refresh_capabilities e s = (res, s') \<Longrightarrow> lines_only (sess_raw s')"
  using lines_streaming by (auto simp: refresh_capabilities_def split: prod.splits)

lemma lines_refresh_from:
  assumes "lines_only (sess_raw s)" "refresh_capabilities_from_frame e frame s = (res, s')"
  shows "lines_only (sess_raw s')"
  using assms lines_refresh
  by (auto simp: refresh_capabilities_from_frame_def split: sum.splits prod.splits bool.splits)
    (metis (no_types, lifting) session.select_convs(1) session.surjective session.update_convs(2))+

lemma lines_finish:
  assumes "lines_only (sess_raw s)"
  shows "lines_only (snd (finish_authentication e frame s))"
  using lines_refresh_from [OF assms]
  by (auto simp: finish_authentication_def split: prod.splits sum.splits)

lemmas lines_rules = lines_command lines_stream lines_secret lines_finish lines_refresh

lemma lines_login: "lines_only (sess_raw s) \<Longrightarrow> lines_only (snd (login e user pass s))"
  by (auto simp: login_def split: sum.splits prod.splits intro: lines_rules)

lemma lines_authenticate:
  assumes "lines_only (sess_raw s)"
  shows "lines_only (snd (authenticate_plain e user pass s))"
proof -
  obtain res s1 where s1: "with_raw (\<lambda>r. send_command_streaming (alive e r) ''AUTHENTICATE PLAIN'' is_continuation r) s
    = (res, s1)" by fastforce
  note l1 = lines_stream [OF assms s1]
  obtain res2 s2 where s2: "with_raw (\<lambda>r. send_secret (alive e r) (sasl_plain_line user pass) r) s1 = (res2, s2)"
    by fastforce
  note l2 = lines_secret [OF l1 s2]
  show ?thesis
    using assms l1 l2 lines_finish [OF l2]
    by (auto simp: authenticate_plain_def s1 s2 split: sum.splits)
qed

lemma lines_state_change:
  assumes "lines_only (sess_raw s)"
  shows "lines_only (snd (select e mb s))" "lines_only (snd (examine e mb s))"
    "lines_only (snd (close_mailbox e s))" "lines_only (snd (session_unselect e s))"
  using assms
  by (auto simp: select_def examine_def close_mailbox_def session_unselect_def split: sum.splits prod.splits
      dest: lines_command)

lemma lines_methods:
  assumes "lines_only (sess_raw s)"
  shows "lines_only (sess_raw (snd (noop e s)))" "lines_only (sess_raw (snd (session_list e rf mm s)))"
    "lines_only (sess_raw (snd (fetch_raw e st items s)))" "lines_only (sess_raw (snd (store e st act flags s)))"
    "lines_only (sess_raw (snd (uid_store e st act flags s)))" "lines_only (sess_raw (snd (expunge e s)))"
    "lines_only (sess_raw (snd (check e s)))" "lines_only (sess_raw (snd (move_messages e st mb s)))"
  using assms
  by (auto simp: noop_def session_list_def fetch_raw_def store_def uid_store_def expunge_def check_def
      move_messages_def Let_def split: sum.splits prod.splits dest: lines_command intro: lines_only_execute)

lemma lines_fetch: "lines_only (sess_raw s) \<Longrightarrow> lines_only (sess_raw (snd (fetch e st items s)))"
  using lines_streaming by (auto simp: fetch_def split: sum.splits prod.splits)

lemma lines_streams:
  assumes "lines_only (sess_raw s)"
  shows "lines_only (sess_raw (snd (fetch_body e st s)))" "lines_only (sess_raw (snd (search e q s)))"
    "lines_only (sess_raw (snd (uid_search e q s)))" "lines_only (sess_raw (snd (session_idle e s)))"
  using assms lines_fetch [OF assms, of e st "''BODY[]''"] lines_streaming
  by (auto simp: fetch_body_def search_def uid_search_def run_search_def session_idle_def
      split: sum.splits prod.splits dest: lines_stream)

lemma lines_stop: "lines_only r \<Longrightarrow> lines_only (snd (stop_with_timeout e d h r))"
  using idle_done.keeps [of r e] by (auto simp: stop_with_timeout_def split: prod.splits sum.splits)

subsection \<open>The states a session can be in\<close>

text \<open>A method that consumes the session and succeeds: the connection, the state and the transport of the new one.\<close>

lemma with_raw_markers:
  "with_raw f s = (res, s') \<Longrightarrow> sess_state s' = sess_state s \<and> sess_transport s' = sess_transport s"
  using with_raw_simps(4,5) [of f s] by simp

lemma refresh_markers:
  "refresh_capabilities e s = (res, s') \<Longrightarrow> sess_state s' = sess_state s \<and> sess_transport s' = sess_transport s"
  by (auto simp: refresh_capabilities_def split: prod.splits)

lemma refresh_from_markers:
  "refresh_capabilities_from_frame e frame s = (res, s') \<Longrightarrow>
   sess_state s' = sess_state s \<and> sess_transport s' = sess_transport s"
  by (auto simp: refresh_capabilities_from_frame_def split: sum.splits prod.splits bool.splits dest: refresh_markers)

lemma finish_authentication_ok:
  "fst (finish_authentication e frame s) = Inr s' \<Longrightarrow>
   sess_raw s' = snd (finish_authentication e frame s) \<and> sess_state s' = Authenticated
   \<and> sess_transport s' = sess_transport s"
  by (auto simp: finish_authentication_def transition_state_def split: sum.splits prod.splits
      dest: refresh_from_markers)

lemma login_ok:
  "fst (login e user pass s) = Inr s' \<Longrightarrow>
   sess_raw s' = snd (login e user pass s) \<and> sess_state s' = Authenticated \<and> sess_transport s' = sess_transport s"
  by (auto simp: login_def split: sum.splits prod.splits dest!: finish_authentication_ok with_raw_markers)

lemma authenticate_ok:
  assumes "fst (authenticate_plain e user pass s) = Inr s'"
  shows "sess_raw s' = snd (authenticate_plain e user pass s) \<and> sess_state s' = Authenticated
    \<and> sess_transport s' = sess_transport s"
proof -
  obtain res s1 where s1: "with_raw (\<lambda>r. send_command_streaming (alive e r) ''AUTHENTICATE PLAIN'' is_continuation r) s
    = (res, s1)" by fastforce
  obtain res2 s2 where s2: "with_raw (\<lambda>r. send_secret (alive e r) (sasl_plain_line user pass) r) s1 = (res2, s2)"
    by fastforce
  from assms with_raw_markers [OF s1] with_raw_markers [OF s2] show ?thesis
    by (auto simp: authenticate_plain_def s1 s2 split: sum.splits if_splits dest!: finish_authentication_ok)
qed

lemma select_ok:
  "fst (select e mb s) = Inr s' \<Longrightarrow>
   sess_raw s' = snd (select e mb s) \<and> sess_state s' = Selected \<and> sess_transport s' = sess_transport s"
  "fst (examine e mb s) = Inr s' \<Longrightarrow>
   sess_raw s' = snd (examine e mb s) \<and> sess_state s' = Selected \<and> sess_transport s' = sess_transport s"
  by (auto simp: select_def examine_def transition_state_def split: sum.splits prod.splits dest!: with_raw_markers)

lemma close_ok:
  "fst (close_mailbox e s) = Inr s' \<Longrightarrow>
   sess_raw s' = snd (close_mailbox e s) \<and> sess_state s' = Authenticated \<and> sess_transport s' = sess_transport s"
  "fst (session_unselect e s) = Inr s' \<Longrightarrow>
   sess_raw s' = snd (session_unselect e s) \<and> sess_state s' = Authenticated \<and> sess_transport s' = sess_transport s"
  by (auto simp: close_mailbox_def session_unselect_def transition_state_def split: sum.splits prod.splits if_splits
      dest!: with_raw_markers)

lemma method_markers:
  "sess_transport (snd (refresh_capabilities e s)) = sess_transport s"
  "sess_transport (snd (noop e s)) = sess_transport s"
  "sess_transport (snd (session_list e rf mm s)) = sess_transport s"
  "sess_transport (snd (fetch_raw e st items s)) = sess_transport s"
  "sess_transport (snd (fetch e st items s)) = sess_transport s"
  "sess_transport (snd (fetch_body e st s)) = sess_transport s"
  "sess_transport (snd (search e q s)) = sess_transport s"
  "sess_transport (snd (uid_search e q s)) = sess_transport s"
  "sess_transport (snd (store e st act flags s)) = sess_transport s"
  "sess_transport (snd (uid_store e st act flags s)) = sess_transport s"
  "sess_transport (snd (expunge e s)) = sess_transport s"
  "sess_transport (snd (check e s)) = sess_transport s"
  "sess_transport (snd (session_idle e s)) = sess_transport s"
  "sess_transport (snd (move_messages e st mb s)) = sess_transport s"
  by (auto simp: refresh_capabilities_def noop_def session_list_def fetch_raw_def fetch_def fetch_body_def
      search_def uid_search_def run_search_def store_def uid_store_def expunge_def check_def session_idle_def
      move_messages_def Let_def split: sum.splits prod.splits dest!: with_raw_markers)

lemma session_step_transport: "session_step s s' \<Longrightarrow> sess_transport s' = sess_transport s"
  by (induction rule: session_step.induct)
    (simp_all add: method_markers login_ok authenticate_ok select_ok close_ok)

lemma session_step_lines: "session_step s s' \<Longrightarrow> lines_only (sess_raw s) \<Longrightarrow> lines_only (sess_raw s')"
proof (induction rule: session_step.induct)
  case (call_refresh s e)
  then show ?case by (cases "refresh_capabilities e s") (auto dest: lines_refresh)
qed (simp_all add: lines_methods lines_fetch lines_streams lines_stop lines_state_change lines_login
      lines_authenticate login_ok authenticate_ok select_ok close_ok)

text \<open>What holds of a new session and is kept by every call holds of every session made from it.\<close>

locale session_invariant =
  fixes start :: session and inv :: "session \<Rightarrow> bool"
  assumes init: "inv start"
    and step: "session_step s s' \<Longrightarrow> inv s \<Longrightarrow> inv s'"
begin

lemma always: "session_step\<^sup>*\<^sup>* start s \<Longrightarrow> inv s"
  by (induction rule: rtranclp_induct) (auto intro: init step)

end

interpretation lines: session_invariant "new_in_state st t raw_client_new caps" "\<lambda>s. lines_only (sess_raw s)" for st t caps
proof
  show "lines_only (sess_raw (new_in_state st t raw_client_new caps))"
    by (simp add: lines_only_def new_in_state_def raw_client_new_def)
qed (rule session_step_lines)

lemma logout_raw: "snd (logout e s) = snd (execute_command e ''LOGOUT'' (sess_raw s))"
  by (auto simp: logout_def split: prod.splits sum.splits)

lemma session_end_lines: "session_end s r \<Longrightarrow> lines_only (sess_raw s) \<Longrightarrow> lines_only r"
  by (induction rule: session_end.induct)
    (simp_all add: logout_raw lines_only_execute lines_state_change lines_login lines_authenticate lines_stop)

end
