(* ===== verification/Session_Wire.thy ===== *)
theory Session_Wire
  imports Session_Props
begin

text \<open>
  The commands of a session on the wire: what is sent for which arguments, what a server reads back, what is refused
  before anything is sent, and that no credential leaves on a cleartext transport.
\<close>

subsection \<open>Clean commands\<close>

definition clean :: "bytes \<Rightarrow> bool" where
  "clean s \<longleftrightarrow> CR \<notin> set s \<and> LF \<notin> set s \<and> NUL \<notin> set s"

lemma clean_simps [simp]:
  "clean []" "clean (a @ b) \<longleftrightarrow> clean a \<and> clean b"
  "clean (c # s) \<longleftrightarrow> c \<noteq> CR \<and> c \<noteq> LF \<and> c \<noteq> NUL \<and> clean s"
  by (auto simp: clean_def)

lemma execute_clean:
  "alive e r \<Longrightarrow> clean cmd \<Longrightarrow> execute_command e cmd r =
    (await_reply (env_reply e (fresh r) (default_timeout r)), sent cmd r)"
  by (simp add: clean_def execute_command_accepted)

lemma clean_quoted: "imap_quoted s = Inr q \<Longrightarrow> clean q"
  using imap_quoted_clean by (simp add: clean_def)

lemma printable_clean: "list_all is_printable_ascii s \<Longrightarrow> clean s"
  by (induction s) (auto simp: is_printable_ascii_def)

lemma clean_sequence_set: "sequence_set s = Inr r \<Longrightarrow> clean r"
proof -
  assume "sequence_set s = Inr r"
  then have "r \<in> sequence_set_lang" by (simp add: sequence_set_iff)
  then have "\<forall>c \<in> set r. is_ascii_digit c \<or> c = CHR ''*'' \<or> c = CHR '':'' \<or> c = CHR '',''"
    using sequence_set_chars by blast
  then show "clean r" by (auto simp: clean_def is_ascii_digit_def)
qed

lemma clean_fetch_items: "fetch_items s = Inr r \<Longrightarrow> clean r"
  by (rule printable_clean) (auto simp: fetch_items_def Let_def list_all_iff split: if_splits)

lemma fetch_command_ok:
  "fetch_command st items = Inr cmd \<Longrightarrow> clean cmd \<and> cmd = ''FETCH '' @ st @ [SP] @ items \<and> st \<in> sequence_set_lang"
  using clean_sequence_set [of st st] clean_fetch_items [of items items]
  by (auto simp: fetch_command_def sequence_set_iff fetch_items_def Let_def split: sum.splits if_splits)

lemma fetch_command_items:
  "fetch_command st items = Inr cmd \<Longrightarrow>
   items \<noteq> [] \<and> list_all (\<lambda>b. is_printable_ascii b \<and> b \<noteq> LBRACE) items \<and> balanced (chars items)"
  by (auto simp: fetch_command_def fetch_items_def Let_def has_balanced_brackets_iff split: sum.splits if_splits)

lemma fetch_command_error:
  "fetch_command st items = Inl err \<Longrightarrow>
   (if st \<notin> sequence_set_lang then err = InvalidArgument ''sequence set''
    else err = InvalidArgument ''fetch items''
      \<and> (items = [] \<or> \<not> list_all (\<lambda>b. is_printable_ascii b \<and> b \<noteq> LBRACE) items \<or> \<not> balanced (chars items)))"
  using sequence_set_iff [of st]
  by (cases "sequence_set st")
    (auto simp: fetch_command_def sequence_set_def fetch_items_def Let_def has_balanced_brackets_iff
      split: if_splits)

lemma check_flags_error: "check_flags fs = Inl err \<Longrightarrow> err = InvalidArgument ''flag keyword''"
proof (induction fs)
  case (Cons f fs)
  then show ?case by (cases f) (auto split: if_splits)
qed simp

lemma sequence_set_error: "s \<notin> sequence_set_lang \<Longrightarrow> sequence_set s = Inl (InvalidArgument ''sequence set'')"
  using sequence_set_iff [of s s] by (auto simp: sequence_set_def split: if_splits)

lemma keyword_clean:
  assumes "is_flag_keyword k"
  shows "clean k"
proof -
  have atom: "list_all wire_is_atom_char s \<Longrightarrow> clean s" for s
    by (rule printable_clean) (simp add: list_all_iff wire_is_atom_char_def)
  consider "list_all wire_is_atom_char k" | s where "k = BACKSLASH # s" "list_all wire_is_atom_char s"
    using assms unfolding is_flag_keyword_def Let_def by (cases k) (auto simp only: list.case split: if_splits)
  then show ?thesis by cases (use atom in auto)
qed

lemma clean_flag: "wire_flag f = Inr u \<Longrightarrow> clean (flag_to_string f)"
  by (cases f) (auto split: if_splits intro: keyword_clean)

lemma check_flags_ok: "check_flags fs = Inr u \<longleftrightarrow> (\<forall>f \<in> set fs. wire_flag f = Inr ())"
  by (induction fs) (auto split: sum.splits)

lemma clean_join: "clean sep \<Longrightarrow> \<forall>x \<in> set xs. clean x \<Longrightarrow> clean (join sep xs)"
  using set_join [of sep xs] by (auto simp: clean_def)

lemma clean_flags: "check_flags fs = Inr u \<Longrightarrow> clean (join [SP] (map flag_to_string fs))"
  by (rule clean_join) (auto simp: check_flags_ok intro: clean_flag)

lemma clean_prefix: "clean (to_imap_prefix a b)"
  by (cases a) auto

text \<open>A command with line breaks in it leaves the queue as it was.\<close>

lemma execute_streaming_refused:
  assumes "\<not> clean cmd"
  shows "fst (execute_streaming e cmd w on_frame st r) = Inl (InvalidArgument ''command contains CR, LF or NUL'')"
    and "queued (snd (snd (execute_streaming e cmd w on_frame st r))) = queued r"
    and "tag_counter (snd (snd (execute_streaming e cmd w on_frame st r))) = tag_counter r"
proof -
  let ?r = "r\<lparr>fresh := Suc (fresh r)\<rparr>"
  have "enqueue_command (alive e r) cmd (Some (w, fresh r)) ?r =
      (Inl (InvalidArgument ''command contains CR, LF or NUL''), ?r)"
    using assms by (cases rule: enqueue_command_cases [of cmd "alive e r" "Some (w, fresh r)" ?r]) (auto simp: clean_def)
  then show "fst (execute_streaming e cmd w on_frame st r) = Inl (InvalidArgument ''command contains CR, LF or NUL'')"
    and "queued (snd (snd (execute_streaming e cmd w on_frame st r))) = queued r"
    and "tag_counter (snd (snd (execute_streaming e cmd w on_frame st r))) = tag_counter r"
    by (simp_all add: execute_streaming_def send_command_streaming_def new_chan_def)
qed

lemma set_quote: "utf8_valid s \<Longrightarrow> set s \<subseteq> set (quote s)"
proof -
  have "set t \<subseteq> set (escape t)" for t by (induction t) (auto simp: escape_byte_def)
  then show "utf8_valid s \<Longrightarrow> set s \<subseteq> set (quote s)" by (auto simp: quote_bytes)
qed

lemma set_join_sup: "x \<in> set xs \<Longrightarrow> set x \<subseteq> set (join sep xs)"
  by (induction sep xs rule: join.induct) auto

lemma key_text_in:
  "s \<in> key_texts k \<Longrightarrow> utf8_valid s \<Longrightarrow> set s \<subseteq> set (to_imap_string k)"
proof (induction k rule: to_imap_string.induct)
  case (18 keys)
  then obtain k where k: "k \<in> set keys" "s \<in> key_texts k" by auto
  with 18 have "set s \<subseteq> set (to_imap_string k)" by blast
  also have "\<dots> \<subseteq> set (join '' '' (map to_imap_string keys))" using k(1) by (intro set_join_sup) simp
  finally show ?case by simp
qed (use set_quote in auto)

subsection \<open>Reading a quoted string back\<close>

text \<open>How a server reads a quoted string: the content and what follows the closing quote.\<close>

fun quoted_body :: "bytes \<Rightarrow> (bytes \<times> bytes) option" where
  "quoted_body [] = None"
| "quoted_body (c # cs) =
     (if c = DQUOTE then Some ([], cs)
      else if c = BACKSLASH then
        (case cs of
           d # ds \<Rightarrow> if d = DQUOTE \<or> d = BACKSLASH then map_option (apfst (Cons d)) (quoted_body ds) else None
         | [] \<Rightarrow> None)
      else map_option (apfst (Cons c)) (quoted_body cs))"

fun read_quoted :: "bytes \<Rightarrow> (bytes \<times> bytes) option" where
  "read_quoted (c # cs) = (if c = DQUOTE then quoted_body cs else None)"
| "read_quoted [] = None"

lemma quoted_body_escape: "quoted_body (escape s @ DQUOTE # r) = Some (s, r)"
  by (induction s) (auto simp: escape_byte_def)

lemma read_imap_quoted: "imap_quoted s = Inr q \<Longrightarrow> read_quoted (q @ r) = Some (s, r)"
  by (auto simp: imap_quoted_iff quoted_body_escape)

subsection \<open>Cleartext\<close>

lemma execute_queue:
  "queued (snd (execute_command e cmd r)) = queued r
   \<or> (\<exists>tag tx. queued (snd (execute_command e cmd r)) = queued r @ [CommandReq (command_line tag cmd) tag tx None])"
  by (cases rule: enqueue_command_cases [of cmd "alive e r" None r])
    (auto simp: execute_command_def execute_command_with_timeout_def send_command_async_def)

lemma streaming_queue:
  "queued (snd (snd (execute_streaming e cmd w on_frame st r))) = queued r
   \<or> (\<exists>tag tx col. queued (snd (snd (execute_streaming e cmd w on_frame st r))) =
        queued r @ [CommandReq (command_line tag cmd) tag tx col])"
  by (cases rule: enqueue_command_cases [of cmd "alive e r" "Some (w, fresh r)" "r\<lparr>fresh := Suc (fresh r)\<rparr>"])
    (auto simp: execute_streaming_def send_command_streaming_def new_chan_def split: prod.splits)

definition harmless :: "write_request \<Rightarrow> bool" where
  "harmless req \<longleftrightarrow> (\<exists>tag. req_bytes req = command_line tag ''CAPABILITY'' \<or> req_bytes req = command_line tag ''NOOP'')"

lemma harmless_intros:
  "harmless (CommandReq (command_line tag ''CAPABILITY'') t tx col)"
  "harmless (CommandReq (command_line tag ''NOOP'') t tx col)"
  unfolding harmless_def by auto

definition cleartext_idle :: "session \<Rightarrow> bool" where
  "cleartext_idle s \<longleftrightarrow>
     sess_state s = Unauthenticated \<and> sess_transport s = PlainText \<and> (\<forall>req \<in> set (queued (sess_raw s)). harmless req)"

lemma cleartext_step: "session_step s s' \<Longrightarrow> cleartext_idle s \<Longrightarrow> cleartext_idle s'"
proof (induction rule: session_step.induct)
  case (call_refresh s e)
  let ?run = "execute_streaming e ''CAPABILITY'' is_capability_response caps_on_frame (sess_caps s) (sess_raw s)"
  have "\<forall>req \<in> set (queued (snd (snd ?run))). harmless req"
    using call_refresh streaming_queue [of e "''CAPABILITY''" is_capability_response caps_on_frame "sess_caps s" "sess_raw s"]
    by (auto simp: cleartext_idle_def harmless_intros)
  with call_refresh show ?case by (auto simp: cleartext_idle_def refresh_capabilities_def split: prod.splits)
next
  case (call_noop s e)
  have "\<forall>req \<in> set (queued (snd (execute_command e ''NOOP'' (sess_raw s)))). harmless req"
    using call_noop execute_queue [of e "''NOOP''" "sess_raw s"] by (auto simp: cleartext_idle_def harmless_intros)
  with call_noop show ?case
    by (auto simp: cleartext_idle_def noop_def with_raw_def split: prod.splits)
qed (simp_all add: cleartext_idle_def)

interpretation cleartext: session_invariant "session_new raw_client_new caps" cleartext_idle for caps
proof
  show "cleartext_idle (session_new raw_client_new caps)"
    by (simp add: cleartext_idle_def session_new_def new_in_state_def raw_client_new_def)
qed (rule cleartext_step)

lemma cleartext_end:
  assumes "session_end s r" "cleartext_idle s" "req \<in> set (queued r)"
  shows "harmless req \<or> (\<exists>tag. req_bytes req = command_line tag ''LOGOUT'')"
  using assms
proof (induction rule: session_end.induct)
  case (end_logout s e)
  have "req \<in> set (queued (sess_raw s)) \<or> (\<exists>tag tx. req = CommandReq (command_line tag ''LOGOUT'') tag tx None)"
    using end_logout(2) execute_queue [of e "''LOGOUT''" "sess_raw s"] by (auto simp: logout_raw)
  then show ?case
  proof (elim disjE exE)
    fix tag tx assume "req = CommandReq (command_line tag ''LOGOUT'') tag tx None"
    then have "req_bytes req = command_line tag ''LOGOUT''" by simp
    then show ?thesis by blast
  qed (use end_logout(1) in \<open>simp add: cleartext_idle_def\<close>)
qed (simp_all add: cleartext_idle_def)

end
