(* ===== verification/Tls_Adapter.thy ===== *)
theory Tls_Adapter
  imports Session Framing
begin

text \<open>
  The TLS adapter, \<^verbatim>\<open>imap-tls/src/lib.rs\<close>: connecting, the cleartext exchange before a STARTTLS upgrade, and
  the first steps inside the encrypted channel.

  The socket, TCP, TLS and the clock are not part of the repository.  A socket is a script: what each
  read and each write will do; a peer whose script has run out stays silent, so that the
  deadline passes.  The deadline of a read or a write is an event of the script as well: a timeout may come at any
  of them, whatever the clock says.  Looking up a server name, connecting and the TLS handshake are parameters.
\<close>

definition DEFAULT_CONNECT_TIMEOUT :: seconds where
  "DEFAULT_CONNECT_TIMEOUT = 30"

definition DEFAULT_HANDSHAKE_TIMEOUT :: seconds where
  "DEFAULT_HANDSHAKE_TIMEOUT = 30"

definition DEFAULT_PRE_TLS_TIMEOUT :: seconds where
  "DEFAULT_PRE_TLS_TIMEOUT = 30"

definition MAX_PRE_TLS_FRAME :: usize where
  "MAX_PRE_TLS_FRAME = 64 * 1024"

subsection \<open>Sockets\<close>

text \<open>
  \<open>ReadData bs\<close>: the bytes are available to be read (none: the end of the stream).  A read with less room leaves the rest for
  the next one.  A write that fails may have written a part, of the length given.
\<close>

datatype read_event = ReadData bytes | ReadFails string | ReadTimesOut

datatype write_event = WriteDone | WriteFails nat string | WriteTimesOut nat

record socket =
  sk_reads :: "read_event list"
  sk_writes :: "write_event list"
  sk_out :: bytes

fun event_bytes :: "read_event \<Rightarrow> bytes" where
  "event_bytes (ReadData bs) = bs"
| "event_bytes _ = []"

definition unread :: "socket \<Rightarrow> bytes" where
  "unread sk = concat (map event_bytes (sk_reads sk))"

definition read_work :: "socket \<Rightarrow> nat" where
  "read_work sk = length (unread sk) + length (sk_reads sk)"

fun read_buf :: "usize \<Rightarrow> socket \<Rightarrow> bytes result \<times> socket" where
  "read_buf room sk =
     (case sk_reads sk of
        [] \<Rightarrow> (Inl Timeout, sk)
      | ReadTimesOut # evs \<Rightarrow> (Inl Timeout, sk\<lparr>sk_reads := evs\<rparr>)
      | ReadFails m # evs \<Rightarrow> (Inl (Io m), sk\<lparr>sk_reads := evs\<rparr>)
      | ReadData bs # evs \<Rightarrow>
          (Inr (take room bs),
           sk\<lparr>sk_reads := (if length bs \<le> room then evs else ReadData (drop room bs) # evs)\<rparr>))"

declare read_buf.simps [simp del]

definition write_all_with_timeout :: "bytes \<Rightarrow> socket \<Rightarrow> unit result \<times> socket" where
  "write_all_with_timeout bs sk =
     (case sk_writes sk of
        [] \<Rightarrow> (Inr (), sk\<lparr>sk_out := sk_out sk @ bs\<rparr>)
      | WriteDone # evs \<Rightarrow> (Inr (), sk\<lparr>sk_out := sk_out sk @ bs, sk_writes := evs\<rparr>)
      | WriteFails n m # evs \<Rightarrow> (Inl (Io m), sk\<lparr>sk_out := sk_out sk @ take n bs, sk_writes := evs\<rparr>)
      | WriteTimesOut n # evs \<Rightarrow> (Inl Timeout, sk\<lparr>sk_out := sk_out sk @ take n bs, sk_writes := evs\<rparr>))"

subsection \<open>Reading one frame\<close>

lemma read_buf_work:
  assumes "read_buf room sk = (Inr bs, sk')" "0 < room" "bs \<noteq> []"
  shows "read_work sk' < read_work sk"
  using assms
  by (auto simp: read_buf.simps read_work_def unread_def split: list.splits read_event.splits if_splits)

text \<open>An empty buffer is not parsed: it needs bytes, like an unfinished frame.\<close>

function read_one_frame :: "socket \<Rightarrow> bytes \<Rightarrow> bytes result \<times> socket \<times> bytes" where
  "read_one_frame sk buf =
     (case (if buf = [] then Inl Incomplete else parse_response buf) of
        Inr (rem, _) \<Rightarrow>
          let consumed = length buf - length rem
          in (Inr (take consumed buf), sk, drop consumed buf)
      | Inl Incomplete \<Rightarrow>
          let room = MAX_PRE_TLS_FRAME - length buf in
          if room = 0 then (Inl (FrameTooLarge MAX_PRE_TLS_FRAME), sk, buf)
          else
            (case read_buf room sk of
               (Inl e, sk') \<Rightarrow> (Inl e, sk', buf)
             | (Inr bs, sk') \<Rightarrow>
                 if bs = [] then (Inl ConnectionClosed, sk', buf)
                 else read_one_frame sk' (buf @ bs))
      | Inl _ \<Rightarrow> (Inl (CommandFailed ''malformed pre-TLS response''), sk, buf))"
  by pat_completeness auto
termination
  by (relation "measure (\<lambda>(sk, buf). read_work sk)") (auto dest!: read_buf_work [OF sym])

declare read_one_frame.simps [simp del]

text \<open>Every frame read takes bytes off what is buffered or unread, so the loops below end.\<close>

definition backlog :: "socket \<Rightarrow> bytes \<Rightarrow> nat" where
  "backlog sk buf = length buf + length (unread sk)"

lemma read_buf_unread:
  "read_buf room sk = (Inr bs, sk') \<Longrightarrow> unread sk = bs @ unread sk' \<and> sk_out sk' = sk_out sk \<and> length bs \<le> room"
  by (auto simp: read_buf.simps unread_def split: list.splits read_event.splits if_splits)

lemma read_buf_error: "read_buf room sk = (Inl e, sk') \<Longrightarrow> unread sk' = unread sk \<and> sk_out sk' = sk_out sk"
  by (auto simp: read_buf.simps unread_def split: list.splits read_event.splits if_splits)

text \<open>The cases of \<^verbatim>\<open>read_one_frame\<close>, with the reads that fill the buffer as the recursion.\<close>

lemma read_one_frame_cases:
  obtains (frame) f rem r where "parse_response buf = Inr (rem, r)" "buf = f @ rem" "f \<noteq> []"
      "read_one_frame sk buf = (Inr f, sk, rem)"
    | (malformed) e where "parse_response buf = Inl e" "hard e"
      "read_one_frame sk buf = (Inl (CommandFailed ''malformed pre-TLS response''), sk, buf)"
    | (full) "parse_response buf = Inl Incomplete" "MAX_PRE_TLS_FRAME \<le> length buf"
      "read_one_frame sk buf = (Inl (FrameTooLarge MAX_PRE_TLS_FRAME), sk, buf)"
    | (failed) e sk' where "parse_response buf = Inl Incomplete" "unread sk' = unread sk" "sk_out sk' = sk_out sk"
      "read_one_frame sk buf = (Inl e, sk', buf)"
    | (more) bs sk' where "parse_response buf = Inl Incomplete" "bs \<noteq> []" "read_work sk' < read_work sk"
      "unread sk = bs @ unread sk'" "sk_out sk' = sk_out sk" "length (buf @ bs) \<le> MAX_PRE_TLS_FRAME"
      "read_one_frame sk buf = read_one_frame sk' (buf @ bs)"
proof (cases "parse_response buf")
  case (Inr p)
  then obtain rem r where p: "parse_response buf = Inr (rem, r)" by (cases p) auto
  from imap.progress [OF p] obtain f where f: "f \<noteq> []" "buf = f @ rem" by blast
  with p have "read_one_frame sk buf = (Inr f, sk, rem)"
    by (subst read_one_frame.simps) (simp add: Let_def)
  with f p frame show thesis by blast
next
  case (Inl e)
  show thesis
  proof (cases "hard e")
    case True
    then have "buf \<noteq> []" using Inl parse_response_Nil by (auto simp: hard_def)
    with True Inl have "read_one_frame sk buf = (Inl (CommandFailed ''malformed pre-TLS response''), sk, buf)"
      by (subst read_one_frame.simps) (cases e; simp add: Let_def hard_def)
    with malformed Inl True show thesis by blast
  next
    case False
    with Inl have inc: "parse_response buf = Inl Incomplete" by (simp add: hard_def)
    let ?room = "MAX_PRE_TLS_FRAME - length buf"
    have "(if buf = [] then Inl Incomplete else parse_response buf) = Inl Incomplete" using inc by simp
    then have unfold: "read_one_frame sk buf =
        (if ?room = 0 then (Inl (FrameTooLarge MAX_PRE_TLS_FRAME), sk, buf)
         else case read_buf ?room sk of
             (Inl e, sk') \<Rightarrow> (Inl e, sk', buf)
           | (Inr bs, sk') \<Rightarrow>
               if bs = [] then (Inl ConnectionClosed, sk', buf) else read_one_frame sk' (buf @ bs))"
      by (subst read_one_frame.simps) (simp only: sum.case parse_error.case Let_def)
    obtain res sk' where rd: "read_buf ?room sk = (res, sk')" by fastforce
    show thesis
    proof (cases "?room = 0")
      case True
      with inc full unfold show thesis by (simp add: Let_def)
    next
      case False
      show thesis
      proof (cases res)
        case (Inl e1)
        with rd inc False failed [of sk' e1] unfold read_buf_error [of ?room sk e1 sk'] show thesis
          by (simp add: Let_def)
      next
        case (Inr bs)
        note io = read_buf_unread [of ?room sk bs sk']
        show thesis
        proof (cases "bs = []")
          case True
          with rd Inr inc False failed [of sk' ConnectionClosed] unfold io show thesis by (simp add: Let_def)
        next
          case nonempty: False
          have "read_work sk' < read_work sk" using rd Inr False nonempty by (intro read_buf_work) auto
          moreover have "read_one_frame sk buf = read_one_frame sk' (buf @ bs)"
            using rd Inr inc False nonempty by (subst unfold) (simp add: Let_def)
          moreover have "length (buf @ bs) \<le> MAX_PRE_TLS_FRAME" using io rd Inr False by auto
          ultimately show thesis using more [of bs sk'] nonempty inc io rd Inr by blast
        qed
      qed
    qed
  qed
qed

lemma read_one_frame_effect:
  "read_one_frame sk buf = (res, sk', buf') \<Longrightarrow>
   sk_out sk' = sk_out sk
   \<and> (length buf \<le> MAX_PRE_TLS_FRAME \<longrightarrow> length buf' \<le> MAX_PRE_TLS_FRAME)
   \<and> (case res of
        Inr f \<Rightarrow> f \<noteq> [] \<and> buf @ unread sk = f @ buf' @ unread sk'
      | Inl _ \<Rightarrow> buf @ unread sk = buf' @ unread sk')"
proof (induction "read_work sk" arbitrary: sk buf rule: less_induct)
  case less
  show ?case
  proof (cases rule: read_one_frame_cases [of buf sk])
    case (more bs sk1)
    from less.hyps [OF more(3)] less.prems more(7)
    have "sk_out sk' = sk_out sk1"
      "length (buf @ bs) \<le> MAX_PRE_TLS_FRAME \<longrightarrow> length buf' \<le> MAX_PRE_TLS_FRAME"
      "case res of Inr f \<Rightarrow> f \<noteq> [] \<and> (buf @ bs) @ unread sk1 = f @ buf' @ unread sk'
        | Inl _ \<Rightarrow> (buf @ bs) @ unread sk1 = buf' @ unread sk'" by auto
    with more show ?thesis by (simp split: sum.splits)
  qed (use less.prems in auto)
qed

lemma read_one_frame_backlog:
  assumes "read_one_frame sk buf = (Inr f, sk', buf')"
  shows "backlog sk' buf' < backlog sk buf"
proof -
  have "f \<noteq> []" "buf @ unread sk = f @ buf' @ unread sk'"
    using read_one_frame_effect [OF assms] by simp_all
  then have "length (buf @ unread sk) = length f + backlog sk' buf'" "0 < length f"
    by (simp_all add: backlog_def)
  then show ?thesis by (simp add: backlog_def)
qed

subsection \<open>The exchange before the upgrade\<close>

definition T_CAPABILITY :: bytes where
  "T_CAPABILITY = ''T0001 CAPABILITY'' @ CRLF"

definition T_STARTTLS :: bytes where
  "T_STARTTLS = ''T0002 STARTTLS'' @ CRLF"

text \<open>The first loop: frames until the tagged reply to CAPABILITY, gathering capabilities.\<close>

function pre_tls_capability_loop :: "capabilities \<Rightarrow> socket \<Rightarrow> bytes \<Rightarrow> capabilities result \<times> socket \<times> bytes" where
  "pre_tls_capability_loop caps sk buf =
     (case read_one_frame sk buf of
        (Inl e, sk', buf') \<Rightarrow> (Inl e, sk', buf')
      | (Inr frame, sk', buf') \<Rightarrow>
          (case parse_response frame of
             Inl _ \<Rightarrow> pre_tls_capability_loop caps sk' buf'
           | Inr (_, response) \<Rightarrow>
               (case response of
                  StatusResp s \<Rightarrow>
                    if sr_tag s = Some ''T0001'' then
                      (if sr_status s \<noteq> Ok
                       then (Inl (command_failed (''CAPABILITY failed: '' @ sr_text s)), sk', buf')
                       else (Inr caps, sk', buf'))
                    else pre_tls_capability_loop (snd (try_update_from response caps)) sk' buf'
                | _ \<Rightarrow> pre_tls_capability_loop (snd (try_update_from response caps)) sk' buf')))"
  by pat_completeness auto
termination
  by (relation "measure (\<lambda>(caps, sk, buf). backlog sk buf)") (auto dest!: read_one_frame_backlog [OF sym])

text \<open>The second loop: frames until the tagged reply to STARTTLS, after which nothing may be buffered.\<close>

function starttls_loop :: "socket \<Rightarrow> bytes \<Rightarrow> unit result \<times> socket \<times> bytes" where
  "starttls_loop sk buf =
     (case read_one_frame sk buf of
        (Inl e, sk', buf') \<Rightarrow> (Inl e, sk', buf')
      | (Inr frame, sk', buf') \<Rightarrow>
          (case parse_response frame of
             Inr (_, StatusResp s) \<Rightarrow>
               if sr_tag s = Some ''T0002'' then
                 (if sr_status s \<noteq> Ok
                  then (Inl (command_failed (''STARTTLS rejected: '' @ sr_text s)), sk', buf')
                  else if buf' \<noteq> []
                  then (Inl (CommandFailed ''server sent cleartext data after STARTTLS OK''), sk', buf')
                  else (Inr (), sk', buf'))
               else starttls_loop sk' buf'
           | _ \<Rightarrow> starttls_loop sk' buf'))"
  by pat_completeness auto
termination
  by (relation "measure (\<lambda>(sk, buf). backlog sk buf)") (auto dest!: read_one_frame_backlog [OF sym])

declare pre_tls_capability_loop.simps [simp del] starttls_loop.simps [simp del]

definition starttls_steps :: "socket \<Rightarrow> unit result \<times> socket \<times> bytes" where
  "starttls_steps sk =
     (case read_one_frame sk [] of
        (Inl e, sk, buf) \<Rightarrow> (Inl e, sk, buf)
      | (Inr greeting, sk, buf) \<Rightarrow>
          (case write_all_with_timeout T_CAPABILITY sk of
             (Inl e, sk) \<Rightarrow> (Inl e, sk, buf)
           | (Inr _, sk) \<Rightarrow>
               (case pre_tls_capability_loop capabilities_default sk buf of
                  (Inl e, sk, buf) \<Rightarrow> (Inl e, sk, buf)
                | (Inr caps, sk, buf) \<Rightarrow>
                    if \<not> starttls caps
                    then (Inl (CommandFailed ''server does not advertise STARTTLS''), sk, buf)
                    else
                      (case write_all_with_timeout T_STARTTLS sk of
                         (Inl e, sk) \<Rightarrow> (Inl e, sk, buf)
                       | (Inr _, sk) \<Rightarrow> starttls_loop sk buf))))"

text \<open>The deadline of the whole exchange; \<open>in_time\<close> says whether it is met.\<close>

definition drive_starttls_exchange :: "bool \<Rightarrow> socket \<Rightarrow> socket result" where
  "drive_starttls_exchange in_time sk =
     (if in_time then (case starttls_steps sk of (res, sk', buf) \<Rightarrow> map_sum id (\<lambda>_. sk') res) else Inl Timeout)"

subsection \<open>Inside the encrypted channel\<close>

text \<open>
  \<open>greeting\<close> is the first broadcast frame within 250 milliseconds, if any.
\<close>

definition finalize_session_after_handshake :: "env \<Rightarrow> bytes option \<Rightarrow> session result" where
  "finalize_session_after_handshake e greeting =
     (let r = raw_client_new;
          (got_greeting_caps, caps) =
            (case greeting of
               None \<Rightarrow> (False, capabilities_default)
             | Some frame \<Rightarrow>
                 (case parse_response frame of
                    Inr (_, response) \<Rightarrow> try_update_from response capabilities_default
                  | Inl _ \<Rightarrow> (False, capabilities_default)))
      in if got_greeting_caps then Inr (session_new_tls r caps)
         else
           (case execute_streaming e ''CAPABILITY'' is_capability_response caps_on_frame caps r of
              (Inl err, caps, r) \<Rightarrow> Inl err
            | (Inr cap_resp, caps, r) \<Rightarrow> Inr (session_new_tls r (caps_on_frame cap_resp caps))))"

text \<open>
  What lies outside the repository: server names, TCP, the TLS configuration and handshake, and what an
  encrypted stream brings.  The handshake takes the socket it is given and makes an encrypted stream of it or fails;
  what is read from that stream, the greeting and the frames of the later exchanges, may depend on anything of it.
\<close>

record ('c, 't) world =
  w_server_name :: "str \<Rightarrow> bool"
  w_tcp :: "str \<Rightarrow> seconds \<Rightarrow> socket result"
  w_connector :: "string + 'c"
  w_handshake :: "'c \<Rightarrow> str \<Rightarrow> socket \<Rightarrow> seconds \<Rightarrow> 't result"
  w_greeting :: "'t \<Rightarrow> bytes option"
  w_env :: "'t \<Rightarrow> env"
  w_in_time :: "seconds \<Rightarrow> bool"

definition handshake_with_connector :: "('c, 't) world \<Rightarrow> 'c \<Rightarrow> str \<Rightarrow> socket \<Rightarrow> seconds \<Rightarrow> session result" where
  "handshake_with_connector w connector domain stream handshake_timeout =
     (if \<not> w_server_name w domain then Inl (CommandFailed ''Invalid domain for TLS'')
      else
        (case w_handshake w connector domain stream handshake_timeout of
           Inl err \<Rightarrow> Inl err
         | Inr tls_stream \<Rightarrow> finalize_session_after_handshake (w_env w tls_stream) (w_greeting w tls_stream)))"

definition starttls_with_connector ::
  "('c, 't) world \<Rightarrow> 'c \<Rightarrow> str \<Rightarrow> socket \<Rightarrow> seconds \<Rightarrow> seconds \<Rightarrow> session result" where
  "starttls_with_connector w connector domain stream handshake_timeout pre_tls_timeout =
     (case drive_starttls_exchange (w_in_time w pre_tls_timeout) stream of
        Inl err \<Rightarrow> Inl err
      | Inr stream \<Rightarrow> handshake_with_connector w connector domain stream handshake_timeout)"

definition connect_tcp :: "('c, 't) world \<Rightarrow> str \<Rightarrow> nat \<Rightarrow> seconds \<Rightarrow> socket result" where
  "connect_tcp w domain port timeout = w_tcp w (domain @ '':'' @ dec port) timeout"

definition default_tls_connector :: "('c, 't) world \<Rightarrow> 'c result" where
  "default_tls_connector w = map_sum (\<lambda>e. CommandFailed (''TLS config failed: '' @ e)) id (w_connector w)"

definition connect_tls_with_timeouts :: "('c, 't) world \<Rightarrow> str \<Rightarrow> nat \<Rightarrow> seconds \<Rightarrow> seconds \<Rightarrow> session result" where
  "connect_tls_with_timeouts w domain port connect_timeout handshake_timeout =
     (case connect_tcp w domain port connect_timeout of
        Inl err \<Rightarrow> Inl err
      | Inr tcp \<Rightarrow>
          (case default_tls_connector w of
             Inl err \<Rightarrow> Inl err
           | Inr connector \<Rightarrow> handshake_with_connector w connector domain tcp handshake_timeout))"

definition connect_tls :: "('c, 't) world \<Rightarrow> str \<Rightarrow> nat \<Rightarrow> session result" where
  "connect_tls w domain port =
     connect_tls_with_timeouts w domain port DEFAULT_CONNECT_TIMEOUT DEFAULT_HANDSHAKE_TIMEOUT"

definition connect_starttls_with_timeouts ::
  "('c, 't) world \<Rightarrow> str \<Rightarrow> nat \<Rightarrow> seconds \<Rightarrow> seconds \<Rightarrow> seconds \<Rightarrow> session result" where
  "connect_starttls_with_timeouts w domain port connect_timeout handshake_timeout pre_tls_timeout =
     (case connect_tcp w domain port connect_timeout of
        Inl err \<Rightarrow> Inl err
      | Inr tcp \<Rightarrow>
          (case default_tls_connector w of
             Inl err \<Rightarrow> Inl err
           | Inr connector \<Rightarrow>
               starttls_with_connector w connector domain tcp handshake_timeout pre_tls_timeout))"

definition connect_starttls :: "('c, 't) world \<Rightarrow> str \<Rightarrow> nat \<Rightarrow> session result" where
  "connect_starttls w domain port =
     connect_starttls_with_timeouts w domain port
       DEFAULT_CONNECT_TIMEOUT DEFAULT_HANDSHAKE_TIMEOUT DEFAULT_PRE_TLS_TIMEOUT"

subsection \<open>What the exchange leaves behind\<close>

text \<open>Both loops read and never write; what they read are whole frames, and what they keep is bounded.\<close>

definition reads_frames :: "socket \<Rightarrow> bytes \<Rightarrow> socket \<Rightarrow> bytes \<Rightarrow> bool" where
  "reads_frames sk buf sk' buf' \<longleftrightarrow>
     sk_out sk' = sk_out sk
     \<and> (length buf \<le> MAX_PRE_TLS_FRAME \<longrightarrow> length buf' \<le> MAX_PRE_TLS_FRAME)
     \<and> (\<exists>fs. buf @ unread sk = concat fs @ buf' @ unread sk')"

lemma reads_frames_trans:
  assumes "reads_frames sk buf sk1 buf1" "reads_frames sk1 buf1 sk2 buf2"
  shows "reads_frames sk buf sk2 buf2"
proof -
  from assms obtain fs gs where "buf @ unread sk = concat fs @ buf1 @ unread sk1"
    "buf1 @ unread sk1 = concat gs @ buf2 @ unread sk2" by (auto simp: reads_frames_def)
  then have "buf @ unread sk = concat (fs @ gs) @ buf2 @ unread sk2" by simp
  with assms show ?thesis unfolding reads_frames_def by metis
qed

lemma read_one_frame_reads:
  assumes "read_one_frame sk buf = (res, sk', buf')"
  shows "reads_frames sk buf sk' buf'"
proof (cases res)
  case (Inl e)
  with read_one_frame_effect [OF assms] show ?thesis
    unfolding reads_frames_def by (auto intro: exI [of _ "[]"])
next
  case (Inr f)
  with read_one_frame_effect [OF assms] show ?thesis
    unfolding reads_frames_def by (auto intro: exI [of _ "[f]"])
qed

end
