(* ===== verification/Tls_Props.thy ===== *)
theory Tls_Props
  imports Tls_Adapter Session_Props
begin

text \<open>
  The STARTTLS exchange: what is sent and read in cleartext, what it is bounded by, and that nothing read there
  is trusted later.
\<close>

definition tagged_ok :: "str \<Rightarrow> bytes \<Rightarrow> bool" where
  "tagged_ok tag frame =
     (case parse_response frame of
        Inr (_, StatusResp s) \<Rightarrow> sr_tag s = Some tag \<and> sr_status s = Ok
      | _ \<Rightarrow> False)"

lemma caps_on_frame_Inl: "parse_response f = Inl e \<Longrightarrow> caps_on_frame f caps = caps"
  by (simp add: caps_on_frame_def)

lemma caps_on_frame_Inr: "parse_response f = Inr (rem, r) \<Longrightarrow> caps_on_frame f caps = snd (try_update_from r caps)"
  by (simp add: caps_on_frame_def)

text \<open>One turn of the first loop: it ends, or goes on with the frame's capabilities.\<close>

lemma pre_tls_capability_loop_cases:
  obtains (stop) e sk' buf' where "pre_tls_capability_loop caps sk buf = (Inl e, sk', buf')" "reads_frames sk buf sk' buf'"
    | (ended) f sk' buf' where "read_one_frame sk buf = (Inr f, sk', buf')" "tagged_ok ''T0001'' f"
      "pre_tls_capability_loop caps sk buf = (Inr caps, sk', buf')"
    | (next_turn) f sk' buf' where "read_one_frame sk buf = (Inr f, sk', buf')"
      "pre_tls_capability_loop caps sk buf = pre_tls_capability_loop (caps_on_frame f caps) sk' buf'"
proof -
  obtain res sk' buf' where rd: "read_one_frame sk buf = (res, sk', buf')" by (metis prod_cases3)
  note reads = read_one_frame_reads [OF rd]
  note unfold = pre_tls_capability_loop.simps [of caps sk buf]
  show thesis
  proof (cases res)
    case (Inl e)
    with rd unfold reads stop show thesis by simp
  next
    case (Inr f)
    show thesis
    proof (cases "parse_response f")
      case (Inl e)
      with rd Inr unfold next_turn show thesis by (simp add: caps_on_frame_Inl)
    next
      case (Inr p)
      then obtain rem r where p: "parse_response f = Inr (rem, r)" by (cases p) auto
      show thesis
      proof (cases "\<exists>s. r = StatusResp s \<and> sr_tag s = Some ''T0001''")
        case True
        then obtain s where s: "r = StatusResp s" "sr_tag s = Some ''T0001''" by blast
        show thesis
        proof (cases "sr_status s = Ok")
          case True
          with s p rd \<open>res = Inr f\<close> have "pre_tls_capability_loop caps sk buf = (Inr caps, sk', buf')"
            by (subst unfold) simp
          with ended rd \<open>res = Inr f\<close> p s True show thesis by (auto simp: tagged_ok_def)
        next
          case False
          with s p rd \<open>res = Inr f\<close> have
            "pre_tls_capability_loop caps sk buf = (Inl (command_failed (''CAPABILITY failed: '' @ sr_text s)), sk', buf')"
            by (subst unfold) simp
          with stop reads show thesis by blast
        qed
      next
        case False
        with p rd \<open>res = Inr f\<close> have
          "pre_tls_capability_loop caps sk buf = pre_tls_capability_loop (snd (try_update_from r caps)) sk' buf'"
          by (subst unfold) (cases r; auto)
        with next_turn rd \<open>res = Inr f\<close> caps_on_frame_Inr [OF p] show thesis by simp
      qed
    qed
  qed
qed

lemma pre_tls_capability_loop_reads:
  "pre_tls_capability_loop caps sk buf = (res, sk', buf') \<Longrightarrow> reads_frames sk buf sk' buf'"
proof (induction "backlog sk buf" arbitrary: caps sk buf rule: less_induct)
  case less
  show ?case
  proof (cases rule: pre_tls_capability_loop_cases [of caps sk buf])
    case (stop e sk1 buf1)
    with less.prems show ?thesis by simp
  next
    case (ended f sk1 buf1)
    with less.prems read_one_frame_reads [OF ended(1)] show ?thesis by simp
  next
    case (next_turn f sk1 buf1)
    with less read_one_frame_backlog [OF next_turn(1)] have "reads_frames sk1 buf1 sk' buf'" by metis
    with read_one_frame_reads [OF next_turn(1)] show ?thesis by (rule reads_frames_trans)
  qed
qed

text \<open>When the first loop succeeds: the frames read, and the capabilities they give.\<close>

lemma pre_tls_capability_loop_ok:
  "pre_tls_capability_loop caps sk buf = (Inr caps', sk', buf') \<Longrightarrow>
   \<exists>fs f. buf @ unread sk = concat fs @ f @ buf' @ unread sk' \<and> tagged_ok ''T0001'' f
     \<and> caps' = fold caps_on_frame fs caps"
proof (induction "backlog sk buf" arbitrary: caps sk buf rule: less_induct)
  case less
  show ?case
  proof (cases rule: pre_tls_capability_loop_cases [of caps sk buf])
    case (stop e sk1 buf1)
    with less.prems show ?thesis by simp
  next
    case (ended f sk1 buf1)
    with less.prems read_one_frame_effect [OF ended(1)] show ?thesis
      by (auto intro!: exI [of _ "[]"] exI [of _ f])
  next
    case (next_turn f sk1 buf1)
    with less read_one_frame_backlog [OF next_turn(1)] obtain fs g where
      "buf1 @ unread sk1 = concat fs @ g @ buf' @ unread sk'" "tagged_ok ''T0001'' g"
      "caps' = fold caps_on_frame fs (caps_on_frame f caps)" by metis
    with read_one_frame_effect [OF next_turn(1)] show ?thesis
      by (auto intro!: exI [of _ "f # fs"] exI [of _ g])
  qed
qed

lemma starttls_loop_cases:
  obtains (stop) e sk' buf' where "starttls_loop sk buf = (Inl e, sk', buf')" "reads_frames sk buf sk' buf'"
    | (ended) f sk' where "read_one_frame sk buf = (Inr f, sk', [])" "tagged_ok ''T0002'' f"
      "starttls_loop sk buf = (Inr (), sk', [])"
    | (next_turn) f sk' buf' where "read_one_frame sk buf = (Inr f, sk', buf')"
      "starttls_loop sk buf = starttls_loop sk' buf'"
proof -
  obtain res sk' buf' where rd: "read_one_frame sk buf = (res, sk', buf')" by (metis prod_cases3)
  note reads = read_one_frame_reads [OF rd]
  note unfold = starttls_loop.simps [of sk buf]
  show thesis
  proof (cases res)
    case (Inl e)
    with rd unfold reads stop show thesis by simp
  next
    case (Inr f)
    show thesis
    proof (cases "\<exists>rem s. parse_response f = Inr (rem, StatusResp s) \<and> sr_tag s = Some ''T0002''")
      case True
      then obtain rem s where p: "parse_response f = Inr (rem, StatusResp s)" "sr_tag s = Some ''T0002''" by blast
      consider "sr_status s \<noteq> Ok" | "sr_status s = Ok" "buf' \<noteq> []" | "sr_status s = Ok" "buf' = []" by blast
      then show thesis
      proof cases
        case 3
        with p rd Inr unfold ended show thesis by (simp add: tagged_ok_def)
      qed (use p rd Inr unfold reads stop in simp_all)
    next
      case False
      then have "starttls_loop sk buf = starttls_loop sk' buf'"
        using rd Inr by (subst unfold) (auto split: sum.splits response.splits prod.splits)
      with rd Inr next_turn show thesis by simp
    qed
  qed
qed

lemma starttls_loop_reads:
  "starttls_loop sk buf = (res, sk', buf') \<Longrightarrow> reads_frames sk buf sk' buf' \<and> (res = Inr () \<longrightarrow> buf' = [])"
proof (induction "backlog sk buf" arbitrary: sk buf rule: less_induct)
  case less
  show ?case
  proof (cases rule: starttls_loop_cases [of sk buf])
    case (stop e sk1 buf1)
    with less.prems show ?thesis by auto
  next
    case (ended f sk1)
    with less.prems read_one_frame_reads [OF ended(1)] show ?thesis by auto
  next
    case (next_turn f sk1 buf1)
    with less read_one_frame_backlog [OF next_turn(1)]
    have "reads_frames sk1 buf1 sk' buf' \<and> (res = Inr () \<longrightarrow> buf' = [])" by metis
    with read_one_frame_reads [OF next_turn(1)] show ?thesis by (blast intro: reads_frames_trans)
  qed
qed

lemma write_all_cases:
  obtains (ok) "fst (write_all_with_timeout bs sk) = Inr ()" "sk_out (snd (write_all_with_timeout bs sk)) = sk_out sk @ bs"
      "unread (snd (write_all_with_timeout bs sk)) = unread sk"
    | (failed) e n where "fst (write_all_with_timeout bs sk) = Inl e"
      "sk_out (snd (write_all_with_timeout bs sk)) = sk_out sk @ take n bs"
      "unread (snd (write_all_with_timeout bs sk)) = unread sk"
  by (cases "sk_writes sk" rule: list.exhaust; cases "hd (sk_writes sk)")
    (auto simp: write_all_with_timeout_def unread_def)

subsection \<open>The whole exchange\<close>

text \<open>How far the exchange got: it failed before a write, in one, or in a loop; or it went through.\<close>

lemma starttls_steps_cases:
  assumes "starttls_steps sk = (res, sk', buf)"
  obtains (greeting) e where "res = Inl e" "reads_frames sk [] sk' buf"
    | (cap_write) e n sk1 where "res = Inl e" "reads_frames sk [] sk1 buf"
      "sk_out sk' = sk_out sk1 @ take n T_CAPABILITY"
    | (caps) e sk1 buf1 sk2 where "res = Inl e" "reads_frames sk [] sk1 buf1" "sk_out sk2 = sk_out sk1 @ T_CAPABILITY"
      "unread sk2 = unread sk1" "reads_frames sk2 buf1 sk' buf"
    | (tls_write) e n sk1 buf1 sk2 sk3 where "res = Inl e" "reads_frames sk [] sk1 buf1"
      "sk_out sk2 = sk_out sk1 @ T_CAPABILITY" "unread sk2 = unread sk1" "reads_frames sk2 buf1 sk3 buf"
      "sk_out sk' = sk_out sk3 @ take n T_STARTTLS"
    | (upgrade) f cs sk1 buf1 sk2 sk3 buf3 sk4 where
      "read_one_frame sk [] = (Inr f, sk1, buf1)" "sk_out sk2 = sk_out sk1 @ T_CAPABILITY" "unread sk2 = unread sk1"
      "pre_tls_capability_loop capabilities_default sk2 buf1 = (Inr cs, sk3, buf3)" "starttls cs"
      "sk_out sk4 = sk_out sk3 @ T_STARTTLS" "unread sk4 = unread sk3" "starttls_loop sk4 buf3 = (res, sk', buf)"
proof -
  obtain r1 sk1 buf1 where rd: "read_one_frame sk [] = (r1, sk1, buf1)" by (metis prod_cases3)
  note reads1 = read_one_frame_reads [OF rd]
  note unfold = assms [unfolded starttls_steps_def rd]
  show thesis
  proof (cases r1)
    case (Inl e)
    with unfold reads1 greeting [of e] show thesis by auto
  next
    case r1: (Inr f)
    let ?w1 = "write_all_with_timeout T_CAPABILITY sk1"
    show thesis
    proof (cases rule: write_all_cases [of T_CAPABILITY sk1])
      case (failed e n)
      with unfold r1 reads1 cap_write [of e sk1 n] show thesis by (cases ?w1) auto
    next
      case ok
      then obtain sk2 where w1: "?w1 = (Inr (), sk2)" by (cases ?w1) auto
      with ok have sk2: "sk_out sk2 = sk_out sk1 @ T_CAPABILITY" "unread sk2 = unread sk1" by simp_all
      obtain r2 sk3 buf3 where loop: "pre_tls_capability_loop capabilities_default sk2 buf1 = (r2, sk3, buf3)"
        by (metis prod_cases3)
      note reads2 = pre_tls_capability_loop_reads [OF loop]
      show thesis
      proof (cases r2)
        case (Inl e)
        with unfold r1 w1 loop reads1 sk2 reads2 caps [of e] show thesis by auto
      next
        case r2: (Inr cs)
        show thesis
        proof (cases "starttls cs")
          case False
          with unfold r1 w1 loop r2 reads1 sk2 reads2 caps [of "CommandFailed ''server does not advertise STARTTLS''"]
          show thesis by auto
        next
          case True
          let ?w2 = "write_all_with_timeout T_STARTTLS sk3"
          show thesis
          proof (cases rule: write_all_cases [of T_STARTTLS sk3])
            case (failed e n)
            with unfold r1 w1 loop r2 True reads1 sk2 reads2 tls_write [of e] show thesis by (cases ?w2) auto
          next
            case ok
            then obtain sk4 where w2: "?w2 = (Inr (), sk4)" by (cases ?w2) auto
            with ok unfold rd r1 w1 loop r2 True sk2 upgrade [of f sk1 buf1 sk2 cs sk3 buf3 sk4] show thesis by auto
          qed
        qed
      qed
    qed
  qed
qed

lemma reads_frames_out: "reads_frames sk buf sk' buf' \<Longrightarrow> sk_out sk' = sk_out sk"
  by (simp add: reads_frames_def)

lemma reads_frames_bound:
  "reads_frames sk buf sk' buf' \<Longrightarrow> length buf \<le> MAX_PRE_TLS_FRAME \<Longrightarrow> length buf' \<le> MAX_PRE_TLS_FRAME"
  by (simp add: reads_frames_def)

text \<open>Whatever happens, only a beginning of the two commands is sent, and the buffer stays within its ceiling.\<close>

lemma starttls_steps_out:
  assumes "starttls_steps sk = (res, sk', buf)"
  shows "(\<exists>k. sk_out sk' = sk_out sk @ take k (T_CAPABILITY @ T_STARTTLS)) \<and> length buf \<le> MAX_PRE_TLS_FRAME"
  using assms
proof (cases rule: starttls_steps_cases)
  case greeting
  then show ?thesis using reads_frames_out reads_frames_bound by (auto intro!: exI [of _ 0])
next
  case (cap_write e n sk1)
  have "take n T_CAPABILITY = take (min n (length T_CAPABILITY)) (T_CAPABILITY @ T_STARTTLS)" by (simp add: min_def)
  with cap_write show ?thesis using reads_frames_out reads_frames_bound by (metis le0 list.size(3))
next
  case (caps e sk1 buf1 sk2)
  have "T_CAPABILITY = take (length T_CAPABILITY) (T_CAPABILITY @ T_STARTTLS)" by simp
  with caps show ?thesis using reads_frames_out reads_frames_bound by (metis le0 list.size(3))
next
  case (tls_write e n sk1 buf1 sk2 sk3)
  then have "sk_out sk' = sk_out sk @ take (length T_CAPABILITY + n) (T_CAPABILITY @ T_STARTTLS)"
    "length buf \<le> MAX_PRE_TLS_FRAME" by (simp_all add: reads_frames_def)
  then show ?thesis by blast
next
  case (upgrade f cs sk1 buf1 sk2 sk3 buf3 sk4)
  note r1 = read_one_frame_reads [OF upgrade(1)] and r2 = pre_tls_capability_loop_reads [OF upgrade(4)]
  have r3: "reads_frames sk4 buf3 sk' buf" using starttls_loop_reads [OF upgrade(8)] by simp
  have "sk_out sk' = sk_out sk @ take (length (T_CAPABILITY @ T_STARTTLS)) (T_CAPABILITY @ T_STARTTLS)"
    using r1 r2 r3 upgrade by (simp add: reads_frames_def)
  moreover have "length buf \<le> MAX_PRE_TLS_FRAME"
    using r1 r2 r3 by (simp add: reads_frames_def)
  ultimately show ?thesis by blast
qed

lemma starttls_steps_ok:
  assumes "starttls_steps sk = (Inr (), sk', buf)"
  obtains g fs f hs where "buf = []" "sk_out sk' = sk_out sk @ T_CAPABILITY @ T_STARTTLS"
    "unread sk = g @ concat fs @ f @ concat hs @ unread sk'" "tagged_ok ''T0001'' f"
    "starttls (fold caps_on_frame fs capabilities_default)"
  using assms
proof (cases rule: starttls_steps_cases)
  case (upgrade g cs sk1 buf1 sk2 sk3 buf3 sk4)
  have r1: "sk_out sk1 = sk_out sk" "unread sk = g @ buf1 @ unread sk1"
    using read_one_frame_effect [OF upgrade(1)] by auto
  obtain fs f where r2: "buf1 @ unread sk2 = concat fs @ f @ buf3 @ unread sk3" "tagged_ok ''T0001'' f"
    "cs = fold caps_on_frame fs capabilities_default"
    using pre_tls_capability_loop_ok [OF upgrade(4)] by blast
  have r3: "sk_out sk3 = sk_out sk2" using pre_tls_capability_loop_reads [OF upgrade(4)] by (simp add: reads_frames_def)
  obtain hs where r4: "buf = []" "sk_out sk' = sk_out sk4" "buf3 @ unread sk4 = concat hs @ buf @ unread sk'"
    using starttls_loop_reads [OF upgrade(8)] by (auto simp: reads_frames_def)
  have "unread sk = g @ concat fs @ f @ concat hs @ unread sk'"
    using r1(2) r2(1) r4 upgrade(3,7) by simp
  with r1(1) r2 r3 r4 upgrade(2,5,6) show thesis by (intro that [of g fs f hs]) simp_all
qed simp_all

subsection \<open>Inside the channel\<close>

lemma finalize_markers:
  assumes "finalize_session_after_handshake e g = Inr s"
  shows "sess_state s = Unauthenticated" "sess_transport s = Tls" "lines_only (sess_raw s)"
proof -
  have new: "lines_only raw_client_new" by (simp add: lines_only_def raw_client_new_def)
  have marks: "sess_state (session_new_tls r cs) = Unauthenticated" "sess_transport (session_new_tls r cs) = Tls"
    "sess_raw (session_new_tls r cs) = r" for r cs
    by (simp_all add: session_new_tls_def new_in_state_def)
  show "sess_state s = Unauthenticated" "sess_transport s = Tls" "lines_only (sess_raw s)"
    using assms new marks lines_streaming [OF new]
    by (auto simp: finalize_session_after_handshake_def Let_def split: if_splits option.splits sum.splits prod.splits)
qed

lemma handshake_ok:
  assumes "handshake_with_connector w c d sk t = Inr s"
  obtains tls where "w_server_name w d" "w_handshake w c d sk t = Inr tls"
    "finalize_session_after_handshake (w_env w tls) (w_greeting w tls) = Inr s"
  using assms by (auto simp: handshake_with_connector_def split: if_splits sum.splits)

lemma starttls_ok:
  assumes "starttls_with_connector w c d sk t t1 = Inr s"
  obtains sk' tls where "drive_starttls_exchange (w_in_time w t1) sk = Inr sk'" "w_handshake w c d sk' t = Inr tls"
    "finalize_session_after_handshake (w_env w tls) (w_greeting w tls) = Inr s"
  using assms by (auto simp: starttls_with_connector_def elim: handshake_ok split: sum.splits)

subsection \<open>Where the encrypted stream begins\<close>

text \<open>
  A server that goes on after its cleartext part: the script of a socket is followed by more events.  As long as the exchange succeeds it
  neither sees what follows nor takes anything of it.
\<close>

definition followed_by :: "socket \<Rightarrow> read_event list \<Rightarrow> socket" where
  "followed_by sk evs = sk\<lparr>sk_reads := sk_reads sk @ evs\<rparr>"

lemma followed_by_simps [simp]:
  "sk_reads (followed_by sk evs) = sk_reads sk @ evs" "sk_writes (followed_by sk evs) = sk_writes sk"
  "sk_out (followed_by sk evs) = sk_out sk"
  by (simp_all add: followed_by_def)

lemma read_buf_followed:
  "read_buf room sk = (Inr bs, sk') \<Longrightarrow> read_buf room (followed_by sk evs) = (Inr bs, followed_by sk' evs)"
  by (auto simp: read_buf.simps followed_by_def split: list.splits read_event.splits if_splits)

lemma read_buf_writes: "read_buf room sk = (Inr bs, sk') \<Longrightarrow> sk_writes sk' = sk_writes sk"
  by (auto simp: read_buf.simps split: list.splits read_event.splits if_splits)

lemma read_one_frame_followed:
  "read_one_frame sk buf = (Inr f, sk', buf') \<Longrightarrow>
   read_one_frame (followed_by sk evs) buf = (Inr f, followed_by sk' evs, buf') \<and> sk_writes sk' = sk_writes sk"
proof (induction sk buf rule: read_one_frame.induct)
  case (1 sk buf)
  show ?case
  proof (cases "if buf = [] then Inl Incomplete else parse_response buf")
    case (Inr p)
    with 1(2) show ?thesis
      by (simp add: read_one_frame.simps [of sk buf] read_one_frame.simps [of "followed_by sk evs" buf] Let_def split: prod.splits if_splits)
  next
    case (Inl e)
    let ?room = "MAX_PRE_TLS_FRAME - length buf"
    obtain res sk1 where rd: "read_buf ?room sk = (res, sk1)" by fastforce
    from 1(2) Inl have e: "e = Incomplete" and room: "?room \<noteq> 0"
      by (simp_all add: read_one_frame.simps [of sk buf] Let_def split: parse_error.splits if_splits)
    with 1(2) Inl rd obtain bs where bs: "res = Inr bs" "bs \<noteq> []" "read_one_frame sk1 (buf @ bs) = (Inr f, sk', buf')"
      by (cases res) (auto simp: read_one_frame.simps [of sk buf] Let_def split: if_splits)
    have "read_one_frame (followed_by sk1 evs) (buf @ bs) = (Inr f, followed_by sk' evs, buf') \<and> sk_writes sk' = sk_writes sk1"
      by (rule 1(1) [OF Inl e refl room rd [symmetric] bs])
    with Inl e room read_buf_followed [OF rd [unfolded bs(1)], of evs] read_buf_writes [OF rd [unfolded bs(1)]] bs(2) show ?thesis
      by (simp add: read_one_frame.simps [of "followed_by sk evs" buf] Let_def)
  qed
qed

lemma pre_tls_capability_loop_followed:
  "pre_tls_capability_loop caps sk buf = (Inr cs, sk', buf') \<Longrightarrow>
   pre_tls_capability_loop caps (followed_by sk evs) buf = (Inr cs, followed_by sk' evs, buf') \<and> sk_writes sk' = sk_writes sk"
proof (induction "backlog sk buf" arbitrary: caps sk buf rule: less_induct)
  case less
  obtain res sk1 buf1 where rd: "read_one_frame sk buf = (res, sk1, buf1)" by (metis prod_cases3)
  with less.prems obtain f where f: "res = Inr f" by (cases res) (auto simp: pre_tls_capability_loop.simps [of caps sk buf])
  note same = read_one_frame_followed [OF rd [unfolded f], of evs]
  note again = less.hyps [OF read_one_frame_backlog [OF rd [unfolded f]]]
  note turns = pre_tls_capability_loop.simps [of caps sk buf] pre_tls_capability_loop.simps [of caps "followed_by sk evs" buf]
  from less.prems rd f same show ?case
    by (auto simp: turns dest!: again split: sum.splits prod.splits response.splits if_splits)
qed

lemma starttls_loop_followed:
  "starttls_loop sk buf = (Inr (), sk', buf') \<Longrightarrow>
   starttls_loop (followed_by sk evs) buf = (Inr (), followed_by sk' evs, buf') \<and> sk_writes sk' = sk_writes sk"
proof (induction "backlog sk buf" arbitrary: sk buf rule: less_induct)
  case less
  obtain res sk1 buf1 where rd: "read_one_frame sk buf = (res, sk1, buf1)" by (metis prod_cases3)
  with less.prems obtain f where f: "res = Inr f" by (cases res) (auto simp: starttls_loop.simps [of sk buf])
  note same = read_one_frame_followed [OF rd [unfolded f], of evs]
  note again = less.hyps [OF read_one_frame_backlog [OF rd [unfolded f]]]
  note turns = starttls_loop.simps [of sk buf] starttls_loop.simps [of "followed_by sk evs" buf]
  from less.prems rd f same show ?case
    by (auto simp: turns dest!: again split: sum.splits prod.splits response.splits if_splits)
qed

lemma write_all_followed:
  "write_all_with_timeout bs sk = (Inr x, sk') \<Longrightarrow>
   write_all_with_timeout bs (followed_by sk evs) = (Inr x, followed_by sk' evs) \<and> sk_writes sk' = tl (sk_writes sk)"
  by (auto simp: write_all_with_timeout_def followed_by_def split: list.splits write_event.splits)

lemma starttls_steps_followed:
  assumes "starttls_steps sk = (Inr (), sk', buf)"
  shows "starttls_steps (followed_by sk evs) = (Inr (), followed_by sk' evs, buf) \<and> sk_writes sk' = tl (tl (sk_writes sk))"
proof -
  from assms obtain g sk1 buf1 sk2 cs sk3 buf3 sk4 where
    steps: "read_one_frame sk [] = (Inr g, sk1, buf1)" "write_all_with_timeout T_CAPABILITY sk1 = (Inr (), sk2)"
      "pre_tls_capability_loop capabilities_default sk2 buf1 = (Inr cs, sk3, buf3)" "starttls cs"
      "write_all_with_timeout T_STARTTLS sk3 = (Inr (), sk4)" "starttls_loop sk4 buf3 = (Inr (), sk', buf)"
    by (auto simp: starttls_steps_def split: prod.splits sum.splits if_splits)
  show ?thesis
    using read_one_frame_followed [OF steps(1), of evs] write_all_followed [OF steps(2), of evs]
      pre_tls_capability_loop_followed [OF steps(3), of evs] steps(4) write_all_followed [OF steps(5), of evs]
      starttls_loop_followed [OF steps(6), of evs]
    by (simp add: starttls_steps_def)
qed

text \<open>
  The handshake runs on the socket from the first event after the exchange on, with the writes left over from the two of the exchange.
\<close>

definition tls_socket :: "socket \<Rightarrow> read_event list \<Rightarrow> socket" where
  "tls_socket sk evs = \<lparr>sk_reads = evs, sk_writes = tl (tl (sk_writes sk)), sk_out = sk_out sk @ T_CAPABILITY @ T_STARTTLS\<rparr>"

lemma starttls_handshake_socket:
  assumes "starttls_steps sk = (Inr (), sk', buf)" "sk_reads sk' = []"
  shows "starttls_with_connector w c d (followed_by sk evs) t pt =
    (if w_in_time w pt then handshake_with_connector w c d (tls_socket sk evs) t else Inl Timeout)"
proof -
  have "sk_out sk' = sk_out sk @ T_CAPABILITY @ T_STARTTLS" using assms(1) by (rule starttls_steps_ok)
  with assms(2) starttls_steps_followed [OF assms(1), of evs] have "followed_by sk' evs = tls_socket sk evs"
    by (simp add: followed_by_def tls_socket_def)
  with starttls_steps_followed [OF assms(1), of evs] show ?thesis
    by (simp add: starttls_with_connector_def drive_starttls_exchange_def)
qed

end
