(* ===== verification/Spec2Isabelle.thy ===== *)
theory Spec2Isabelle
  imports Ast_Debug Response_Print Dispatcher_Replies Dispatcher_Delivery Dispatcher_Progress Session_Wire Tls_Props
begin

text \<open>
  Verification of imap-rs, an asynchronous IMAP client library in Rust.

  \<^bold>\<open>The program.\<close>  Three crates, each using the one before it.
  \<^item> \<^verbatim>\<open>imap-core\<close> has no I/O: \<^verbatim>\<open>parser.rs\<close> turns the front of a byte buffer into one response of \<^verbatim>\<open>ast.rs\<close> and the rest of the buffer, or
    says that bytes are missing, or that the buffer is no response (\<^verbatim>\<open>error.rs\<close>).
  \<^item> \<^verbatim>\<open>imap-client\<close>: \<^verbatim>\<open>client.rs\<close> runs a connection with two tasks.  The read loop appends what the socket delivers to a buffer, cuts responses off
    its front with the parser and hands each to the command that waits for it, to the stream of a command that asked for such responses,
    or to a broadcast.  The write loop takes requests from a queue, registers the command of a request as pending and writes
    its bytes.  \<^verbatim>\<open>session.rs\<close> and \<^verbatim>\<open>idle.rs\<close> are the methods a user calls; type parameters say which of them exist in which protocol state and on which
    transport.  They build their command lines from arguments that \<^verbatim>\<open>wire.rs\<close>, \<^verbatim>\<open>credentials.rs\<close>, \<^verbatim>\<open>search.rs\<close>, \<^verbatim>\<open>flags.rs\<close> and \<^verbatim>\<open>base64.rs\<close> check and quote, look at
    \<^verbatim>\<open>capabilities.rs\<close> before they use an extension, and report errors of \<^verbatim>\<open>error.rs\<close>.
  \<^item> \<^verbatim>\<open>imap-tls\<close>: \<^verbatim>\<open>lib.rs\<close> connects, runs the cleartext exchange before a STARTTLS upgrade, does the TLS handshake and starts a session inside it.

  \<^bold>\<open>The theories.\<close>  Every definition that models code carries the name of the function or type it models, or that name with a suffix or prefix where
  HOL or another module has the name already.
  \<^item> \<^verbatim>\<open>Prelude\<close>, \<^verbatim>\<open>Rust_Std\<close>, \<^verbatim>\<open>Utf8\<close>, \<^verbatim>\<open>Utf8_Lossy\<close>: bytes, machine integers with their checked operations, and what the program uses of Rust's standard library.
  \<^item> \<^verbatim>\<open>Ast\<close>, \<^verbatim>\<open>Ast_Debug\<close>: the responses, the parse errors, and the \<^verbatim>\<open>Debug\<close> output that hides message content (\<open>debug_hides_content\<close>).
  \<^item> \<^verbatim>\<open>Parse_Monad\<close>, \<^verbatim>\<open>Parser\<close>: the cursor \<^verbatim>\<open>Parser<'a>\<close> as a record, a method as a function to an error or a result and the cursor after it, one definition per
    method and per loop.
  \<^item> \<^verbatim>\<open>Parser_Ext\<close>, \<^verbatim>\<open>Parser_Stable\<close>: what more input does to the parser; \<^verbatim>\<open>Parser_Local\<close>: what less input does, up to the frame it consumed; \<^verbatim>\<open>Parser_Props\<close>:
    consumed bytes end with a line end, and the item budget, from which the code exempts the numbers of a SEARCH response; \<^verbatim>\<open>Parser_Reads\<close>, \<^verbatim>\<open>Parser_Values\<close>, \<^verbatim>\<open>Parser_Print\<close>, \<^verbatim>\<open>Response_Print\<close>: a calculus of what
    the parser reads, and with it a printer that the parser inverts: tokens, lists and strings, the nested values of envelopes and body structures, the
    FETCH attributes, and whole responses.
  \<^item> \<^verbatim>\<open>Framing\<close>: the locale \<open>incremental_parser\<close>, the contract between a parser and a loop that reads a growing buffer, with the reference \<open>split_frames\<close> that cuts
    up all bytes at once; \<open>imap\<close> is its interpretation on the parser.
  \<^item> \<^verbatim>\<open>Client_Error\<close>, \<^verbatim>\<open>Flags\<close>, \<^verbatim>\<open>Wire\<close>, \<^verbatim>\<open>Base64\<close>, \<^verbatim>\<open>Search\<close>, \<^verbatim>\<open>Credentials\<close>, \<^verbatim>\<open>Capabilities\<close>: the modules of the same names, each with its grammar, decoder or table as a
    specification.
  \<^item> \<^verbatim>\<open>Raw_Client\<close>: tags, command lines, requests, and the operations that await a reply; \<^verbatim>\<open>Dispatcher\<close>: the pending table, routing, both loops and the streams as the record \<open>conn\<close>
    and the step relation \<open>conn_step\<close>; the locale \<open>conn_invariant\<close> says what a predicate needs to hold in every reachable state.  Its interpretations are the invariants:
    \<open>framing\<close> and \<open>replies\<close> in \<^verbatim>\<open>Dispatcher_Inv\<close>, \<open>ending\<close> in \<^verbatim>\<open>Dispatcher_Streams\<close>, \<open>bounds\<close> and \<open>wire_order\<close> in \<^verbatim>\<open>Dispatcher_Live\<close>, \<open>delivery\<close> in \<^verbatim>\<open>Dispatcher_Delivery\<close>.  \<^verbatim>\<open>Dispatcher_Progress\<close> is about infinite runs: a measure for the inner loop of the
    reader, what scheduling and serving of streams it needs, and the commands left without a reader.  The locale
    \<open>channel_tracking\<close> in \<^verbatim>\<open>Dispatcher_Frames\<close> is about what a channel belongs to from the moment it is drawn; its interpretations pair a stream with the filter of its command
    (\<open>filters\<close>), and in \<^verbatim>\<open>Dispatcher_Replies\<close> a reply channel with the tag of its command (\<open>owners\<close>) and with its stream (\<open>partners\<close>).
  \<^item> \<^verbatim>\<open>Session\<close>: every method of the session and of the IDLE handle; \<open>session_step\<close> is a call that leaves a session and \<open>session_end\<close> one that consumes it, each with the
    markers of the \<^verbatim>\<open>impl\<close> block as its premises.  \<^verbatim>\<open>Session_Props\<close>, \<^verbatim>\<open>Session_Wire\<close>: what is sent, and when nothing is.  The locale \<open>line_keeping\<close> is the contract of the client
    operations a session uses (interpreted on each of them), \<open>session_invariant\<close> that of the predicates every call keeps (\<open>lines\<close>, \<open>cleartext\<close>).
  \<^item> \<^verbatim>\<open>Tls_Adapter\<close>, \<^verbatim>\<open>Tls_Props\<close>: the functions of \<^verbatim>\<open>imap-tls\<close> and the safety of the upgrade.
  \<^item> This theory: the properties, those that span components included, each with a witness where it has hypotheses.

  \<^bold>\<open>What is shown.\<close>
  \<^item> Parsing.  An answer of the parser is never taken back when bytes follow (\<open>parse_response_stable\<close>, \<open>parse_response_final\<close>); the frame it consumed is, alone, the same response;
    a response is a whole line within the item budget.  The parser inverts the printer for every kind of response it knows (\<open>parse_inverts_print\<close>), and so
    FETCH returns what was sent (\<open>fetch_returns_what_was_sent\<close>) and the read loop cuts off what was printed (\<open>dispatcher_reads_printed\<close>).
  \<^item> The connection.  For every interleaving of the tasks and every chunking of the bytes: the frames are those of all bytes at once (\<open>dispatcher_refines_split\<close>), a command is answered
    at most once, only by frames with its own tag (\<open>reply_carries_own_tag\<close>), and after its stream has ended; when a stream has ended the outcome is there; no untagged frame is lost; a stream holds only what was asked for, in wire order, buffers are bounded, requests leave whole and in order, and the end of the read loop fails whatever is pending.
    In every fair run whose streams are read or dropped the inner loop of the reader ends (\<open>reader_settles\<close>); a stream nobody serves holds it up, as the code intends.  A command sent after the end of the
    read loop is never answered (\<open>orphaned_command\<close>).
  \<^item> The session.  No argument can put a line break into a command (\<open>sessions_send_lines\<close>); arguments outside their grammar are refused before anything is
    sent; no credential is sent in cleartext; what a server reads back is what was meant (LOGIN, SASL PLAIN, search criteria).
  \<^item> STARTTLS.  Nothing read in cleartext is left over (\<open>starttls_upgrade_is_clean\<close>), and what was said in cleartext makes no difference to the session that follows: TLS starts at the first byte after the exchange
    (\<open>cleartext_is_not_trusted\<close>).

  \<^bold>\<open>Choices and bounds.\<close>  There is no fuel: every loop is a total function with a termination proof, or a step of a relation.  A \<^verbatim>\<open>usize\<close> is a natural number
  and its checked additions fail at \<open>2 ^ 64\<close>; \<^verbatim>\<open>u32\<close> and the words of the encoder are 32-bit words; the tag counter is a 64-bit word that wraps around.  A Rust string is the
  list of its bytes.  Code between two \<^verbatim>\<open>await\<close> points is one step, and any task may run at each of them; only
  taking a request off the queue and registering its command, which waits for nothing but the lock of the table, are one step.  The pending table keeps insertion order, where the \<^verbatim>\<open>HashMap\<close> of
  the code has none: that the end of the loop fails its commands in this order (\<open>loop_end_fails_all\<close>) is a choice of the model, that each of them is failed is not.  A channel is a number drawn from a counter; a streaming command draws
  its stream and then its reply channel.  The fields \<open>received\<close>, \<open>cut\<close> and \<open>log\<close> of \<open>conn\<close> are histories for stating properties; no operation
  reads them.  What an \<^verbatim>\<open>await\<close> of the session yields is the parameter \<open>env\<close>, so that the properties hold for every server and every clock; a socket before TLS is the script of what its
  reads and writes do, a deadline that passes being one of the events; name lookup, TCP, rustls and \<^verbatim>\<open>zeroize\<close> are parameters (\<open>world\<close>, and the wiping function).  The handshake is a function of the socket to an encrypted stream of any type, and
  what is read from that stream is a function of it.

  \<^bold>\<open>Not modelled.\<close>  The capacity of the broadcast channel and its lagging receivers (a broadcast is an entry of the history), the scheduling of tokio and real time, the end of the write loop when every handle of it is dropped (its queue is empty then and nothing changes), the
  memory behind \<^verbatim>\<open>zeroize\<close>, the accessors that clone a channel handle
  (\<^verbatim>\<open>events\<close>, \<^verbatim>\<open>writer\<close>), logging, the derived \<^verbatim>\<open>Debug\<close> output, the module files that only re-export, and tests, benches, fuzz targets and examples.
\<close>

section \<open>The parser and the reader\<close>

text \<open>
  C12 A response the parser accepts does not depend on what follows it: with more bytes in the
  buffer the parser returns the same response, and the extra bytes are left in the remainder.
\<close>

theorem parse_response_stable:
  "parse_response inp = Inr (rest, r) \<Longrightarrow> parse_response (inp @ t) = Inr (rest @ t, r)"
  by (rule parse_response_extend)

theorem parse_response_stable_witness:
  "parse_response ((''* 5 EXISTS'' @ CRLF) @ ''A1 OK'') = Inr ([] @ ''A1 OK'', DataResp (ExistsData 5))"
  by (rule parse_response_stable) code_simp

text \<open>
  C13 An error other than \<open>Incomplete\<close> is final: no further bytes can turn a rejected buffer into
  an accepted one, or into one the parser would wait on.
\<close>

theorem parse_response_final:
  "parse_response inp = Inl e \<Longrightarrow> e \<noteq> Incomplete \<Longrightarrow>
   \<exists>e'. parse_response (inp @ t) = Inl e' \<and> e' \<noteq> Incomplete"
  using parse_response_reject [of inp e t] by (simp add: hard_def)

theorem parse_response_final_witness:
  "\<exists>e'. parse_response (''* 5 EXISTS x'' @ CRLF) = Inl e' \<and> e' \<noteq> Incomplete"
proof -
  have "parse_response ''* 5 EXISTS x'' = Inl (Malformed ''expected CR'')"
    "Malformed ''expected CR'' \<noteq> Incomplete" by code_simp+
  from parse_response_final [OF this] show ?thesis .
qed

text \<open>
  C24 What the parser accepts is a frame: the bytes consumed are the front of the input and end
  with CRLF, so that the remainder starts at the beginning of a line.
\<close>

theorem parse_response_frames:
  assumes "parse_response inp = Inr (rest, r)"
  shows "\<exists>body. inp = body @ CRLF @ rest"
  using assms by (rule parse_response_frame) blast

theorem parse_response_frames_witness:
  "\<exists>body. ''A1 OK done'' @ CRLF @ ''rest'' = body @ CRLF @ ''rest''"
proof -
  have "parse_response (''A1 OK done'' @ CRLF @ ''rest'') =
      Inr (''rest'', StatusResp \<lparr>sr_tag = Some ''A1'', sr_status = Ok, sr_code = None, sr_text = ''done''\<rparr>)"
    by code_simp
  from parse_response_frames [OF this] show ?thesis .
qed

text \<open>
  C14 The parser inverts the grammar: a response printed as a server prints it, with the data any bytes at all and the strings any
  text at all, parses to exactly that response whatever follows in the buffer.  This covers every kind of response the parser knows:
  tagged and untagged status with every response code, continuation, and all data responses but the lines it does not know, with every
  FETCH attribute, envelopes and body structures of any nested lists of words and strings included.
\<close>

theorem parse_inverts_print:
  assumes "printable_response r" "length (print_response r @ rest) < 2 ^ 64"
  shows "parse_response (print_response r @ rest) = Inr (rest, r)"
  using assms by (intro parse_print_response) (simp_all add: printable_response_def)

text \<open>A mailbox whose name needs a literal, in a response with system flags.\<close>

definition sample_list :: response where
  "sample_list = DataResp (ListData [BACKSLASH # ''Noselect''] (Some ''/'') (''a'' @ CRLF @ ''b''))"

lemma sample_list_printable: "printable_response sample_list"
proof -
  have "is_flag (BACKSLASH # ''Noselect'')" by (auto simp: is_flag_def is_atom_def is_atom_char_def is_ascii_def)
  then show ?thesis
    by (simp add: sample_list_def printable_response_def plain_response_def is_string_def is_ascii_def MAX_LITERAL_SIZE_def
      MAX_ITEMS_PER_RESPONSE_def)
qed

theorem parse_inverts_print_witness:
  "print_response sample_list = ''* LIST ('' @ [BACKSLASH] @ ''Noselect) '' @ [DQUOTE] @ ''/'' @ [DQUOTE] @ '' {4}'' @ CRLF @ ''a'' @ CRLF @ ''b'' @ CRLF
   \<and> parse_response (print_response sample_list @ ''* OK'') = Inr (''* OK'', sample_list)"
proof
  show "print_response sample_list =
      ''* LIST ('' @ [BACKSLASH] @ ''Noselect) '' @ [DQUOTE] @ ''/'' @ [DQUOTE] @ '' {4}'' @ CRLF @ ''a'' @ CRLF @ ''b'' @ CRLF"
    by code_simp
  have "length (print_response sample_list @ ''* OK'') < 2 ^ 64" by code_simp
  with sample_list_printable show "parse_response (print_response sample_list @ ''* OK'') = Inr (''* OK'', sample_list)"
    by (rule parse_inverts_print)
qed

text \<open>
  C23 What a response costs is bounded, whatever the server sends: the list items of an accepted response (flags, capabilities and character sets,
  FETCH attributes, STATUS items), counted across all its lists, are at most \<open>MAX_ITEMS_PER_RESPONSE\<close>.  The numbers of a SEARCH response are not counted in that budget;
  there are at most half as many of them as bytes were consumed.
\<close>

theorem parse_response_budget:
  assumes "parse_response inp = Inr (rest, r)"
  shows "response_items r \<le> MAX_ITEMS_PER_RESPONSE
    \<and> (case r of DataResp (SearchData ids) \<Rightarrow> 2 * length ids \<le> length inp - length rest | _ \<Rightarrow> True)"
proof -
  have "2 * length ids \<le> length inp - length rest" if "r = DataResp (SearchData ids)" for ids
    using parse_response_search [of inp rest ids] assms that by simp
  with parse_response_items [OF assms] show ?thesis by (auto split: response.splits data_response.splits)
qed

theorem parse_response_budget_witness:
  "response_items (DataResp (FetchData 1 [FlagsAtt [''a'', ''b''], UidAtt 7])) = 4
   \<and> response_items (DataResp (FetchData 1 [FlagsAtt [''a'', ''b''], UidAtt 7])) \<le> MAX_ITEMS_PER_RESPONSE
   \<and> 2 * length [2 :: u32, 84] \<le> length (''* SEARCH 2 84'' @ CRLF)"
proof (intro conjI)
  show "response_items (DataResp (FetchData 1 [FlagsAtt [''a'', ''b''], UidAtt 7])) = 4" by code_simp
  have "parse_response (''* 1 FETCH (FLAGS (a b) UID 7)'' @ CRLF) = Inr ([], DataResp (FetchData 1 [FlagsAtt [''a'', ''b''], UidAtt 7]))"
    by code_simp
  from parse_response_budget [OF this]
  show "response_items (DataResp (FetchData 1 [FlagsAtt [''a'', ''b''], UidAtt 7])) \<le> MAX_ITEMS_PER_RESPONSE" by blast
  have "parse_response (''* SEARCH 2 84'' @ CRLF) = Inr ([], DataResp (SearchData [2, 84]))" by code_simp
  from parse_response_budget [OF this] show "2 * length [2 :: u32, 84] \<le> length (''* SEARCH 2 84'' @ CRLF)" by simp
qed

text \<open>
  Reading in chunks: cutting responses off a buffer as chunks arrive gives the same responses, cut at the same
  places, as cutting up all the bytes at once, with the same rest; and when a chunk is rejected the responses before it
  are the same.
\<close>

theorem reading_in_chunks:
  "case fold (feed parse_response) chunks ([], [], None) of
     (fs, left, None) \<Rightarrow> split_frames parse_response (concat chunks) = (fs, left, None)
   | (fs, left, Some e) \<Rightarrow> \<exists>left' e'. split_frames parse_response (concat chunks) = (fs, left', Some e')"
  by (rule imap.feed_chunks)

section \<open>The dispatcher\<close>

text \<open>
  A connection that has sent one streaming command and received its data and its reply.
\<close>

definition sample_submitted :: conn where
  "sample_submitted = submit ''FETCH 1 UID'' (Some is_fetch) conn_new"

definition sample_start :: conn where
  "sample_start =
     read_chunk (''* 1 FETCH (UID 7)'' @ CRLF @ ''A0001 OK done'' @ CRLF @ ''* 5 EXISTS'' @ CRLF)
       (the (write_finish 100 (the (write_take sample_submitted))))"

definition sample_frame :: "conn \<Rightarrow> conn" where
  "sample_frame c = the (dispatch_turn (drain_turn 1000 c))"

definition sample_conn :: conn where
  "sample_conn = drain_turn 1000 (sample_frame (sample_frame (sample_frame sample_start)))"

lemma the_steps:
  "\<not> Option.is_none (dispatch_turn c) \<Longrightarrow> conn_step mx c (the (dispatch_turn c))"
  "\<not> Option.is_none (write_take c) \<Longrightarrow> conn_step mx c (the (write_take c))"
  "\<not> Option.is_none (write_finish n c) \<Longrightarrow> conn_step mx c (the (write_finish n c))"
  by (auto simp: Option.is_none_def intro: step_dispatch step_take step_write)

lemma sample_submitted_reachable: "reachable mx sample_submitted"
  unfolding sample_submitted_def by (rule r_into_rtranclp, rule step_submit) code_simp

lemma sample_start_steps: "(conn_step mx)\<^sup>*\<^sup>* sample_submitted sample_start"
proof -
  let ?b = "the (write_take sample_submitted)"
  have "conn_step mx sample_submitted ?b" by (rule the_steps) code_simp
  then have "(conn_step mx)\<^sup>*\<^sup>* sample_submitted ?b" by (rule r_into_rtranclp)
  moreover have "conn_step mx ?b (the (write_finish 100 ?b))" by (rule the_steps) code_simp
  ultimately have "(conn_step mx)\<^sup>*\<^sup>* sample_submitted (the (write_finish 100 ?b))"
    by (rule rtranclp.rtrancl_into_rtrancl)
  moreover have "conn_step mx (the (write_finish 100 ?b)) sample_start"
    unfolding sample_start_def by (rule step_read) code_simp+
  ultimately show ?thesis by (rule rtranclp.rtrancl_into_rtrancl)
qed

lemma sample_frame_steps:
  "reader c = Draining \<Longrightarrow> \<not> Option.is_none (dispatch_turn (drain_turn 1000 c)) \<Longrightarrow>
   (conn_step 1000)\<^sup>*\<^sup>* a c \<Longrightarrow> (conn_step 1000)\<^sup>*\<^sup>* a (sample_frame c)"
  unfolding sample_frame_def using the_steps(1) step_drain by (meson rtranclp.simps)

lemma sample_conn_steps: "(conn_step 1000)\<^sup>*\<^sup>* sample_submitted sample_conn"
proof -
  let ?b = "sample_frame sample_start" and ?c = "sample_frame (sample_frame sample_start)"
  have "(conn_step 1000)\<^sup>*\<^sup>* sample_submitted ?b" by (rule sample_frame_steps [OF _ _ sample_start_steps]) code_simp+
  then have "(conn_step 1000)\<^sup>*\<^sup>* sample_submitted ?c" by (rule sample_frame_steps [rotated 2]) code_simp+
  then have "(conn_step 1000)\<^sup>*\<^sup>* sample_submitted (sample_frame ?c)" by (rule sample_frame_steps [rotated 2]) code_simp+
  moreover have "conn_step 1000 (sample_frame ?c) sample_conn"
    unfolding sample_conn_def by (rule step_drain) code_simp
  ultimately show ?thesis by (rule rtranclp.rtrancl_into_rtrancl)
qed

lemmas sample_start_reachable = rtranclp_trans [OF sample_submitted_reachable sample_start_steps]
lemmas sample_conn_reachable = rtranclp_trans [OF sample_submitted_reachable sample_conn_steps]

text \<open>
  C1 Refinement: whenever the read loop waits for bytes, in whatever order the tasks ran and the bytes arrived, the frames it has cut off are
  exactly the responses of everything received, and its buffer is the rest.
\<close>

theorem dispatcher_refines_split:
  assumes "reachable mx c" "reader c = AwaitingRead"
  shows "\<exists>fs. split_frames parse_response (received c) = (fs, buffer c, None) \<and> map fst fs = cut c"
proof -
  obtain fs where "map fst fs = cut c" "split_frames parse_response (received c) =
      (case split_frames parse_response (buffer c) of (gs, left, err) \<Rightarrow> (fs @ gs, left, err))"
    using assms(1) by (rule split_all)
  moreover have "split_frames parse_response (buffer c) = ([], buffer c, None)"
    using framing.always [OF assms(1)] assms(2) by (simp add: framed_def imap.split_stop hard_def)
  ultimately show ?thesis by auto
qed

theorem dispatcher_refines_split_witness:
  "\<exists>fs. split_frames parse_response (received sample_conn) = (fs, buffer sample_conn, None)
     \<and> map fst fs = cut sample_conn"
  by (rule dispatcher_refines_split [OF sample_conn_reachable]) code_simp

text \<open>
  C2 What a server prints is what is dispatched: when the bytes received are printed responses, whatever the chunks they arrived in and
  whatever the callers did meanwhile, the read loop has cut off exactly these responses, one by one, has dropped nothing and has nothing left over.
\<close>

theorem dispatcher_reads_printed:
  assumes "reachable mx c" "reader c = AwaitingRead" "received c = concat (map print_response rs)"
    and "list_all printable_response rs" "length (received c) < 2 ^ 64"
  shows "cut c = map print_response rs \<and> buffer c = [] \<and> map parse_response (cut c) = map (\<lambda>r. Inr ([], r)) rs"
proof -
  obtain fs where fs: "map fst fs = cut c" "split_frames parse_response (received c) =
      (case split_frames parse_response (buffer c) of (gs, left, err) \<Rightarrow> (fs @ gs, left, err))"
    using assms(1) by (rule split_all)
  have "split_frames parse_response (buffer c) = ([], buffer c, None)"
    using framing.always [OF assms(1)] assms(2) by (simp add: framed_def imap.split_stop hard_def)
  with fs(2) split_printed [OF assms(4)] assms(3,5) have eq: "fs = map (\<lambda>r. (print_response r, r)) rs" "buffer c = []" by auto
  have "parse_response (print_response r) = Inr ([], r)" if "r \<in> set rs" for r
  proof -
    have "length (print_response r) \<le> length (received c)"
      using that unfolding assms(3) by (induction rs) auto
    then show ?thesis
      using parse_print_response [of r "[]"] that assms(4,5) by (auto simp: printable_response_def list_all_iff)
  qed
  with eq fs(1) [symmetric] show ?thesis by (simp add: comp_def)
qed

theorem dispatcher_reads_printed_witness:
  "cut sample_conn = map print_response [DataResp (FetchData 1 [UidAtt 7]),
     StatusResp \<lparr>sr_tag = Some ''A0001'', sr_status = Ok, sr_code = None, sr_text = ''done''\<rparr>, DataResp (ExistsData 5)]
   \<and> buffer sample_conn = []"
proof -
  let ?rs = "[DataResp (FetchData 1 [UidAtt 7]),
     StatusResp \<lparr>sr_tag = Some ''A0001'', sr_status = Ok, sr_code = None, sr_text = ''done''\<rparr>, DataResp (ExistsData 5)]"
  have "reader sample_conn = AwaitingRead" "received sample_conn = concat (map print_response ?rs)" "length (received sample_conn) < 2 ^ 64"
    by code_simp+
  moreover have "list_all printable_response ?rs"
    by (simp add: printable_response_def plain_response_def plain_resp_text_def is_tag_def is_text_def is_ascii_def MAX_ITEMS_PER_RESPONSE_def
      opt_items_def)
  ultimately show ?thesis using dispatcher_reads_printed [OF sample_conn_reachable] by blast
qed

text \<open>
  In every state, the frames cut off and the buffer are the bytes received, and the frames are the first of the responses those
  bytes hold: the loop never skips, splits or reorders one.
\<close>

theorem dispatcher_frames_prefix:
  assumes "reachable mx c"
  shows "received c = concat (cut c) @ buffer c
    \<and> (\<exists>gs. map fst (fst (split_frames parse_response (received c))) = cut c @ gs)"
proof -
  obtain fs where "map fst fs = cut c" "received c = concat (cut c) @ buffer c"
    "split_frames parse_response (received c) =
      (case split_frames parse_response (buffer c) of (gs, left, err) \<Rightarrow> (fs @ gs, left, err))"
    using assms by (rule split_all)
  then show ?thesis by (auto split: prod.splits)
qed

theorem dispatcher_frames_prefix_witness:
  "received sample_start = concat (cut sample_start) @ buffer sample_start
    \<and> (\<exists>gs. map fst (fst (split_frames parse_response (received sample_start))) = cut sample_start @ gs)"
  by (rule dispatcher_frames_prefix [OF sample_start_reachable])

text \<open>
  C3 Every reply channel is answered at most once, and no channel that was answered is still waiting in the
  table or in the queue; this holds even when tags repeat after a wrap-around of the counter.
\<close>

theorem reply_at_most_once:
  "reachable mx c \<Longrightarrow> distinct (answered c) \<and> set (answered c) \<inter> set (awaiting c) = {}"
  by (drule replies.always) (auto simp: reply_once_def)

theorem reply_at_most_once_witness:
  "distinct (answered sample_conn) \<and> set (answered sample_conn) \<inter> set (awaiting sample_conn) = {}"
  by (rule reply_at_most_once [OF sample_conn_reachable])

text \<open>
  C8 A streaming command gets all its frames before its reply: once the reply to the command of stream \<open>s\<close> has been handed
  out (on channel \<open>Suc s\<close>, drawn right after \<open>s\<close>), no frame is put into that stream any more.
\<close>

theorem stream_before_reply:
  assumes "reachable mx c" "log c = ds @ ReplyTo (Suc s) r # es"
  shows "StreamTo s f \<notin> set es"
  using ending.always [OF assms(1)] assms(2)
  by (auto simp: well_ended_def streams_closed_def sorted_wrt_append)

theorem stream_before_reply_witness:
  "StreamTo 0 ''x'' \<notin> set [BroadcastFrame (''* 5 EXISTS'' @ CRLF)]"
proof (rule stream_before_reply [OF sample_conn_reachable])
  show "log sample_conn = [StreamTo 0 (''* 1 FETCH (UID 7)'' @ CRLF)]
      @ ReplyTo (Suc 0) (Inr (''A0001 OK done'' @ CRLF)) # [BroadcastFrame (''* 5 EXISTS'' @ CRLF)]"
    by code_simp
qed

text \<open>
  C25 The frames put into a stream are frames cut off the wire, each at most once and in wire order.
\<close>

theorem stream_in_wire_order:
  "reachable mx c \<Longrightarrow> subseq (streamed ch (log c)) (cut c)"
  by (rule in_wire_order_weaken) (rule wire_order.always)

theorem stream_in_wire_order_witness:
  "streamed 0 (log sample_conn) = [''* 1 FETCH (UID 7)'' @ CRLF] \<and> subseq (streamed 0 (log sample_conn)) (cut sample_conn)"
proof
  show "streamed 0 (log sample_conn) = [''* 1 FETCH (UID 7)'' @ CRLF]" by code_simp
  show "subseq (streamed 0 (log sample_conn)) (cut sample_conn)"
    by (rule stream_in_wire_order [OF sample_conn_reachable])
qed

text \<open>
  C10 No untagged frame is lost: every frame the read loop is done with that is not a tagged response has been handed into a stream or to the subscribers of
  the events, each as often as it arrived and in wire order, whatever streams were full, closed or dropped meanwhile.
\<close>

theorem no_frame_lost: "reachable mx c \<Longrightarrow> subseq (filter untagged_frame (settled c)) (delivered (log c))"
  by (drule delivery.always) (simp add: lossless_def)

theorem no_frame_lost_witness:
  "filter untagged_frame (settled sample_conn) = [''* 1 FETCH (UID 7)'' @ CRLF, ''* 5 EXISTS'' @ CRLF]
   \<and> subseq (filter untagged_frame (settled sample_conn)) (delivered (log sample_conn))"
proof
  show "filter untagged_frame (settled sample_conn) = [''* 1 FETCH (UID 7)'' @ CRLF, ''* 5 EXISTS'' @ CRLF]" by code_simp
  show "subseq (filter untagged_frame (settled sample_conn)) (delivered (log sample_conn))"
    by (rule no_frame_lost [OF sample_conn_reachable])
qed

text \<open>
  C9 A stream holds what its command asked for: every frame put into the stream of a submitted command, whatever other
  commands are in flight and however the bytes arrived, is by itself exactly one response, and a response the filter of that command accepts.
\<close>

theorem stream_holds_what_was_asked:
  assumes "reachable mx c" "(conn_step mx)\<^sup>*\<^sup>* (submit cmd (Some w) c) c'" "StreamTo (fresh (raw c)) f \<in> set (log c')"
  shows "\<exists>r. parse_response f = Inr ([], r) \<and> w r"
proof -
  have "tracked (\<lambda>s w'. s = fresh (raw c) \<longrightarrow> w' = w) c'"
    using stream_filter [OF assms(1,2)] .
  with assms(3) have "fits w f" unfolding tracked_def by blast
  then show ?thesis by (auto simp: fits_def split: sum.splits)
qed

theorem stream_holds_what_was_asked_witness:
  "StreamTo 0 (''* 1 FETCH (UID 7)'' @ CRLF) \<in> set (log sample_conn)
   \<and> (\<exists>r. parse_response (''* 1 FETCH (UID 7)'' @ CRLF) = Inr ([], r) \<and> is_fetch r)"
proof
  have "hd (log sample_conn) = StreamTo 0 (''* 1 FETCH (UID 7)'' @ CRLF)" "log sample_conn \<noteq> []" by code_simp+
  then show sent: "StreamTo 0 (''* 1 FETCH (UID 7)'' @ CRLF) \<in> set (log sample_conn)" by (metis hd_in_set)
  have "fresh (raw conn_new) = 0" by code_simp
  with stream_holds_what_was_asked [of 1000 conn_new "''FETCH 1 UID''" is_fetch sample_conn] sent sample_conn_steps
  show "\<exists>r. parse_response (''* 1 FETCH (UID 7)'' @ CRLF) = Inr ([], r) \<and> is_fetch r"
    by (simp add: sample_submitted_def)
qed

text \<open>The one request of the sample connection before it is written.\<close>

lemma sample_queued:
  "\<exists>bs w. CommandReq bs ''A0001'' 1 (Some (w, 0)) \<in> set (queued (raw sample_submitted))"
proof -
  have "(case queued (raw sample_submitted) of
      CommandReq bs tag tx (Some (w, s)) # _ \<Rightarrow> tag = ''A0001'' \<and> tx = 1 \<and> s = 0 | _ \<Rightarrow> False)" by code_simp
  then show ?thesis by (auto split: list.splits write_request.splits option.splits prod.splits)
qed

text \<open>
  C4 A command is only answered for what the server said to it: whatever reply arrives on the channel of a queued command,
  from then on and whatever else is in flight, was made of a frame that parses on its own to a status response with the
  tag of that command, or it is the error with which the read loop ended for all commands.
\<close>

theorem reply_carries_own_tag:
  assumes "reachable mx c" "CommandReq bs tag rx col \<in> set (queued (raw c))" "(conn_step mx)\<^sup>*\<^sup>* c c'"
    and "ReplyTo rx res \<in> set (log c')"
  shows "tagged_reply tag res \<or> (\<exists>err. res = Inl err \<and> loop_error err)"
proof -
  have "owned (\<lambda>tx t. tx = rx \<longrightarrow> t = tag) c'" using assms(1-3) by (rule reply_owner)
  with assms(4) show ?thesis unfolding owned_def by blast
qed

theorem reply_carries_own_tag_witness:
  "ReplyTo 1 (Inr (''A0001 OK done'' @ CRLF)) \<in> set (log sample_conn) \<and> tagged_reply ''A0001'' (Inr (''A0001 OK done'' @ CRLF))"
proof
  have "log sample_conn ! 1 = ReplyTo 1 (Inr (''A0001 OK done'' @ CRLF))" "1 < length (log sample_conn)" by code_simp+
  then show sent: "ReplyTo 1 (Inr (''A0001 OK done'' @ CRLF)) \<in> set (log sample_conn)" by (metis nth_mem)
  obtain bs w where "CommandReq bs ''A0001'' 1 (Some (w, 0)) \<in> set (queued (raw sample_submitted))"
    using sample_queued by blast
  from reply_carries_own_tag [OF sample_submitted_reachable this sample_conn_steps sent]
  show "tagged_reply ''A0001'' (Inr (''A0001 OK done'' @ CRLF))" by simp
qed

text \<open>
  C11 When the stream of a command has ended, so that \<open>next_frame\<close> returns \<open>None\<close>, its outcome is decided: nobody holds the sender
  of its reply any more, so awaiting the reply after the last frame returns at once.  This is what \<open>next_frame\<close> documents.
\<close>

theorem stream_end_has_outcome:
  assumes "reachable mx c" "CommandReq bs tag rx (Some (w, s)) \<in> set (queued (raw c))" "(conn_step mx)\<^sup>*\<^sup>* c c'"
    and "stream_ended s c'"
  shows "rx \<notin> set (awaiting c')"
  using stream_partner [OF assms(1-3)] assms(4) by (rule backed_awaiting)

theorem stream_end_has_outcome_witness:
  "stream_ended 0 (snd (the (next_frame 0 sample_conn))) \<and> 1 \<notin> set (awaiting (snd (the (next_frame 0 sample_conn))))"
proof
  let ?c = "snd (the (next_frame 0 sample_conn))"
  show ended: "stream_ended 0 ?c" by code_simp
  have "\<not> Option.is_none (next_frame 0 sample_conn)" by code_simp
  then have "next_frame 0 sample_conn = Some (fst (the (next_frame 0 sample_conn)), ?c)" by (simp add: Option.is_none_def)
  with sample_conn_steps have steps: "(conn_step 1000)\<^sup>*\<^sup>* sample_submitted ?c"
    by (blast intro: rtranclp.rtrancl_into_rtrancl step_next)
  obtain bs w where "CommandReq bs ''A0001'' 1 (Some (w, 0)) \<in> set (queued (raw sample_submitted))"
    using sample_queued by blast
  from stream_end_has_outcome [OF sample_submitted_reachable this steps ended]
  show "1 \<notin> set (awaiting ?c)" .
qed

text \<open>
  C26 What a connection buffers is bounded: the queue of requests and every stream by their
  channel capacities, and, whenever the loop reads from the socket, the unfinished frame by the ceiling it was
  started with.
\<close>

theorem connection_bounds:
  assumes "reachable mx c"
  shows "length (queued (raw c)) \<le> WRITE_CHANNEL_CAP \<and> length (sc_buf (streams c ch)) \<le> STREAM_CHANNEL_CAP
    \<and> (reader c = AwaitingRead \<longrightarrow> length (buffer c) \<le> mx)"
  using bounds.always [OF assms] framing.always [OF assms] by (auto simp: bounded_def framed_def)

theorem connection_bounds_witness:
  "length (queued (raw sample_conn)) \<le> WRITE_CHANNEL_CAP
   \<and> length (sc_buf (streams sample_conn 0)) \<le> STREAM_CHANNEL_CAP \<and> length (buffer sample_conn) \<le> 1000"
proof -
  have "reader sample_conn = AwaitingRead" by code_simp
  with connection_bounds [OF sample_conn_reachable, of 0] show ?thesis by blast
qed

text \<open>
  The table of pending commands is consistent: a claim on untagged frames is only there as long as its command
  awaits its reply, so a finished command never receives another frame.
\<close>

theorem collectors_have_commands:
  "reachable mx c \<Longrightarrow> col_tag ` set (collectors (pend c)) \<subseteq> fst ` set (replies (pend c))"
  by (drule bounds.always) (simp add: bounded_def)

theorem collectors_have_commands_witness:
  "col_tag ` set (collectors (pend sample_start)) = {''A0001''}
   \<and> col_tag ` set (collectors (pend sample_start)) \<subseteq> fst ` set (replies (pend sample_start))"
proof
  show "col_tag ` set (collectors (pend sample_start)) = {''A0001''}" by code_simp
  show "col_tag ` set (collectors (pend sample_start)) \<subseteq> fst ` set (replies (pend sample_start))"
    by (rule collectors_have_commands [OF sample_start_reachable])
qed

text \<open>
  C16 When the read loop ends, for whatever reason, every command in the table is answered with the error of that
  reason, the table is empty, and nothing else was handed out: at the end of the stream \<open>ConnectionClosed\<close>, on a
  malformed frame the parse error, on an unfinished frame past the ceiling \<open>FrameTooLarge\<close>.
\<close>

theorem loop_end_fails_all:
  assumes "c' = read_end c \<and> err = ConnectionClosed
    \<or> c' = drain_turn mx c \<and> parse_response (buffer c) = Inl e \<and> e \<noteq> Incomplete \<and> err = Parse e
    \<or> c' = drain_turn mx c \<and> parse_response (buffer c) = Inl Incomplete \<and> mx < length (buffer c) \<and> err = FrameTooLarge mx"
  shows "reader c' = ReaderDone \<and> pend c' = pending_default
    \<and> log c' = log c @ map (\<lambda>(tag, tx). ReplyTo tx (Inl err)) (replies (pend c))"
proof -
  have "c' = (fail_all_pending err c)\<lparr>reader := ReaderDone\<rparr>"
    using assms
  proof (elim disjE conjE)
    assume *: "c' = drain_turn mx c" "parse_response (buffer c) = Inl e" "e \<noteq> Incomplete" "err = Parse e"
    then show ?thesis by (cases rule: drain_turn_cases [of c mx]) (auto simp: hard_def)
  next
    assume *: "c' = drain_turn mx c" "parse_response (buffer c) = Inl Incomplete" "mx < length (buffer c)"
      "err = FrameTooLarge mx"
    then show ?thesis by (cases rule: drain_turn_cases [of c mx]) (auto simp: hard_def)
  qed (simp add: read_end_def)
  then show ?thesis by (simp add: fail_all_pending_eq)
qed

theorem loop_end_fails_all_witness:
  "reader (read_end sample_start) = ReaderDone \<and> pend (read_end sample_start) = pending_default
   \<and> log (read_end sample_start)
     = log sample_start @ map (\<lambda>(tag, tx). ReplyTo tx (Inl ConnectionClosed)) (replies (pend sample_start))"
  by (rule loop_end_fails_all) blast

text \<open>
  C17 The inner loop of the read loop ends in every fair run: from any point on, whatever the other tasks do in between, the loop is back at the socket or has ended
  after finitely many steps.  Fair means that the loop gets its turn when it can go on for good, and that a stream it waits for is read from or closed at some time; a full stream that
  nobody serves does hold it up.
\<close>

theorem reader_settles:
  assumes "run_of mx f" "reader_scheduled mx f" "streams_served f"
  shows "\<exists>j \<ge> i. reader (f j) \<in> {AwaitingRead, ReaderDone}"
  using loop_left [OF assms, of i] by (simp only: not_in_loop)

text \<open>A run: one broadcast frame is read and handed on, then a stream that was never used is dropped again and again.\<close>

fun sample_run :: "nat \<Rightarrow> conn" where
  "sample_run 0 = read_chunk (''* 5 EXISTS'' @ CRLF) conn_new"
| "sample_run (Suc 0) = drain_turn 1000 (sample_run 0)"
| "sample_run (Suc (Suc 0)) = the (dispatch_turn (drain_turn 1000 (sample_run 0)))"
| "sample_run (Suc (Suc (Suc 0))) = drain_turn 1000 (the (dispatch_turn (drain_turn 1000 (sample_run 0))))"
| "sample_run (Suc (Suc (Suc (Suc n)))) = drop_stream 0 (drain_turn 1000 (the (dispatch_turn (drain_turn 1000 (sample_run 0)))))"

lemma sample_run_start:
  "reader (sample_run 0) = Draining" "\<not> Option.is_none (dispatch_turn (drain_turn 1000 (sample_run 0)))"
  "reader (the (dispatch_turn (drain_turn 1000 (sample_run 0)))) = Draining"
  "reader (drain_turn 1000 (the (dispatch_turn (drain_turn 1000 (sample_run 0))))) = AwaitingRead"
  by code_simp+

lemma sample_run_broadcasts:
  "(case reader (drain_turn 1000 (sample_run 0)) of Dispatching (StreamRoute s) f \<Rightarrow> False | _ \<Rightarrow> True)"
  by code_simp

lemma sample_run_later: "reader (sample_run (Suc (Suc (Suc n)))) = AwaitingRead"
proof (cases n)
  case (Suc m)
  then show ?thesis by (simp only: sample_run.simps drop_stream_def) (use sample_run_start(4) in simp)
qed (use sample_run_start(4) in \<open>simp only: sample_run.simps\<close>)

lemma sample_run_of: "run_of 1000 sample_run"
  unfolding run_of_def
proof
  fix i
  have drop_again: "drop_stream 0 (drop_stream 0 c) = drop_stream 0 c" for c by (simp add: drop_stream_def)
  consider "i = 0" | "i = Suc 0" | "i = Suc (Suc 0)" | "i = Suc (Suc (Suc 0))" | n where "i = Suc (Suc (Suc (Suc n)))"
    by (metis nat.exhaust)
  then show "conn_step 1000 (sample_run i) (sample_run (Suc i))"
  proof cases
    case 1
    then show ?thesis by (simp only: sample_run.simps(2)) (rule step_drain, rule sample_run_start)
  next
    case 2
    then show ?thesis by (simp only: sample_run.simps(2,3)) (rule the_steps, rule sample_run_start)
  next
    case 3
    then show ?thesis by (simp only: sample_run.simps(3,4)) (rule step_drain, rule sample_run_start)
  next
    case 4
    then show ?thesis by (simp only: sample_run.simps(4,5)) (rule step_drop)
  next
    case (5 n)
    then show ?thesis by (simp only: sample_run.simps(5)) (metis drop_again step_drop)
  qed
qed

theorem reader_settles_witness:
  "run_of 1000 sample_run \<and> reader (sample_run 0) = Draining \<and> (\<exists>j \<ge> 0. reader (sample_run j) \<in> {AwaitingRead, ReaderDone})"
proof (intro conjI)
  show run: "run_of 1000 sample_run" by (rule sample_run_of)
  show "reader (sample_run 0) = Draining" by (rule sample_run_start)
  have "\<not> reader_able (sample_run (Suc (Suc (Suc n))))" for n
    using sample_run_later [of n] by (simp add: reader_able_def dispatch_turn_def)
  then have "reader_scheduled 1000 sample_run"
    unfolding reader_scheduled_def by (metis le_add2 add_Suc add_0)
  moreover have "streams_served sample_run"
  proof -
    have "reader (sample_run i) \<noteq> Dispatching (StreamRoute s) fr" for i s fr
    proof -
      consider "i = 0" | "i = Suc 0" | "i = Suc (Suc 0)" | n where "i = Suc (Suc (Suc n))" by (metis nat.exhaust)
      then show ?thesis
      proof cases
        case 2
        then show ?thesis using sample_run_broadcasts by (auto simp only: sample_run.simps(2) reader.case route.case)
      next
        case 3
        then show ?thesis using sample_run_start(3) by (simp only: sample_run.simps(3)) simp
      qed (use sample_run_start(1) sample_run_later in simp_all)
    qed
    then show ?thesis by (simp add: streams_served_def)
  qed
  ultimately show "\<exists>j \<ge> 0. reader (sample_run j) \<in> {AwaitingRead, ReaderDone}" by (rule reader_settles [OF run])
qed

text \<open>
  C15 A tagged status response at the front of the buffer reaches the command that waits under its tag: \<open>OK\<close> hands it the frame, \<open>NO\<close> and
  \<open>BAD\<close> the server's text as an error, and the command leaves the table.
\<close>

theorem tagged_reply_reaches_caller:
  assumes "reader c = Draining" "parse_response (buffer c) = Inr (rest, StatusResp s)" "sr_tag s = Some tag"
    "map_of (replies (pend c)) tag = Some tx"
  shows "\<exists>c' f. (conn_step mx)\<^sup>*\<^sup>* c c' \<and> buffer c = f @ rest \<and> buffer c' = rest
    \<and> log c' = log c @ [ReplyTo tx (tagged_result (sr_status s) (sr_text s) f)]
    \<and> tag \<notin> fst ` set (replies (pend c')) \<and> tag \<notin> col_tag ` set (collectors (pend c'))"
proof -
  obtain c' f where "(conn_step mx)\<^sup>*\<^sup>* c c'" "buffer c = f @ rest" "buffer c' = rest"
    "log c' = log c @ [ReplyTo tx (tagged_result (sr_status s) (sr_text s) f)]"
    "pend c' = snd (complete tag (pend c))"
    using assms by (rule tagged_delivered)
  then show ?thesis by (auto simp: replies_complete_iff collectors_complete)
qed

theorem tagged_reply_reaches_caller_witness:
  "\<exists>c' f. (conn_step 1000)\<^sup>*\<^sup>* (sample_frame sample_start) c' \<and> buffer (sample_frame sample_start) = f @ (''* 5 EXISTS'' @ CRLF)
    \<and> buffer c' = ''* 5 EXISTS'' @ CRLF
    \<and> log c' = log (sample_frame sample_start) @ [ReplyTo 1 (tagged_result
        (sr_status \<lparr>sr_tag = Some ''A0001'', sr_status = Ok, sr_code = None, sr_text = ''done''\<rparr>)
        (sr_text \<lparr>sr_tag = Some ''A0001'', sr_status = Ok, sr_code = None, sr_text = ''done''\<rparr>) f)]
    \<and> ''A0001'' \<notin> fst ` set (replies (pend c')) \<and> ''A0001'' \<notin> col_tag ` set (collectors (pend c'))"
  by (rule tagged_reply_reaches_caller) code_simp+

text \<open>
  C28 Once the read loop has ended no reply is ever handed out again, whatever the write loop and the callers do.
\<close>

theorem silent_after_end:
  "reader c = ReaderDone \<Longrightarrow> (conn_step mx)\<^sup>*\<^sup>* c c' \<Longrightarrow> reader c' = ReaderDone \<and> answered c' = answered c"
  by (rule silent_steps)

theorem silent_after_end_witness:
  "reader (submit ''NOOP'' None (read_end sample_conn)) = ReaderDone
   \<and> answered (submit ''NOOP'' None (read_end sample_conn)) = answered (read_end sample_conn)"
proof (rule silent_after_end)
  show "reader (read_end sample_conn) = ReaderDone" by code_simp
  have "conn_step 1000 (read_end sample_conn) (submit ''NOOP'' None (read_end sample_conn))"
    by (rule step_submit) code_simp
  then show "(conn_step 1000)\<^sup>*\<^sup>* (read_end sample_conn) (submit ''NOOP'' None (read_end sample_conn))"
    by (rule r_into_rtranclp)
qed

text \<open>
  C29 A command sent after the read loop has ended, while the write loop still accepts it, is never answered, in whatever way the connection goes on; and as long as
  the write loop has not failed and its tag has not been given to another command, its reply sender is kept in the queue or in the table, so that its caller is not even
  told that nobody will answer and waits for its timeout.
\<close>

theorem orphaned_command:
  assumes "reachable mx c" "reader c = ReaderDone"
    and "send_command_async (accepting c) cmd (raw c) = (Inr (tag, rx), r)"
    and "(conn_step mx)\<^sup>*\<^sup>* (c\<lparr>raw := r\<rparr>) c'"
  shows "rx \<notin> set (answered c')
    \<and> (rx \<in> set (awaiting c') \<or> \<not> accepting c' \<or> (\<exists>tx. tx \<noteq> rx \<and> (tag, tx) \<in> set (replies (pend c'))))"
proof -
  have sent: "rx = fresh (raw c)" "\<exists>bs col. CommandReq bs tag rx col \<in> set (queued r)"
    using assms(3) unfolding send_command_async_def
    by (cases rule: enqueue_command_cases [of cmd "accepting c" None "raw c"]; auto)+
  have new: "rx \<notin> set (answered c)"
    using replies.always [OF assms(1)] sent(1) by (auto simp: reply_once_def)
  have "answered c' = answered c"
    using silent_steps [OF assms(4)] assms(2) by (simp add: answered_def)
  moreover have "orphaned tag rx c'"
    by (rule orphaned_steps [OF assms(4)]) (use assms(2) sent(2) in \<open>auto simp: orphaned_def\<close>)
  then have "rx \<in> set (awaiting c') \<or> \<not> accepting c' \<or> (\<exists>tx. tx \<noteq> rx \<and> (tag, tx) \<in> set (replies (pend c')))"
    by (fastforce simp: orphaned_def awaiting_iff)
  ultimately show ?thesis using new by simp
qed

definition orphan_start :: conn where
  "orphan_start = read_end conn_new"

definition orphan_sent :: "(client_error + str \<times> chan) \<times> raw_client" where
  "orphan_sent = send_command_async (accepting orphan_start) ''NOOP'' (raw orphan_start)"

definition orphan_conn :: conn where
  "orphan_conn = the (write_finish 100 (the (write_take (orphan_start\<lparr>raw := snd orphan_sent\<rparr>))))"

theorem orphaned_command_witness:
  "wire_out orphan_conn = ''A0001 NOOP'' @ CRLF \<and> accepting orphan_conn \<and> 0 \<notin> set (answered orphan_conn)
   \<and> (0 \<in> set (awaiting orphan_conn) \<or> \<not> accepting orphan_conn \<or> (\<exists>tx. tx \<noteq> 0 \<and> (''A0001'', tx) \<in> set (replies (pend orphan_conn))))"
proof -
  let ?b = "orphan_start\<lparr>raw := snd orphan_sent\<rparr>"
  have "conn_step 1000 conn_new orphan_start" unfolding orphan_start_def by (rule step_end) code_simp
  then have start: "reachable 1000 orphan_start" by (rule r_into_rtranclp)
  have ended: "reader orphan_start = ReaderDone" by code_simp
  have "fst orphan_sent = Inr (''A0001'', 0)" by code_simp
  then have sent: "send_command_async (accepting orphan_start) ''NOOP'' (raw orphan_start) = (Inr (''A0001'', 0), snd orphan_sent)"
    by (simp add: orphan_sent_def prod_eq_iff)
  have "conn_step 1000 ?b (the (write_take ?b))" by (rule the_steps) code_simp
  moreover have "conn_step 1000 (the (write_take ?b)) orphan_conn" unfolding orphan_conn_def by (rule the_steps) code_simp
  ultimately have "(conn_step 1000)\<^sup>*\<^sup>* ?b orphan_conn" by simp
  from orphaned_command [OF start ended sent this]
  have "0 \<notin> set (answered orphan_conn)
    \<and> (0 \<in> set (awaiting orphan_conn) \<or> \<not> accepting orphan_conn \<or> (\<exists>tx. tx \<noteq> 0 \<and> (''A0001'', tx) \<in> set (replies (pend orphan_conn))))" .
  moreover have "wire_out orphan_conn = ''A0001 NOOP'' @ CRLF" "accepting orphan_conn" by code_simp+
  ultimately show ?thesis by blast
qed

text \<open>
  C27 What is written is what was accepted, in order: a step only extends the bytes on the wire, and as long as the write
  loop runs, bytes on the wire, being written and queued change only by one whole command line, or by the bytes of a raw
  request, being added at the end.
\<close>

theorem requests_in_order:
  "conn_step mx c c' \<Longrightarrow> (\<exists>bs. wire_out c' = wire_out c @ bs)
    \<and> (accepting c' \<longrightarrow> outgoing c' = outgoing c \<or> (\<exists>l. one_line l \<and> outgoing c' = outgoing c @ l)
        \<or> (\<exists>bs. c' = submit_raw bs c \<and> outgoing c' = outgoing c @ bs))"
  by (rule write_order)

theorem requests_in_order_witness:
  "outgoing (submit ''NOOP'' None conn_new) = outgoing conn_new
   \<or> (\<exists>l. one_line l \<and> outgoing (submit ''NOOP'' None conn_new) = outgoing conn_new @ l)
   \<or> (\<exists>bs. submit ''NOOP'' None conn_new = submit_raw bs conn_new
        \<and> outgoing (submit ''NOOP'' None conn_new) = outgoing conn_new @ bs)"
proof -
  have "conn_step 1000 conn_new (submit ''NOOP'' None conn_new)" by (rule step_submit) code_simp
  moreover have "accepting (submit ''NOOP'' None conn_new)" by code_simp
  ultimately show ?thesis using requests_in_order by blast
qed

text \<open>
  C36 Tags are unique for the first \<open>2 ^ 64\<close> commands of a connection.
\<close>

theorem tags_unique:
  "m < 2 ^ 64 \<Longrightarrow> n < 2 ^ 64 \<Longrightarrow> nth_tag m = nth_tag n \<longleftrightarrow> m = n"
  by (rule nth_tag_inject)

theorem tags_unique_witness: "nth_tag 9 = ''A0010'' \<and> (nth_tag 9 = nth_tag 10000) = (9 = (10000 :: nat))"
proof
  show "nth_tag 9 = ''A0010''" by code_simp
  show "(nth_tag 9 = nth_tag 10000) = (9 = (10000 :: nat))" by (rule tags_unique) simp_all
qed

section \<open>Sessions\<close>

text \<open>An environment in which every request is taken and every command is answered at once, and one sample session.\<close>

definition sample_env :: "bytes \<Rightarrow> env" where
  "sample_env frame =
     \<lparr>env_open = (\<lambda>_. True), env_reply = (\<lambda>_ _. Arrived (Inr frame)),
      env_exchange = (\<lambda>_ _ _. ([], Arrived (Inr frame))), env_first = (\<lambda>_ _. Arrived (''+ go'' @ CRLF)),
      env_wait = (\<lambda>_. None)\<rparr>"

definition sample_ok :: bytes where
  "sample_ok = ''A0001 OK [CAPABILITY IMAP4rev1 IDLE] done'' @ CRLF"

definition sample_session :: session where
  "sample_session = session_new_tls raw_client_new capabilities_default"

definition sample_selected :: session where
  "sample_selected = new_in_state Selected Tls raw_client_new (from_atoms [''idle'', ''Move''])"

text \<open>
  C5 Whatever calls a caller makes on a session, with whatever arguments and whatever the server answers, up to the
  end of the session, each request handed to the write loop is exactly one line: no argument can end a command early and start another.
\<close>

theorem sessions_send_lines:
  assumes "session_step\<^sup>*\<^sup>* (new_in_state st t raw_client_new caps) s" "session_end s r"
  shows "lines_only r"
  using assms(2) lines.always [OF assms(1)] by (rule session_end_lines)

definition sample_open :: session where
  "sample_open = new_in_state Authenticated Tls raw_client_new capabilities_default"

definition sample_examined :: "session result" where
  "sample_examined = fst (select (sample_env sample_ok) (''a'' @ [DQUOTE]) sample_open)"

theorem sessions_send_lines_witness:
  "map req_bytes (queued (snd (logout (sample_env sample_ok) (projr sample_examined))))
     = [''A0001 SELECT '' @ [DQUOTE] @ ''a'' @ [BACKSLASH, DQUOTE, DQUOTE] @ CRLF, ''A0002 LOGOUT'' @ CRLF]
   \<and> lines_only (snd (logout (sample_env sample_ok) (projr sample_examined)))"
proof
  show "map req_bytes (queued (snd (logout (sample_env sample_ok) (projr sample_examined))))
     = [''A0001 SELECT '' @ [DQUOTE] @ ''a'' @ [BACKSLASH, DQUOTE, DQUOTE] @ CRLF, ''A0002 LOGOUT'' @ CRLF]" by code_simp
  have "sess_state sample_open = Authenticated" "\<not> isl sample_examined" by code_simp+
  then have "session_step sample_open (projr sample_examined)"
    unfolding sample_examined_def by (intro call_select [of sample_open]) simp_all
  then have "session_step\<^sup>*\<^sup>* (new_in_state Authenticated Tls raw_client_new capabilities_default) (projr sample_examined)"
    unfolding sample_open_def by (rule r_into_rtranclp)
  then show "lines_only (snd (logout (sample_env sample_ok) (projr sample_examined)))"
    by (rule sessions_send_lines) (rule end_logout)
qed

text \<open>
  C7 On a cleartext transport no credential is ever sent: whatever calls the types allow on a session made by
  \<open>Session::new\<close>, it stays unauthenticated and cleartext, and all it sends up to its end are CAPABILITY, NOOP and LOGOUT commands.
\<close>

theorem no_credentials_in_cleartext:
  assumes "session_step\<^sup>*\<^sup>* (session_new raw_client_new caps) s" "session_end s r"
  shows "sess_state s = Unauthenticated \<and> sess_transport s = PlainText
    \<and> req_bytes ` set (queued r)
      \<subseteq> range (\<lambda>tag. command_line tag ''CAPABILITY'') \<union> range (\<lambda>tag. command_line tag ''NOOP'')
        \<union> range (\<lambda>tag. command_line tag ''LOGOUT'')"
proof -
  have idle: "cleartext_idle s" using assms(1) by (rule cleartext.always)
  have "req_bytes req \<in> range (\<lambda>tag. command_line tag ''CAPABILITY'') \<union> range (\<lambda>tag. command_line tag ''NOOP'')
        \<union> range (\<lambda>tag. command_line tag ''LOGOUT'')" if "req \<in> set (queued r)" for req
    using cleartext_end [OF assms(2) idle that] unfolding harmless_def by blast
  then show ?thesis using idle unfolding cleartext_idle_def by blast
qed

theorem no_credentials_in_cleartext_witness:
  "let s = snd (noop (sample_env sample_ok) (session_new raw_client_new capabilities_default)) in
   sess_state s = Unauthenticated \<and> sess_transport s = PlainText
    \<and> req_bytes ` set (queued (snd (logout (sample_env sample_ok) s)))
      \<subseteq> range (\<lambda>tag. command_line tag ''CAPABILITY'') \<union> range (\<lambda>tag. command_line tag ''NOOP'')
        \<union> range (\<lambda>tag. command_line tag ''LOGOUT'')"
  unfolding Let_def
  by (rule no_credentials_in_cleartext, rule r_into_rtranclp, rule call_noop, rule end_logout)

text \<open>
  C20 LOGIN arguments survive the wire: a server that reads the two quoted strings of the command gets the user name and the
  password, whatever quotes and backslashes they hold, and nothing else is in the line.
\<close>

theorem login_reads_back:
  assumes "imap_quoted user = Inr user_q" "as_imap_quoted pass = Inr pass_q"
  shows "\<exists>args. login_command user_q pass_q = ''LOGIN '' @ args
    \<and> read_quoted args = Some (user, SP # pass_q) \<and> read_quoted pass_q = Some (password_as_str pass, [])"
proof (intro exI conjI)
  show "login_command user_q pass_q = ''LOGIN '' @ (user_q @ SP # pass_q)" by (simp add: login_command_def)
  show "read_quoted (user_q @ SP # pass_q) = Some (user, SP # pass_q)" using assms(1) by (rule read_imap_quoted)
  show "read_quoted pass_q = Some (password_as_str pass, [])"
    using read_imap_quoted [of "password_as_str pass" pass_q "[]"] assms(2) by (simp add: as_imap_quoted_def)
qed

theorem login_reads_back_witness:
  "\<exists>args. login_command (quote ''me'') (quote (DQUOTE # ''x'')) = ''LOGIN '' @ args
    \<and> read_quoted args = Some (''me'', SP # quote (DQUOTE # ''x''))
    \<and> read_quoted (quote (DQUOTE # ''x'')) = Some (password_as_str (Password (DQUOTE # ''x'')), [])"
  by (rule login_reads_back) code_simp+

text \<open>
  C22 The SASL PLAIN response is one line of base64 that decodes to an empty authorization identity, the user name and the
  password, separated by NUL; names and passwords without NUL (the method refuses others) are the fields between them.
\<close>

theorem sasl_line_decodes:
  "\<exists>l. sasl_plain_line user pass = l @ CRLF \<and> CR \<notin> set l \<and> LF \<notin> set l
    \<and> decode l = Some ([NUL] @ user @ [NUL] @ password_as_str pass)"
proof -
  have "one_line (sasl_plain_line user pass)" unfolding sasl_plain_line_def by (rule base64_line)
  then obtain l where "sasl_plain_line user pass = l @ CRLF" "CR \<notin> set l" "LF \<notin> set l"
    by (auto simp: one_line_def)
  moreover from this have "l = encode_into (sasl_plain user pass) []" by (simp add: sasl_plain_line_def)
  ultimately show ?thesis using decode_encode [of "sasl_plain user pass"] by (auto simp: sasl_plain_def)
qed

text \<open>
  C35 The buffers that hold a secret are reserved at their exact size: the command line, the LOGIN command, the quoted string
  and both SASL buffers have the length of the capacity reserved for them, so no un-wiped copy is left behind by a reallocation.
\<close>

theorem secrets_not_reallocated:
  assumes "utf8_valid s"
  shows "length (command_line tag cmd) = command_line_capacity tag cmd
    \<and> length (login_command user_q pass_q) = login_command_capacity user_q pass_q
    \<and> length (quote s) = quote_capacity s
    \<and> length (sasl_plain user pass) = sasl_plain_capacity user pass
    \<and> length (sasl_plain_line user pass) = sasl_plain_line_capacity user pass"
  using assms
  by (simp add: length_command_line login_command_def login_command_capacity_def quote_bytes length_escape
      quote_capacity_def sasl_plain_line_def sasl_plain_line_capacity_def sasl_plain_capacity_def sasl_plain_def length_encode_into)

theorem secrets_not_reallocated_witness:
  "length (command_line ''A0001'' ''NOOP'') = command_line_capacity ''A0001'' ''NOOP''
    \<and> length (login_command ''a'' ''b'') = login_command_capacity ''a'' ''b''
    \<and> length (quote ''x'') = quote_capacity ''x''
    \<and> length (sasl_plain ''u'' (Password ''p'')) = sasl_plain_capacity ''u'' (Password ''p'')
    \<and> length (sasl_plain_line ''u'' (Password ''p'')) = sasl_plain_line_capacity ''u'' (Password ''p'')"
  by (rule secrets_not_reallocated) code_simp

text \<open>
  C30 FETCH with structured results: with a well-formed sequence set and item list the one command sent is
  \<open>FETCH set items\<close>; otherwise the call is refused with \<open>InvalidArgument\<close> and the session is untouched.
\<close>

theorem fetch_sends_or_refuses:
  assumes "alive e (sess_raw s)"
  shows "fetch_raw e st items s =
    (if st \<notin> sequence_set_lang then (Inl (InvalidArgument ''sequence set''), s)
     else if items = [] \<or> \<not> list_all (\<lambda>b. is_printable_ascii b \<and> b \<noteq> LBRACE) items \<or> \<not> balanced (chars items)
     then (Inl (InvalidArgument ''fetch items''), s)
     else (await_reply (env_reply e (fresh (sess_raw s)) (default_timeout (sess_raw s))),
           s\<lparr>sess_raw := sent (''FETCH '' @ st @ [SP] @ items) (sess_raw s)\<rparr>))"
proof (cases "fetch_command st items")
  case (Inl err)
  then have "fetch_raw e st items s = (Inl err, s)" by (simp add: fetch_raw_def)
  with Inl show ?thesis using fetch_command_error [OF Inl] by auto
next
  case (Inr cmd)
  note ok = fetch_command_ok [OF Inr]
  then have "execute_command e cmd (sess_raw s) =
      (await_reply (env_reply e (fresh (sess_raw s)) (default_timeout (sess_raw s))), sent cmd (sess_raw s))"
    using assms by (intro execute_clean) blast+
  with Inr have "fetch_raw e st items s = (await_reply (env_reply e (fresh (sess_raw s)) (default_timeout (sess_raw s))),
      s\<lparr>sess_raw := sent cmd (sess_raw s)\<rparr>)" by (simp add: fetch_raw_def with_raw_def)
  with ok fetch_command_items [OF Inr] show ?thesis by auto
qed

theorem fetch_sends_or_refuses_witness:
  "fetch_raw (sample_env sample_ok) ''1,0'' ''UID'' sample_selected = (Inl (InvalidArgument ''sequence set''), sample_selected)
   \<and> map req_bytes (queued (sess_raw (snd (fetch_raw (sample_env sample_ok) ''1:*'' ''UID'' sample_selected))))
     = [''A0001 FETCH 1:* UID'' @ CRLF]"
proof
  have al: "alive (sample_env sample_ok) (sess_raw sample_selected)" by code_simp
  have "sequence_set ''1,0'' \<noteq> Inr ''1,0''" by code_simp
  then have "''1,0'' \<notin> sequence_set_lang" by (simp only: sequence_set_iff simp_thms)
  with fetch_sends_or_refuses [OF al, of "''1,0''" "''UID''"]
  show "fetch_raw (sample_env sample_ok) ''1,0'' ''UID'' sample_selected = (Inl (InvalidArgument ''sequence set''), sample_selected)"
    by simp
  show "map req_bytes (queued (sess_raw (snd (fetch_raw (sample_env sample_ok) ''1:*'' ''UID'' sample_selected))))
     = [''A0001 FETCH 1:* UID'' @ CRLF]" by code_simp
qed

text \<open>
  C31 STORE: with valid flags and a valid sequence set the one command sent is \<open>STORE set action (flags)\<close>, the flags in order and separated by
  one space; a custom flag that is not a keyword, or an invalid set, is refused and the session is untouched.
\<close>

theorem store_sends_or_refuses:
  assumes "alive e (sess_raw s)"
  shows "store e st act flags s =
    (if \<not> list_all (\<lambda>f. wire_flag f = Inr ()) flags then (Inl (InvalidArgument ''flag keyword''), s)
     else if st \<notin> sequence_set_lang then (Inl (InvalidArgument ''sequence set''), s)
     else (await_reply (env_reply e (fresh (sess_raw s)) (default_timeout (sess_raw s))),
           s\<lparr>sess_raw := sent (''STORE '' @ st @ [SP] @ to_imap_prefix act False
                @ '' ('' @ join [SP] (map flag_to_string flags) @ '')'') (sess_raw s)\<rparr>))"
proof (cases "check_flags flags")
  case (Inl err)
  with check_flags_error [OF Inl] check_flags_ok [of flags "()"] show ?thesis
    by (auto simp: store_def list_all_iff)
next
  case (Inr u)
  then have all: "list_all (\<lambda>f. wire_flag f = Inr ()) flags" by (simp add: check_flags_ok list_all_iff)
  note flags = clean_flags [OF Inr]
  show ?thesis
  proof (cases "st \<in> sequence_set_lang")
    case True
    then have set: "sequence_set st = Inr st" by (simp add: sequence_set_iff)
    let ?cmd = "''STORE '' @ st @ [SP] @ to_imap_prefix act False @ '' ('' @ join [SP] (map flag_to_string flags) @ '')''"
    have "clean ?cmd" using flags clean_sequence_set [OF set] by (simp add: clean_prefix)
    then have "execute_command e ?cmd (sess_raw s) =
        (await_reply (env_reply e (fresh (sess_raw s)) (default_timeout (sess_raw s))), sent ?cmd (sess_raw s))"
      using assms by (intro execute_clean)
    with Inr set all True show ?thesis by (simp only: store_def Let_def sum.case with_raw_def prod.case) simp
  next
    case False
    then have "sequence_set st = Inl (InvalidArgument ''sequence set'')" by (rule sequence_set_error)
    with Inr all False show ?thesis by (simp add: store_def Let_def)
  qed
qed

theorem store_sends_or_refuses_witness:
  "store (sample_env sample_ok) ''2'' AddAction [SeenFlag, CustomFlag ''a b''] sample_selected
     = (Inl (InvalidArgument ''flag keyword''), sample_selected)
   \<and> map req_bytes (queued (sess_raw (snd (store (sample_env sample_ok) ''2'' AddAction [SeenFlag, CustomFlag ''x''] sample_selected))))
     = [''A0001 STORE 2 +FLAGS ('' @ BACKSLASH # ''Seen x)'' @ CRLF]"
proof
  have al: "alive (sample_env sample_ok) (sess_raw sample_selected)" by code_simp
  have "\<not> list_all (\<lambda>f. wire_flag f = Inr ()) [SeenFlag, CustomFlag ''a b'']" by code_simp
  with store_sends_or_refuses [OF al, of "''2''" AddAction "[SeenFlag, CustomFlag ''a b'']"]
  show "store (sample_env sample_ok) ''2'' AddAction [SeenFlag, CustomFlag ''a b''] sample_selected
     = (Inl (InvalidArgument ''flag keyword''), sample_selected)" by (simp only: if_True simp_thms)
  show "map req_bytes (queued (sess_raw (snd (store (sample_env sample_ok) ''2'' AddAction [SeenFlag, CustomFlag ''x''] sample_selected))))
     = [''A0001 STORE 2 +FLAGS ('' @ BACKSLASH # ''Seen x)'' @ CRLF]" by code_simp
qed

text \<open>
  SEARCH with a text that holds CR, LF or NUL is refused with \<open>InvalidArgument\<close>; nothing is queued and no tag is
  used up.
\<close>

theorem search_refuses_line_breaks:
  assumes "t \<in> key_texts (sq_key q)" "utf8_valid t" "CR \<in> set t \<or> LF \<in> set t \<or> NUL \<in> set t"
  shows "fst (search e q s) = Inl (InvalidArgument ''command contains CR, LF or NUL'')
    \<and> queued (sess_raw (snd (search e q s))) = queued (sess_raw s)
    \<and> tag_counter (sess_raw (snd (search e q s))) = tag_counter (sess_raw s)"
proof -
  let ?cmd = "''SEARCH '' @ build q"
  have "\<not> clean ?cmd" using key_text_in [OF assms(1,2)] assms(3) by (auto simp: clean_def build_def)
  then show ?thesis
    using execute_streaming_refused [of ?cmd e is_search push_search "[]" "sess_raw s"]
    by (cases "execute_streaming e ?cmd is_search push_search [] (sess_raw s)")
      (simp add: search_def run_search_def)
qed

theorem search_refuses_line_breaks_witness:
  "fst (search (sample_env sample_ok) (search_query_from ([LF] @ ''x'')) sample_selected)
     = Inl (InvalidArgument ''command contains CR, LF or NUL'')
   \<and> queued (sess_raw (snd (search (sample_env sample_ok) (search_query_from ([LF] @ ''x'')) sample_selected)))
     = queued (sess_raw sample_selected)
   \<and> tag_counter (sess_raw (snd (search (sample_env sample_ok) (search_query_from ([LF] @ ''x'')) sample_selected)))
     = tag_counter (sess_raw sample_selected)"
  by (rule search_refuses_line_breaks [of "[LF] @ ''x''"]) code_simp+

text \<open>
  C32 IDLE, MOVE and UNSELECT are only sent to a server that advertised them: with the capabilities built
  from a list of atoms, and none of them the name of the extension (in any case), the call fails with
  \<open>UnsupportedCapability\<close> and nothing is sent.
\<close>

theorem gated_by_capabilities:
  assumes "sess_caps s = from_atoms atoms"
  shows "(list_ex (\<lambda>a. eq_ignore_ascii_case a ''IDLE'') atoms \<or>
      session_idle e s = (Inl (UnsupportedCapability ''IDLE''), s))
    \<and> (list_ex (\<lambda>a. eq_ignore_ascii_case a ''MOVE'') atoms \<or>
      move_messages e st mb s = (Inl (UnsupportedCapability ''MOVE''), s))
    \<and> (list_ex (\<lambda>a. eq_ignore_ascii_case a ''UNSELECT'') atoms \<or>
      session_unselect e s = (Inl (UnsupportedCapability ''UNSELECT''), sess_raw s))"
proof -
  have "(''IDLE'', idle) \<in> set capability_fields" "(''MOVE'', move_ext) \<in> set capability_fields"
    "(''UNSELECT'', unselect) \<in> set capability_fields" by (simp_all add: capability_fields_def)
  from this [THEN from_atoms_field] show ?thesis
    by (simp add: assms session_idle_def move_messages_def session_unselect_def list_ex_iff)
qed

theorem gated_by_capabilities_witness:
  "(list_ex (\<lambda>a. eq_ignore_ascii_case a ''IDLE'') [''idle'', ''Move''] \<or>
      session_idle (sample_env sample_ok) sample_selected = (Inl (UnsupportedCapability ''IDLE''), sample_selected))
    \<and> (list_ex (\<lambda>a. eq_ignore_ascii_case a ''MOVE'') [''idle'', ''Move''] \<or>
      move_messages (sample_env sample_ok) ''1'' ''x'' sample_selected = (Inl (UnsupportedCapability ''MOVE''), sample_selected))
    \<and> (list_ex (\<lambda>a. eq_ignore_ascii_case a ''UNSELECT'') [''idle'', ''Move''] \<or>
      session_unselect (sample_env sample_ok) sample_selected
        = (Inl (UnsupportedCapability ''UNSELECT''), sess_raw sample_selected))"
  by (rule gated_by_capabilities) (simp add: sample_selected_def new_in_state_def)

text \<open>
  C33 After a LOGIN whose OK carries a CAPABILITY code, the session is authenticated with exactly the
  capabilities listed there, whatever was cached before, and no further command is sent.
\<close>

theorem login_refreshes_capabilities:
  assumes "alive e (sess_raw s)" "imap_quoted user = Inr uq" "as_imap_quoted pass = Inr pq"
    "env_reply e (fresh (sess_raw s)) (default_timeout (sess_raw s)) = Arrived (Inr frame)"
    "parse_response frame = Inr (rest, StatusResp sr)" "sr_code sr = Some (CapabilityCode atoms)"
  shows "login e user pass s =
    (Inr (s\<lparr>sess_raw := sent (login_command uq pq) (sess_raw s), sess_caps := from_atoms atoms,
            sess_state := Authenticated\<rparr>),
     sent (login_command uq pq) (sess_raw s))"
proof -
  have "clean (login_command uq pq)"
    using clean_quoted [OF assms(2)] clean_quoted [OF assms(3) [unfolded as_imap_quoted_def]]
    by (simp add: login_command_def)
  from execute_clean [OF assms(1) this] assms(4)
  have "execute_command e (login_command uq pq) (sess_raw s) = (Inr frame, sent (login_command uq pq) (sess_raw s))"
    by simp
  with assms show ?thesis
    by (simp add: login_def with_raw_def finish_authentication_def refresh_capabilities_from_frame_def
        transition_state_def)
qed

theorem login_refreshes_capabilities_witness:
  "login (sample_env sample_ok) ''me'' (Password ''pw'') sample_session =
    (Inr (sample_session\<lparr>sess_raw := sent (login_command (quote ''me'') (quote ''pw'')) (sess_raw sample_session),
            sess_caps := from_atoms [''IMAP4rev1'', ''IDLE''], sess_state := Authenticated\<rparr>),
     sent (login_command (quote ''me'') (quote ''pw'')) (sess_raw sample_session))"
proof (rule login_refreshes_capabilities)
  show "parse_response sample_ok = Inr ([], StatusResp \<lparr>sr_tag = Some ''A0001'', sr_status = Ok,
      sr_code = Some (CapabilityCode [''IMAP4rev1'', ''IDLE'']), sr_text = ''done''\<rparr>)" by code_simp
  show "env_reply (sample_env sample_ok) (fresh (sess_raw sample_session)) (default_timeout (sess_raw sample_session))
      = Arrived (Inr sample_ok)" by (simp add: sample_env_def)
  show "alive (sample_env sample_ok) (sess_raw sample_session)" by code_simp
  show "imap_quoted ''me'' = Inr (quote ''me'')" "as_imap_quoted (Password ''pw'') = Inr (quote ''pw'')" by code_simp+
  show "sr_code \<lparr>sr_tag = Some ''A0001'', sr_status = Ok,
      sr_code = Some (CapabilityCode [''IMAP4rev1'', ''IDLE'']), sr_text = ''done''\<rparr>
      = Some (CapabilityCode [''IMAP4rev1'', ''IDLE''])" by simp
qed

text \<open>
  C34 The text \<open>fetch_body\<close> returns is well-formed UTF-8 whatever bytes the message holds, and a well-formed body
  comes back unchanged.
\<close>

theorem fetch_body_is_text:
  assumes "fetch_body e st s = (Inr (Some body_text), s')"
  shows "utf8_valid body_text \<and> (\<exists>res results body. fst (fetch e st ''BODY[]'' s) = Inr (res # results)
    \<and> fr_body res = Some body \<and> (utf8_valid body \<longrightarrow> body_text = body))"
  using assms from_utf8_lossy_valid from_utf8_lossy_id
  by (auto simp: fetch_body_def split: prod.splits sum.splits list.splits)

definition sample_body_env :: env where
  "sample_body_env = (sample_env sample_ok)\<lparr>env_exchange := (\<lambda>_ _ _.
     ([''* 1 FETCH (BODY[] {5}'' @ CRLF @ ''he)lo)'' @ CRLF], Arrived (Inr sample_ok)))\<rparr>"

theorem fetch_body_is_text_witness:
  "utf8_valid ''he)lo'' \<and> (\<exists>res results body. fst (fetch sample_body_env ''1'' ''BODY[]'' sample_selected) = Inr (res # results)
    \<and> fr_body res = Some body)"
proof -
  have "fst (fetch_body sample_body_env ''1'' sample_selected) = Inr (Some ''he)lo'')" by code_simp
  then have "fetch_body sample_body_env ''1'' sample_selected
      = (Inr (Some ''he)lo''), snd (fetch_body sample_body_env ''1'' sample_selected))"
    by (simp add: prod_eq_iff)
  from fetch_body_is_text [OF this] show ?thesis by blast
qed

text \<open>
  What the attributes of one FETCH response say about a message: its last UID and its last content.  Content is the data of a body section or of
  RFC822; BODY without a section is the structure of the message and says nothing of its content.
\<close>

fun att_uid :: "fetch_attribute \<Rightarrow> u32 option" where
  "att_uid (UidAtt u) = Some u"
| "att_uid _ = None"

fun att_content :: "fetch_attribute \<Rightarrow> bytes option" where
  "att_content (BodySectionAtt sec org d) = d"
| "att_content (Rfc822Att b) = Some b"
| "att_content _ = None"

definition last_of :: "('a \<Rightarrow> 'b option) \<Rightarrow> 'a list \<Rightarrow> 'b option" where
  "last_of f xs = (let ys = List.map_filter f xs in if ys = [] then None else Some (last ys))"

definition fetched :: "u32 \<Rightarrow> fetch_attribute list \<Rightarrow> FetchResult" where
  "fetched n atts = \<lparr>fr_seq = n, fr_uid = last_of att_uid atts, fr_body = last_of att_content atts\<rparr>"

text \<open>
  The messages a server can print: data of at most the literal limit, no more list items than a response may have, and no BODY without a section,
  which \<open>fetch_result\<close> would take for content (\<open>structure_taken_for_body\<close> below).
\<close>

fun is_structure :: "fetch_attribute \<Rightarrow> bool" where
  "is_structure (BodyAtt b) = True"
| "is_structure _ = False"

definition printable :: "u32 \<times> fetch_attribute list \<Rightarrow> bool" where
  "printable msg \<longleftrightarrow> list_all plain_att (snd msg) \<and> \<not> list_ex is_structure (snd msg)
     \<and> data_items (FetchData (fst msg) (snd msg)) \<le> MAX_ITEMS_PER_RESPONSE
     \<and> length (print_fetch (fst msg) (snd msg)) < 2 ^ 64"

lemma last_of_snoc: "last_of f (xs @ [x]) = (case f x of Some y \<Rightarrow> Some y | None \<Rightarrow> last_of f xs)"
  by (auto simp: last_of_def Let_def List.map_filter_def split: option.splits)

lemma fold_fetch_attr:
  "\<not> list_ex is_structure atts \<Longrightarrow>
   fold fetch_attr atts (None, None) = (last_of att_uid atts, last_of att_content atts)"
proof (induction atts rule: rev_induct)
  case Nil
  show ?case by (simp add: last_of_def List.map_filter_def)
next
  case (snoc a atts)
  then show ?case by (cases a) (auto simp: last_of_snoc split: option.splits)
qed

lemma fetch_result_print: "printable (n, atts) \<Longrightarrow> fetch_result (print_fetch n atts) = Some (fetched n atts)"
  using parse_print_response [of "DataResp (FetchData n atts)" "[]"]
  by (simp add: fetch_result_def fetched_def fold_fetch_attr printable_def plain_response_def)

lemma fold_push_fetch:
  "list_all printable msgs \<Longrightarrow>
   fold push_fetch (map (\<lambda>(n, atts). print_fetch n atts) msgs) acc = acc @ map (\<lambda>(n, atts). fetched n atts) msgs"
  by (induction msgs arbitrary: acc) (auto simp: push_fetch_def fetch_result_print)

definition sample_msg :: "fetch_attribute list" where
  "sample_msg = [UidAtt 7, FlagsAtt [BACKSLASH # ''Seen''], BodySectionAtt (Some ''TEXT'') (Some 0) (Some ('')'' @ CRLF @ [DQUOTE]))]"

lemma sample_msg_printable: "printable (3, sample_msg)"
proof -
  have "is_flag (BACKSLASH # ''Seen'')" by (auto simp: is_flag_def is_atom_def is_atom_char_def is_ascii_def)
  then have "list_all plain_att sample_msg"
    by (simp add: sample_msg_def is_section_def is_ascii_def MAX_LITERAL_SIZE_def)
  moreover have "\<not> list_ex is_structure sample_msg" by (simp add: sample_msg_def)
  moreover have "data_items (FetchData 3 sample_msg) \<le> MAX_ITEMS_PER_RESPONSE" "length (print_fetch 3 sample_msg) < 2 ^ 64"
    by code_simp+
  ultimately show ?thesis by (simp add: printable_def)
qed

text \<open>
  C21 What the server sends is what \<open>fetch\<close> returns: when the stream of the command delivered the printed
  messages, a successful \<open>fetch\<close> returns for each of them, in order, its number, its last UID and its last content (the data of a body section or of RFC822), byte
  for byte.  The messages are those without an unsectioned BODY attribute, the structure that is no content.
\<close>

theorem fetch_returns_what_was_sent:
  assumes "list_all printable msgs" "fst (fetch e st items s) = Inr results"
    and "\<And>tx rx d. fst (env_exchange e tx rx d) = map (\<lambda>(n, atts). print_fetch n atts) msgs"
  shows "results = map (\<lambda>(n, atts). fetched n atts) msgs"
proof -
  obtain cmd where cmd: "fetch_command st items = Inr cmd"
    using assms(2) by (auto simp: fetch_def split: sum.splits)
  obtain res acc r where run: "execute_streaming e cmd is_fetch push_fetch [] (sess_raw s) = (res, acc, r)"
    by (cases "execute_streaming e cmd is_fetch push_fetch [] (sess_raw s)")
  with assms(2) cmd have res: "isl res = False" "results = acc"
    by (cases res; simp add: fetch_def)+
  then have "acc = fold push_fetch (map (\<lambda>(n, atts). print_fetch n atts) msgs) []"
    using run assms(3) by (auto simp: execute_streaming_def split: prod.splits sum.splits) (metis fst_conv)+
  with res(2) fold_push_fetch [OF assms(1)] show ?thesis by simp
qed

definition sample_fetch_env :: env where
  "sample_fetch_env = (sample_env sample_ok)\<lparr>env_exchange := (\<lambda>_ _ _. ([print_fetch 3 sample_msg], Arrived (Inr sample_ok)))\<rparr>"

theorem fetch_returns_what_was_sent_witness:
  "print_fetch 3 sample_msg = ''* 3 FETCH (UID 7 FLAGS ('' @ [BACKSLASH] @ ''Seen) BODY[TEXT]<0> {4}'' @ CRLF @ '')'' @ CRLF @ [DQUOTE] @ '')'' @ CRLF
   \<and> fst (fetch sample_fetch_env ''3'' ''(UID FLAGS BODY[TEXT]<0.9>)'' sample_selected)
     = Inr [\<lparr>fr_seq = 3, fr_uid = Some 7, fr_body = Some ('')'' @ CRLF @ [DQUOTE])\<rparr>]"
proof
  show "print_fetch 3 sample_msg = ''* 3 FETCH (UID 7 FLAGS ('' @ [BACKSLASH] @ ''Seen) BODY[TEXT]<0> {4}'' @ CRLF @ '')'' @ CRLF @ [DQUOTE] @ '')'' @ CRLF"
    by code_simp
  let ?r = "fst (fetch sample_fetch_env ''3'' ''(UID FLAGS BODY[TEXT]<0.9>)'' sample_selected)"
  have ok: "\<not> isl ?r" by code_simp
  then have r: "?r = Inr (projr ?r)" by simp
  have f: "fetched 3 sample_msg = \<lparr>fr_seq = 3, fr_uid = Some 7, fr_body = Some ('')'' @ CRLF @ [DQUOTE])\<rparr>"
    by code_simp
  have "projr ?r = map (\<lambda>(n, atts). fetched n atts) [(3, sample_msg)]"
    by (rule fetch_returns_what_was_sent [OF _ r]) (simp_all add: sample_msg_printable sample_fetch_env_def)
  with r f show "?r = Inr [\<lparr>fr_seq = 3, fr_uid = Some 7, fr_body = Some ('')'' @ CRLF @ [DQUOTE])\<rparr>]" by simp
qed

section \<open>STARTTLS\<close>

text \<open>A server that advertises STARTTLS and agrees to it; the second one sends a line too many.\<close>

definition sample_socket :: "bytes list \<Rightarrow> socket" where
  "sample_socket extra =
     \<lparr>sk_reads = map ReadData ([''* OK hi'' @ CRLF, ''* CAPABILITY IMAP4rev1 STARTTLS'' @ CRLF @ ''T0001 OK'' @ [SP] @ CRLF] @ extra),
      sk_writes = [], sk_out = []\<rparr>"

text \<open>
  C6 When the exchange before the upgrade succeeds, exactly the two commands were sent, the server had advertised
  STARTTLS in its answer to CAPABILITY, and everything read was whole responses: the buffer is empty, so no cleartext byte can be taken for
  one of the encrypted channel.
\<close>

theorem starttls_upgrade_is_clean:
  assumes "starttls_steps sk = (Inr (), sk', buf)"
  shows "buf = [] \<and> sk_out sk' = sk_out sk @ T_CAPABILITY @ T_STARTTLS
    \<and> (\<exists>greeting fs f hs. unread sk = greeting @ concat fs @ f @ concat hs @ unread sk'
        \<and> tagged_ok ''T0001'' f \<and> starttls (fold caps_on_frame fs capabilities_default))"
  using assms by (rule starttls_steps_ok) blast

theorem starttls_upgrade_is_clean_witness:
  "let sk = sample_socket [''T0002 OK go'' @ CRLF]; sk' = fst (snd (starttls_steps sk)) in
   starttls_steps sk = (Inr (), sk', []) \<and> ([] :: bytes) = [] \<and> sk_out sk' = sk_out sk @ T_CAPABILITY @ T_STARTTLS
    \<and> (\<exists>greeting fs f hs. unread sk = greeting @ concat fs @ f @ concat hs @ unread sk'
        \<and> tagged_ok ''T0001'' f \<and> starttls (fold caps_on_frame fs capabilities_default))"
proof -
  let ?sk = "sample_socket [''T0002 OK go'' @ CRLF]"
  have ok: "starttls_steps ?sk = (Inr (), fst (snd (starttls_steps ?sk)), [])" by code_simp
  from ok starttls_upgrade_is_clean [OF ok] show ?thesis unfolding Let_def by blast
qed

text \<open>
  C19 Whatever the server does and however the exchange ends, what is sent in cleartext is a beginning of the two lines CAPABILITY
  and STARTTLS, and the buffer never exceeds its ceiling.
\<close>

theorem starttls_sends_only_two_lines:
  "starttls_steps sk = (res, sk', buf) \<Longrightarrow>
   (\<exists>k. sk_out sk' = sk_out sk @ take k (T_CAPABILITY @ T_STARTTLS)) \<and> length buf \<le> MAX_PRE_TLS_FRAME"
  by (rule starttls_steps_out)

theorem starttls_sends_only_two_lines_witness:
  "let sk = sample_socket [''T0002 OK go'' @ CRLF @ ''* BYE x'' @ CRLF]; r = starttls_steps sk in
   fst r = Inl (CommandFailed ''server sent cleartext data after STARTTLS OK'')
   \<and> (\<exists>k. sk_out (fst (snd r)) = sk_out sk @ take k (T_CAPABILITY @ T_STARTTLS))
   \<and> length (snd (snd r)) \<le> MAX_PRE_TLS_FRAME"
proof -
  let ?sk = "sample_socket [''T0002 OK go'' @ CRLF @ ''* BYE x'' @ CRLF]"
  have "fst (starttls_steps ?sk) = Inl (CommandFailed ''server sent cleartext data after STARTTLS OK'')" by code_simp
  with starttls_sends_only_two_lines [of ?sk "fst (starttls_steps ?sk)" "fst (snd (starttls_steps ?sk))"
      "snd (snd (starttls_steps ?sk))"]
  show ?thesis unfolding Let_def by simp
qed

text \<open>
  C18 Nothing said in cleartext gets past the upgrade.  Take two servers whose cleartext parts differ in any way but let the exchange succeed, and
  that go on with the same events.  Whatever TLS makes of the socket it is given, \<open>starttls_with_connector\<close> has the same outcome on both: the handshake runs on a socket whose first
  unread byte is the first after the cleartext part, and a session that comes of it is unauthenticated and marked as TLS.
\<close>

theorem cleartext_is_not_trusted:
  assumes "starttls_steps sk1 = (Inr (), t1, buf1)" "sk_reads t1 = []"
    "starttls_steps sk2 = (Inr (), t2, buf2)" "sk_reads t2 = []"
    "sk_out sk1 = sk_out sk2" "sk_writes sk1 = sk_writes sk2"
  shows "starttls_with_connector w c d (followed_by sk1 evs) t pt = starttls_with_connector w c d (followed_by sk2 evs) t pt
    \<and> starttls_with_connector w c d (followed_by sk1 evs) t pt =
        (if w_in_time w pt then handshake_with_connector w c d (tls_socket sk1 evs) t else Inl Timeout)
    \<and> sk_reads (tls_socket sk1 evs) = evs
    \<and> (\<forall>s. starttls_with_connector w c d (followed_by sk1 evs) t pt = Inr s \<longrightarrow>
          sess_state s = Unauthenticated \<and> sess_transport s = Tls)"
proof -
  note shape = starttls_handshake_socket [OF assms(1,2), of w c d evs t pt] starttls_handshake_socket [OF assms(3,4), of w c d evs t pt]
  have "tls_socket sk1 evs = tls_socket sk2 evs" "sk_reads (tls_socket sk1 evs) = evs"
    using assms(5,6) by (simp_all add: tls_socket_def)
  moreover have "sess_state s = Unauthenticated \<and> sess_transport s = Tls"
    if "starttls_with_connector w c d (followed_by sk1 evs) t pt = Inr s" for s
    using that finalize_markers by (elim starttls_ok) blast
  ultimately show ?thesis using shape by simp
qed

text \<open>A TLS layer that hands on the socket, so that the encrypted stream begins with whatever is unread.\<close>

fun first_chunk :: "socket \<Rightarrow> bytes option" where
  "first_chunk sk = (case sk_reads sk of ReadData bs # evs \<Rightarrow> Some bs | _ \<Rightarrow> None)"

definition sample_world :: "(unit, socket) world" where
  "sample_world =
     \<lparr>w_server_name = (\<lambda>_. True), w_tcp = (\<lambda>_ _. Inr (sample_socket [''T0002 OK go'' @ CRLF])), w_connector = Inr (),
      w_handshake = (\<lambda>_ _ sk _. Inr sk), w_greeting = first_chunk, w_env = (\<lambda>_. sample_env sample_ok), w_in_time = (\<lambda>_. True)\<rparr>"

theorem cleartext_is_not_trusted_witness:
  "let evs = [ReadData (''* OK [CAPABILITY IMAP4rev1] hi'' @ CRLF)];
       r = starttls_with_connector sample_world () ''a'' (followed_by (sample_socket [''T0002 OK go'' @ CRLF]) evs) 1 1;
       r' = starttls_with_connector sample_world () ''a''
              (followed_by (sample_socket [''* CAPABILITY IDLE'' @ CRLF, ''T0002 OK [CAPABILITY MOVE] ok'' @ CRLF]) evs) 1 1
   in r = r' \<and> \<not> isl r \<and> sess_caps (projr r) = from_atoms [''IMAP4rev1'']"
proof -
  let ?evs = "[ReadData (''* OK [CAPABILITY IMAP4rev1] hi'' @ CRLF)]"
  let ?sk1 = "sample_socket [''T0002 OK go'' @ CRLF]"
  let ?sk2 = "sample_socket [''* CAPABILITY IDLE'' @ CRLF, ''T0002 OK [CAPABILITY MOVE] ok'' @ CRLF]"
  have 1: "starttls_steps ?sk1 = (Inr (), fst (snd (starttls_steps ?sk1)), [])" "sk_reads (fst (snd (starttls_steps ?sk1))) = []" by code_simp+
  have 2: "starttls_steps ?sk2 = (Inr (), fst (snd (starttls_steps ?sk2)), [])" "sk_reads (fst (snd (starttls_steps ?sk2))) = []" by code_simp+
  have same: "sk_out ?sk1 = sk_out ?sk2" "sk_writes ?sk1 = sk_writes ?sk2" by (simp_all add: sample_socket_def)
  let ?r = "starttls_with_connector sample_world () ''a'' (followed_by ?sk1 ?evs) 1 1"
  have "\<not> isl ?r" "sess_caps (projr ?r) = from_atoms [''IMAP4rev1'']" by code_simp+
  with cleartext_is_not_trusted [OF 1 2 same, of sample_world "()" "''a''" ?evs 1 1] show ?thesis unfolding Let_def by blast
qed

section \<open>Arguments, errors and capabilities\<close>

text \<open>
  C37 The sequence sets accepted are exactly those of the grammar: non-empty lists, separated by commas, of
  numbers and ranges, where a number is \<open>*\<close> or a non-zero 32-bit number in decimal without leading zeros.
\<close>

theorem sequence_set_grammar: "sequence_set s = Inr r \<longleftrightarrow> r = s \<and> s \<in> sequence_set_lang"
  by (rule sequence_set_iff)

text \<open>
  C38 The bracket check of FETCH items accepts exactly the strings whose parentheses and brackets are
  properly nested.
\<close>

theorem brackets_check_is_balance: "has_balanced_brackets s \<longleftrightarrow> balanced (chars s)"
  by (rule has_balanced_brackets_iff)

text \<open>
  C39 Search texts cannot change a search: outside its quoted strings, a rendered criterion is the rendering of the same
  criterion with empty texts, and the line does not end inside a string.
\<close>

theorem search_shape_is_fixed:
  assumes "\<forall>s \<in> key_texts k. utf8_valid s"
  shows "\<exists>out. outside False (to_imap_string k) = (False, out) \<and> out = to_imap_string (blank k)"
  using to_imap_string_outside [OF assms] by (simp add: neat_def)

theorem search_shape_is_fixed_witness:
  "\<exists>out. outside False (to_imap_string (NotKey (FromKey (DQUOTE # '') DELETED ('')))) = (False, out)
     \<and> out = to_imap_string (blank (NotKey (FromKey (DQUOTE # '') DELETED (''))))"
proof (rule search_shape_is_fixed)
  have "utf8_valid (DQUOTE # '') DELETED ('')" by code_simp
  then show "\<forall>s \<in> key_texts (NotKey (FromKey (DQUOTE # '') DELETED (''))). utf8_valid s"
    by (simp only: key_texts.simps ball_simps simp_thms)
qed

text \<open>
  A capability is recorded exactly when an atom of the list is its name, compared without regard to ASCII case;
  a longer atom that merely contains the name does not count.
\<close>

theorem capabilities_by_name:
  assumes "(name, field) \<in> set capability_fields"
  shows "field (from_atoms atoms) \<longleftrightarrow> list_ex (\<lambda>a. eq_ignore_ascii_case a name) atoms"
  using from_atoms_field [OF assms] by (simp add: list_ex_iff)

theorem capabilities_by_name_witness:
  "idle (from_atoms [''IDLEX'', ''iDLe'']) \<longleftrightarrow> list_ex (\<lambda>a. eq_ignore_ascii_case a ''IDLE'') [''IDLEX'', ''iDLe'']"
  by (rule capabilities_by_name) (simp add: capability_fields_def)

text \<open>
  The characters that can disturb a terminal or a log, by their code points: the controls C0, DEL and C1, the line and paragraph separators, and the marks, embeddings, overrides
  and isolates of bidirectional text.
\<close>

definition control_chars :: "nat set" where
  "control_chars = {0x00..0x1F} \<union> {0x7F..0x9F}"

definition line_separators :: "nat set" where
  "line_separators = {0x2028, 0x2029}"

definition bidi_controls :: "nat set" where
  "bidi_controls = {0x061C, 0x200E, 0x200F} \<union> {0x202A..0x202E} \<union> {0x2066..0x2069}"

definition hostile_chars :: "nat set" where
  "hostile_chars = control_chars \<union> line_separators \<union> bidi_controls"

lemma unsafe_iff: "is_unsafe_to_display c \<longleftrightarrow> c \<in> hostile_chars"
  by (auto simp: is_unsafe_to_display_def is_control_def hostile_chars_def control_chars_def line_separators_def bidi_controls_def)

text \<open>
  C40 Text of the server in an error message is safe to show: well-formed, at most 513 characters, and none of them one of the listed control, separator and
  bidirectional characters.  Of the first 512 characters exactly the listed ones are replaced, by U+FFFD, and a text of at most 512 characters
  with none of them is kept as it is.
\<close>

theorem server_text_is_safe:
  assumes "utf8_valid s"
  shows "\<exists>t. command_failed s = CommandFailed t \<and> utf8_valid t \<and> length (chars t) \<le> 513
    \<and> set (chars t) \<inter> (control_chars \<union> line_separators \<union> bidi_controls) = {}
    \<and> take 512 (chars t) =
        map (\<lambda>c. if c \<in> control_chars \<union> line_separators \<union> bidi_controls then 0xFFFD else c) (take 512 (chars s))
    \<and> (length (chars s) \<le> 512 \<and> set (chars s) \<inter> (control_chars \<union> line_separators \<union> bidi_controls) = {} \<longrightarrow> t = s)"
proof -
  obtain t where t: "command_failed s = CommandFailed t" by (simp add: command_failed_def)
  from chars_command_failed [OF t] have ct: "chars t = safe_chars (chars s)" and v: "utf8_valid t" by auto
  have same: "t = s" if "length (chars s) \<le> 512" "set (chars s) \<inter> hostile_chars = {}"
  proof -
    have "chars t = chars s"
      using that ct by (intro trans [OF ct] safe_chars_id) (auto simp: MAX_SERVER_TEXT_CHARS_def unsafe_iff)
    with encode_chars [OF v] encode_chars [OF assms] show ?thesis by metis
  qed
  have len: "length (chars t) \<le> 513" by (simp add: ct length_safe_chars MAX_SERVER_TEXT_CHARS_def)
  have safe: "set (chars t) \<inter> hostile_chars = {}"
    using safe_chars_safe by (auto simp: ct unsafe_iff)
  have kept: "take 512 (chars t) = map (\<lambda>c. if c \<in> hostile_chars then 0xFFFD else c) (take 512 (chars s))"
    by (simp add: ct safe_chars_def safe_char_def REPLACEMENT_def MAX_SERVER_TEXT_CHARS_def unsafe_iff)
  show ?thesis unfolding hostile_chars_def [symmetric]
    by (intro exI [of _ t] conjI impI t v len safe kept) (elim conjE, rule same)
qed

theorem server_text_is_safe_witness:
  "command_failed ''no such mailbox'' = CommandFailed ''no such mailbox''
   \<and> (\<exists>t. command_failed (encode_utf8 [0x61, 0x202E, 0x1B, 0x62]) = CommandFailed t \<and> take 512 (chars t) = [0x61, 0xFFFD, 0xFFFD, 0x62])"
proof
  have mb: "utf8_valid ''no such mailbox''" "length (chars ''no such mailbox'') \<le> 512" by code_simp+
  have "chars ''no such mailbox'' = map byte_val ''no such mailbox''" by code_simp
  then have none: "set (chars ''no such mailbox'') \<inter> (control_chars \<union> line_separators \<union> bidi_controls) = {}"
    by (simp add: control_chars_def line_separators_def bidi_controls_def)
  obtain t where "command_failed ''no such mailbox'' = CommandFailed t" "t = ''no such mailbox''"
    using server_text_is_safe [OF mb(1)] mb(2) none by blast
  then show "command_failed ''no such mailbox'' = CommandFailed ''no such mailbox''" by (simp only:)
  have "utf8_valid (encode_utf8 [0x61, 0x202E, 0x1B, 0x62])"
    "take 512 (chars (encode_utf8 [0x61, 0x202E, 0x1B, 0x62])) = [0x61, 0x202E, 0x1B, 0x62]" by code_simp+
  with server_text_is_safe [of "encode_utf8 [0x61, 0x202E, 0x1B, 0x62]"]
  show "\<exists>t. command_failed (encode_utf8 [0x61, 0x202E, 0x1B, 0x62]) = CommandFailed t \<and> take 512 (chars t) = [0x61, 0xFFFD, 0xFFFD, 0x62]"
    by (auto simp: control_chars_def line_separators_def bidi_controls_def)
qed

section \<open>Where code and documentation differ\<close>

text \<open>Text between a recognised response and the line end is rejected.\<close>

lemma trailing_text_rejected:
  "parse_response (''* 5 EXISTS x'' @ CRLF) = Inl (Malformed ''expected CR'')"
  by code_simp

text \<open>An unknown response keeps the \<open>*\<close> of its line if a number follows, and loses it otherwise.\<close>

lemma unknown_responses_differ:
  "parse_response (''* 5 FOO'' @ CRLF) = Inr ([], DataResp (OtherData ''* 5 FOO''))"
  "parse_response (''* FOO 5'' @ CRLF) = Inr ([], DataResp (OtherData ''FOO 5''))"
  by code_simp+

text \<open>A byte that is not ASCII passes for an atom character of the parser, not for one of the validators.\<close>

lemma atom_chars_differ: "is_atom_char (CHR 0xE9) \<and> \<not> wire_is_atom_char (CHR 0xE9)"
  by code_simp

text \<open>A body structure is returned as the body of a message.\<close>

lemma structure_taken_for_body:
  "fetch_result (''* 1 FETCH (BODY (TEXT))'' @ CRLF)
     = Some \<lparr>fr_seq = 1, fr_uid = None, fr_body = Some ''(TEXT)''\<rparr>"
  by code_simp

text \<open>An empty conjunction of search criteria is sent as no criterion at all.\<close>

lemma empty_conjunction_is_blank: "to_imap_string (AndKey []) = []"
  by code_simp

text \<open>A control character other than CR, LF and NUL is quoted, not refused.\<close>

lemma control_character_quoted: "imap_quoted [CHR 0x07] = Inr [DQUOTE, CHR 0x07, DQUOTE]"
  by code_simp

end
